(* ===== verification/Prelude.thy ===== *)
theory Prelude
  imports Main "HOL-Library.Word" "HOL-Library.Monad_Syntax"
begin

unbundle bit_operations_syntax

text \<open>
  The prelude of the LightOS development: the names of Rust's machine types, the result
  types, the little- and big-endian byte codecs of \<open>core\<close> (\<open>to_le_bytes\<close>,
  \<open>from_be_bytes\<close> and their kin), the slice and iterator operations the kernel uses
  (\<open>position\<close>, \<open>min\<close>, \<open>checked_add\<close>), and the generic lemmas on lists, options
  and words that the component theories share. Facts that the component proofs pass to the
  simplifier as a group are collected in the named theorems below.
\<close>

section \<open>Collections\<close>

named_theorems byte_simps \<open>round trips and lengths of the byte codecs\<close>
named_theorems word_arith \<open>unsigned readings of address arithmetic\<close>
named_theorems frame_simps \<open>facts on page-aligned addresses and the offsets inside a page\<close>

section \<open>Machine types and results\<close>

type_synonym u8 = "8 word"
type_synonym u16 = "16 word"
type_synonym u32 = "32 word"
type_synonym u64 = "64 word"
type_synonym usize = "64 word"
type_synonym isize = "64 word"

text \<open>
  \<open>Result<T, &'static str>\<close> is a sum, \<open>Inl\<close> for \<open>Err\<close>. Code that may panic returns
  \<open>'a run\<close>: \<open>None\<close> is the panic, which halts the hart. Where a Rust \<open>Option\<close> and a panic
  meet, the outer option is the panic.
\<close>

type_synonym 'a result = "string + 'a"
type_synonym 'a run = "'a option"

text \<open>The \<open>?\<close> operator on a \<open>Result\<close>.\<close>

fun do_result :: "'a result \<Rightarrow> ('a \<Rightarrow> 'b result) \<Rightarrow> 'b result" where
  "do_result (Inl e) f = Inl e"
| "do_result (Inr x) f = f x"

lemma do_result_cong [fundef_cong]:
  "r = r' \<Longrightarrow> (\<And>x. r' = Inr x \<Longrightarrow> f x = g x) \<Longrightarrow> do_result r f = do_result r' g"
  by (cases r') auto

lemma do_result_Inr: "do_result r f = Inr y \<longleftrightarrow> (\<exists>x. r = Inr x \<and> f x = Inr y)"
  by (cases r) auto

lemma do_result_assoc: "do_result (do_result r f) g = do_result r (\<lambda>x. do_result (f x) g)"
  by (cases r) auto

definition checked_add :: "usize \<Rightarrow> usize \<Rightarrow> usize option" where
  "checked_add a b = (if unat a + unat b < 2 ^ 64 then Some (a + b) else None)"

lemma checked_add_Some [word_arith]:
  "checked_add a b = Some c \<longleftrightarrow> unat a + unat b < 2 ^ 64 \<and> c = a + b"
  by (auto simp: checked_add_def)

lemma checked_add_None [word_arith]:
  "checked_add a b = None \<longleftrightarrow> 2 ^ 64 \<le> unat a + unat b"
  by (auto simp: checked_add_def)

section \<open>Iterators over slices\<close>

text \<open>\<open>Iterator::position\<close>: the index of the first element that satisfies a predicate.\<close>

fun position :: "('a \<Rightarrow> bool) \<Rightarrow> 'a list \<Rightarrow> nat option" where
  "position P [] = None"
| "position P (x # xs) = (if P x then Some 0 else map_option Suc (position P xs))"

lemma position_None: "position P xs = None \<longleftrightarrow> (\<forall>x \<in> set xs. \<not> P x)"
  by (induction xs) auto

lemma position_Some:
  "position P xs = Some i \<longleftrightarrow> i < length xs \<and> P (xs ! i) \<and> (\<forall>j < i. \<not> P (xs ! j))"
proof (induction xs arbitrary: i)
  case Nil
  then show ?case by simp
next
  case (Cons x xs)
  show ?case
  proof (cases i)
    case 0
    then show ?thesis by auto
  next
    case (Suc k)
    have "(\<forall>j < Suc k. \<not> P ((x # xs) ! j)) \<longleftrightarrow> \<not> P x \<and> (\<forall>j < k. \<not> P (xs ! j))"
      by (auto simp: less_Suc_eq_0_disj)
    with Suc Cons.IH show ?thesis by auto
  qed
qed

lemma position_SomeD:
  assumes "position P xs = Some i"
  shows "i < length xs" and "P (xs ! i)"
  using assms by (auto simp: position_Some)

lemma position_exists: "x \<in> set xs \<Longrightarrow> P x \<Longrightarrow> \<exists>i. position P xs = Some i"
  by (cases "position P xs") (auto simp: position_None)

section \<open>Byte codecs\<close>

text \<open>
  \<open>from_le_bytes\<close> and \<open>to_le_bytes\<close> for every width; the big-endian codecs read the bytes in
  the other order. The first argument of the encoders is the number of bytes.
\<close>

fun from_le_bytes :: "u8 list \<Rightarrow> 'a::len word" where
  "from_le_bytes [] = 0"
| "from_le_bytes (b # bs) = (ucast b OR push_bit 8 (from_le_bytes bs))"

definition to_le_bytes :: "nat \<Rightarrow> 'a::len word \<Rightarrow> u8 list" where
  "to_le_bytes k w = map (\<lambda>i. ucast (drop_bit (8 * i) w)) [0..<k]"

definition from_be_bytes :: "u8 list \<Rightarrow> 'a::len word" where
  "from_be_bytes bs = from_le_bytes (rev bs)"

definition to_be_bytes :: "nat \<Rightarrow> 'a::len word \<Rightarrow> u8 list" where
  "to_be_bytes k w = rev (to_le_bytes k w)"

lemma length_to_le_bytes [simp]: "length (to_le_bytes k w) = k"
  by (simp add: to_le_bytes_def)

lemma length_to_be_bytes [simp]: "length (to_be_bytes k w) = k"
  by (simp add: to_be_bytes_def)

lemma bit_from_le_bytes:
  "bit (from_le_bytes bs :: 'a::len word) n \<longleftrightarrow>
     n < LENGTH('a) \<and> n div 8 < length bs \<and> bit (bs ! (n div 8)) (n mod 8)"
proof (induction bs arbitrary: n)
  case Nil
  then show ?case by simp
next
  case (Cons b bs)
  show ?case
  proof (cases "n < 8")
    case True
    then show ?thesis
      by (auto simp: bit_simps)
  next
    case False
    define m where "m = n - 8"
    have n: "n = m + 8" using False by (simp add: m_def)
    have "\<not> bit b n"
      using False bit_imp_le_length [of b n] by auto
    moreover have "(m + 8) div 8 = Suc (m div 8)" by simp
    ultimately show ?thesis
      using False Cons.IH [of m] by (auto simp: bit_simps n)
  qed
qed

lemma from_to_le_bytes:
  assumes "LENGTH('a) \<le> 8 * k"
  shows "from_le_bytes (to_le_bytes k (w :: 'a::len word)) = w"
proof (rule bit_word_eqI)
  fix n assume n: "n < LENGTH('a)"
  with assms have "n div 8 < k" by auto
  with n show "bit (from_le_bytes (to_le_bytes k w) :: 'a word) n = bit w n"
    by (simp add: bit_from_le_bytes to_le_bytes_def bit_simps)
qed

lemma to_from_le_bytes:
  assumes "8 * length bs \<le> LENGTH('a)" and "k = length bs"
  shows "to_le_bytes k (from_le_bytes bs :: 'a::len word) = bs"
proof (rule nth_equalityI)
  show "length (to_le_bytes k (from_le_bytes bs :: 'a word)) = length bs"
    by (simp add: assms)
next
  fix i assume "i < length (to_le_bytes k (from_le_bytes bs :: 'a word))"
  then have i: "i < length bs" by (simp add: assms)
  show "to_le_bytes k (from_le_bytes bs :: 'a word) ! i = bs ! i"
  proof (rule bit_word_eqI)
    fix n assume "n < LENGTH(8)"
    then have n: "n < 8" by simp
    with i assms have "8 * i + n < LENGTH('a)" by auto
    moreover have "(8 * i + n) div 8 = i" and "(8 * i + n) mod 8 = n" using n by auto
    ultimately show "bit (to_le_bytes k (from_le_bytes bs :: 'a word) ! i) n = bit (bs ! i) n"
      using i n by (simp add: assms to_le_bytes_def bit_from_le_bytes bit_simps)
  qed
qed

lemma from_to_be_bytes:
  assumes "LENGTH('a) \<le> 8 * k"
  shows "from_be_bytes (to_be_bytes k (w :: 'a::len word)) = w"
  using assms by (simp add: from_be_bytes_def to_be_bytes_def from_to_le_bytes)

lemma from_to_le_u64 [simp, byte_simps]: "from_le_bytes (to_le_bytes 8 (w :: u64)) = w"
  by (rule from_to_le_bytes) simp

lemma from_to_le_u32 [simp, byte_simps]: "from_le_bytes (to_le_bytes 4 (w :: u32)) = w"
  by (rule from_to_le_bytes) simp

lemma from_to_le_u16 [simp, byte_simps]: "from_le_bytes (to_le_bytes 2 (w :: u16)) = w"
  by (rule from_to_le_bytes) simp

lemma from_to_be_u16 [simp, byte_simps]: "from_be_bytes (to_be_bytes 2 (w :: u16)) = w"
  by (rule from_to_be_bytes) simp

lemma length2_conv: "length xs = 2 \<longleftrightarrow> (\<exists>a b. xs = [a, b])"
  by (auto simp: numeral_2_eq_2 length_Suc_conv)

lemma to_be_bytes_u16_parts:
  obtains a b where "to_be_bytes 2 (w :: u16) = [a, b]" and "from_be_bytes [a, b] = w"
proof -
  obtain a b where ab: "to_be_bytes 2 w = [a, b]"
    using length2_conv [of "to_be_bytes 2 w"] by auto
  moreover from ab have "from_be_bytes [a, b] = w"
    by (metis from_to_be_u16)
  ultimately show thesis by (rule that)
qed

section \<open>Address arithmetic\<close>

lemma unat_word_of_nat_less [simp]:
  "n < 2 ^ 64 \<Longrightarrow> unat (word_of_nat n :: usize) = n"
  by (simp add: unat_of_nat)

lemma unat_add_no_wrap [word_arith]:
  "unat a + n < 2 ^ 64 \<Longrightarrow> unat (a + word_of_nat n :: usize) = unat a + n"
  by (simp add: unat_word_ariths unat_of_nat)

lemma word_of_nat_inject_less:
  "m < 2 ^ 64 \<Longrightarrow> n < 2 ^ 64 \<Longrightarrow> (word_of_nat m :: usize) = word_of_nat n \<longleftrightarrow> m = n"
  by (metis unat_word_of_nat_less)

lemma unat_add_diff_cancel [simp]:
  "n < 2 ^ 64 \<Longrightarrow> unat (a + word_of_nat n - a :: usize) = n"
  by (simp add: unat_of_nat)

lemma unat_lt_pow64 [simp]: "unat (a :: usize) < 18446744073709551616"
  using unsigned_less [of a] by simp

section \<open>What holds when a run returns\<close>

text \<open>
  \<open>when_returns P m\<close>: if the computation does not panic, its result satisfies \<open>P\<close>. The equations turn a
  goal about a sequence of calls into one about each call, with the earlier results as premises.
\<close>

definition when_returns :: "('a \<Rightarrow> bool) \<Rightarrow> 'a option \<Rightarrow> bool" where
  "when_returns P m \<longleftrightarrow> (\<forall>x. m = Some x \<longrightarrow> P x)"

lemma when_returns_simps [simp]:
  "when_returns P None" "when_returns P (Some x) \<longleftrightarrow> P x"
  "when_returns P (Option.bind m f) \<longleftrightarrow> (\<forall>x. m = Some x \<longrightarrow> when_returns P (f x))"
  by (auto simp: when_returns_def bind_eq_Some_conv)

lemma when_returnsD: "m = Some x \<Longrightarrow> when_returns P m \<Longrightarrow> P x"
  by (simp add: when_returns_def)

end
