(* ===== verification/Spin_Lock.thy ===== *)
theory Spin_Lock
  imports Prelude
begin

text \<open>
  \<open>kernel/lock.rs\<close>: the spin lock, as a step relation on the flag, the protected value and a program
  counter for each hart. The atomic steps of the code are the compare-and-exchange of \<open>lock\<close>, which
  may fail spuriously since it is the weak one, the accesses through the guard, and the store of
  \<open>drop\<close>. Every other component theory treats a critical section as one step; the theorem here is what
  entitles it to.
\<close>

section \<open>The lock\<close>

datatype lock_pc = Outside | Spinning | Guarded

record 'a SpinLock =
  locked :: bool
  lock_value :: 'a

definition SpinLock_new :: "'a \<Rightarrow> 'a SpinLock" where
  "SpinLock_new v = \<lparr>locked = False, lock_value = v\<rparr>"

text \<open>\<open>compare_exchange_weak(false, true)\<close>: the flag says whether it fails spuriously.\<close>

definition compare_exchange_weak :: "bool \<Rightarrow> 'a SpinLock \<Rightarrow> bool \<times> 'a SpinLock" where
  "compare_exchange_weak spurious l = (if \<not> locked l \<and> \<not> spurious then (True, l\<lparr>locked := True\<rparr>) else (False, l))"

definition guard_deref :: "'a SpinLock \<Rightarrow> 'a" where "guard_deref l = lock_value l"

definition guard_deref_mut :: "('a \<Rightarrow> 'a) \<Rightarrow> 'a SpinLock \<Rightarrow> 'a SpinLock" where
  "guard_deref_mut f l = l\<lparr>lock_value := f (lock_value l)\<rparr>"

definition guard_drop :: "'a SpinLock \<Rightarrow> 'a SpinLock" where "guard_drop l = l\<lparr>locked := False\<rparr>"

text \<open>One step of hart \<open>h\<close>: calling \<open>lock\<close>, one turn of its loop, an access through the guard, dropping it.\<close>

inductive lock_step :: "nat \<Rightarrow> 'a SpinLock \<times> (nat \<Rightarrow> lock_pc) \<Rightarrow> 'a SpinLock \<times> (nat \<Rightarrow> lock_pc) \<Rightarrow> bool" where
  call: "pc h = Outside \<Longrightarrow> lock_step h (l, pc) (l, pc(h := Spinning))"
| turn: "pc h = Spinning \<Longrightarrow> compare_exchange_weak spurious l = (won, l') \<Longrightarrow>
    lock_step h (l, pc) (l', pc(h := if won then Guarded else Spinning))"
| access: "pc h = Guarded \<Longrightarrow> lock_step h (l, pc) (guard_deref_mut f l, pc)"
| release: "pc h = Guarded \<Longrightarrow> lock_step h (l, pc) (guard_drop l, pc(h := Outside))"

inductive lock_reachable :: "'a \<Rightarrow> 'a SpinLock \<times> (nat \<Rightarrow> lock_pc) \<Rightarrow> bool" for v where
  start: "lock_reachable v (SpinLock_new v, \<lambda>_. Outside)"
| step: "lock_reachable v s \<Longrightarrow> lock_step h s s' \<Longrightarrow> lock_reachable v s'"

inductive_cases lock_stepE: "lock_step h (l, pc) s'"

section \<open>Mutual exclusion\<close>

definition lock_inv :: "'a SpinLock \<times> (nat \<Rightarrow> lock_pc) \<Rightarrow> bool" where
  "lock_inv s \<longleftrightarrow> (case s of (l, pc) \<Rightarrow>
     (locked l \<longleftrightarrow> (\<exists>h. pc h = Guarded)) \<and> (\<forall>g h. pc g = Guarded \<and> pc h = Guarded \<longrightarrow> g = h))"

lemma lock_step_inv: "lock_step h s s' \<Longrightarrow> lock_inv s \<Longrightarrow> lock_inv s'"
proof (induction rule: lock_step.induct)
  case (call pc h l)
  then have "(pc(h := Spinning)) g = Guarded \<longleftrightarrow> pc g = Guarded" for g by simp
  with call show ?case by (simp add: lock_inv_def)
next
  case (turn pc h spurious l won l')
  show ?case
  proof (cases won)
    case True
    with turn show ?thesis by (auto simp: lock_inv_def compare_exchange_weak_def split: if_splits)
  next
    case False
    with turn have "l' = l" "pc(h := Spinning) = pc"
      by (auto simp: compare_exchange_weak_def fun_upd_idem split: if_splits)
    with turn False show ?thesis by simp
  qed
next
  case (release pc h l)
  then show ?case by (auto simp: lock_inv_def guard_drop_def)
qed (auto simp: lock_inv_def guard_deref_mut_def)

lemma lock_reachable_inv: "lock_reachable v s \<Longrightarrow> lock_inv s"
proof (induction rule: lock_reachable.induct)
  case start
  show ?case by (simp add: lock_inv_def SpinLock_new_def)
qed (rule lock_step_inv)

text \<open>
  C32: the guard is exclusive: in every reachable state the flag is set exactly while some hart holds the
  guard, at most one does, no step of another hart changes the protected value or takes the guard
  away, and when nobody holds it the next turn of any spinning hart that does not fail spuriously
  acquires it.
\<close>

theorem spin_lock_exclusive:
  assumes "lock_reachable v (l, pc)"
  shows "(locked l \<longleftrightarrow> (\<exists>h. pc h = Guarded)) \<and>
    (\<forall>h. pc h = Guarded \<longrightarrow> (\<forall>g l' pc'. g \<noteq> h \<and> lock_step g (l, pc) (l', pc') \<longrightarrow>
       pc g \<noteq> Guarded \<and> guard_deref l' = guard_deref l \<and> pc' h = Guarded \<and> pc' g \<noteq> Guarded)) \<and>
    (\<forall>h. pc h = Spinning \<and> \<not> locked l \<longrightarrow> lock_step h (l, pc) (l\<lparr>locked := True\<rparr>, pc(h := Guarded)))"
proof -
  note inv = lock_reachable_inv [OF assms]
  have "pc g \<noteq> Guarded \<and> guard_deref l' = guard_deref l \<and> pc' h = Guarded \<and> pc' g \<noteq> Guarded"
    if h: "pc h = Guarded" and g: "g \<noteq> h" and st: "lock_step g (l, pc) (l', pc')" for g h l' pc'
  proof -
    have "pc g \<noteq> Guarded" "locked l" using inv h g by (auto simp: lock_inv_def)
    with st h g show ?thesis
      by (elim lock_stepE) (auto simp: compare_exchange_weak_def guard_deref_def split: if_splits)
  qed
  moreover have "lock_step h (l, pc) (l\<lparr>locked := True\<rparr>, pc(h := Guarded))"
    if "pc h = Spinning" "\<not> locked l" for h
    using lock_step.turn [of pc h False l True "l\<lparr>locked := True\<rparr>"] that by (simp add: compare_exchange_weak_def)
  moreover have "locked l \<longleftrightarrow> (\<exists>h. pc h = Guarded)" using inv by (simp add: lock_inv_def)
  ultimately show ?thesis by blast
qed

theorem spin_lock_exclusive_witness:
  "lock_step 1 (SpinLock_new (0 :: nat), (\<lambda>_. Outside)(1 := Spinning))
     (\<lparr>locked = True, lock_value = 0\<rparr>, (\<lambda>_. Outside)(1 := Guarded))"
proof -
  have "lock_reachable 0 (SpinLock_new (0 :: nat), (\<lambda>_. Outside)(1 := Spinning))"
    by (rule lock_reachable.step [OF lock_reachable.start lock_step.call]) simp
  from conjunct2 [OF conjunct2 [OF spin_lock_exclusive [OF this]], rule_format, of 1]
  show ?thesis by (simp add: SpinLock_new_def)
qed

end
