(* ===== verification/Layout.thy ===== *)
theory Layout
  imports Prelude
begin

unbundle bit_operations_syntax

text \<open>
  \<open>kernel/mem/layout.rs\<close>: the memory map of the QEMU \<open>virt\<close> machine, the addresses the
  linker provides (a parameter of the model, the record \<open>linker\<close>) and the two rounding
  functions. The lemmas give the rounding functions their arithmetic meaning and the facts on
  page-aligned addresses that every later theory uses (collection \<open>frame_simps\<close>).
\<close>

section \<open>Constants\<close>

definition PAGE_SIZE :: usize where [simp]: "PAGE_SIZE = 4096"
definition RAM_START :: usize where [simp]: "RAM_START = 0x80000000"
definition RAM_SIZE :: usize where [simp]: "RAM_SIZE = 128 * 1024 * 1024"
definition RAM_END :: usize where [simp]: "RAM_END = RAM_START + RAM_SIZE"
definition KERNEL_BASE :: usize where [simp]: "KERNEL_BASE = RAM_START"
definition TEST_BASE :: usize where [simp]: "TEST_BASE = 0x00100000"
definition TEST_SIZE :: usize where [simp]: "TEST_SIZE = PAGE_SIZE"
definition UART0_BASE :: usize where [simp]: "UART0_BASE = 0x10000000"
definition UART0_SIZE :: usize where [simp]: "UART0_SIZE = PAGE_SIZE"
definition VIRTIO_BASE :: usize where [simp]: "VIRTIO_BASE = 0x10001000"
definition VIRTIO_SIZE :: usize where [simp]: "VIRTIO_SIZE = 8 * PAGE_SIZE"
definition CLINT_BASE :: usize where [simp]: "CLINT_BASE = 0x02000000"
definition CLINT_SIZE :: usize where [simp]: "CLINT_SIZE = 0x10000"
definition PLIC_BASE :: usize where [simp]: "PLIC_BASE = 0x0c000000"
definition PLIC_SIZE :: usize where [simp]: "PLIC_SIZE = 0x400000"
definition NUM_HARTS :: nat where [simp]: "NUM_HARTS = 4"

text \<open>The linker-provided symbols, read by the accessors \<open>symbol_fn!\<close> generates.\<close>

record linker =
  text_start :: usize
  text_end :: usize
  rodata_start :: usize
  rodata_end :: usize
  data_start :: usize
  bss_end :: usize
  stack_start :: usize
  stack_end :: usize
  heap_start :: usize

section \<open>Rounding to pages\<close>

definition page_down :: "usize \<Rightarrow> usize" where
  "page_down addr = addr AND NOT (PAGE_SIZE - 1)"

definition page_up :: "usize \<Rightarrow> usize" where
  "page_up addr = (addr + PAGE_SIZE - 1) AND NOT (PAGE_SIZE - 1)"

definition page_aligned :: "usize \<Rightarrow> bool" where
  "page_aligned a \<longleftrightarrow> a AND (PAGE_SIZE - 1) = 0"

lemma page_offset_eq_take_bit: "(a :: usize) AND 4095 = take_bit 12 a"
  by (simp add: take_bit_eq_mask mask_eq_exp_minus_1)

lemma unat_take_bit_12: "unat (take_bit 12 (a :: usize)) = unat a mod 4096"
  by (simp only: unsigned_take_bit_eq) (simp add: take_bit_eq_mod)

lemma page_down_eq_diff: "page_down a = a - take_bit 12 a"
proof -
  have "a AND NOT 4095 = push_bit 12 (drop_bit 12 a)"
  proof (rule bit_word_eqI)
    fix n assume "n < LENGTH(64)"
    moreover have "(4095 :: usize) = mask 12" by (simp add: mask_eq_exp_minus_1)
    ultimately show "bit (a AND NOT 4095) n = bit (push_bit 12 (drop_bit 12 a)) n"
      by (simp only: bit_and_iff bit_not_iff bit_mask_iff bit_push_bit_iff bit_drop_bit_eq) auto
  qed
  moreover have "push_bit 12 (drop_bit 12 a) + take_bit 12 a = a"
    by (rule bits_ident)
  ultimately show ?thesis
    by (simp add: page_down_def algebra_simps)
qed

lemma unat_page_down [frame_simps]: "unat (page_down a) = unat a - unat a mod 4096"
proof -
  have "unat (take_bit 12 a) \<le> unat a"
    by (simp add: unat_take_bit_12)
  then have "take_bit 12 a \<le> a"
    by (simp add: word_le_nat_alt)
  then show ?thesis
    by (simp add: page_down_eq_diff unat_sub unat_take_bit_12)
qed

lemma page_up_eq_down: "page_up a = page_down (a + 4095)"
  by (simp add: page_up_def page_down_def add.commute)

lemma unat_page_up [frame_simps]:
  assumes "unat a + 4095 < 2 ^ 64"
  shows "unat (page_up a) = (unat a + 4095) div 4096 * 4096"
proof -
  have "unat (a + 4095) = unat a + 4095"
    using assms unat_add_no_wrap [of a 4095] by simp
  then show ?thesis
    by (simp add: page_up_eq_down unat_page_down minus_mod_eq_div_mult)
qed

lemma page_aligned_iff [frame_simps]: "page_aligned a \<longleftrightarrow> 4096 dvd unat a"
proof -
  have "page_aligned a \<longleftrightarrow> unat (take_bit 12 a) = 0"
    by (simp add: page_aligned_def page_offset_eq_take_bit unsigned_eq_0_iff)
  then show ?thesis by (simp add: unat_take_bit_12 dvd_eq_mod_eq_0)
qed

lemma page_aligned_page_down [simp]: "page_aligned (page_down a)"
  by (simp add: page_aligned_iff unat_page_down minus_mod_eq_div_mult)

lemma page_down_aligned [simp]: "page_aligned a \<Longrightarrow> page_down a = a"
  by (simp add: page_down_eq_diff page_aligned_def page_offset_eq_take_bit)

lemma page_up_aligned: "page_aligned (page_up a)"
  by (simp add: page_up_eq_down)

section \<open>Offsets inside a page\<close>

text \<open>The number of the 4 KiB frame that an address lies in.\<close>

definition frame_of :: "usize \<Rightarrow> nat" where
  "frame_of a = unat a div 4096"

lemma unat_aligned_add [frame_simps]:
  assumes "page_aligned p" and "k < 4096"
  shows "unat (p + word_of_nat k) = unat p + k"
proof (rule unat_add_no_wrap)
  obtain q where q: "unat p = 4096 * q"
    using assms(1) by (auto simp: page_aligned_iff)
  have "unat p < 2 ^ 64" using unat_lt_pow64 [of p] by simp
  with q have "q < 2 ^ 52" by simp
  with q assms(2) show "unat p + k < 2 ^ 64" by simp
qed

lemma frame_of_add [frame_simps]:
  assumes "page_aligned p" and "k < 4096"
  shows "frame_of (p + word_of_nat k) = frame_of p"
proof -
  obtain q where "unat p = 4096 * q"
    using assms(1) by (auto simp: page_aligned_iff)
  with assms show ?thesis
    by (simp add: frame_of_def unat_aligned_add)
qed

lemma aligned_eq_iff_frame:
  assumes "page_aligned p" and "page_aligned q"
  shows "frame_of p = frame_of q \<longleftrightarrow> p = q"
proof
  assume eq: "frame_of p = frame_of q"
  obtain i where "unat p = 4096 * i" using assms(1) by (auto simp: page_aligned_iff)
  moreover obtain j where "unat q = 4096 * j" using assms(2) by (auto simp: page_aligned_iff)
  ultimately have "unat p = unat q" using eq by (simp add: frame_of_def)
  then show "p = q" by (simp only: word_unat_eq_iff)
qed simp

lemma frame_of_eq_offset:
  assumes "page_aligned p" and "frame_of a = frame_of p"
  shows "unat (a - p) < 4096" and "unat (a - p) = unat a mod 4096"
proof -
  obtain i where i: "unat p = 4096 * i"
    using assms(1) by (auto simp: page_aligned_iff)
  with assms(2) have a: "unat a = 4096 * i + unat a mod 4096"
    by (simp add: frame_of_def) (metis div_mult_mod_eq mult.commute)
  then have "p \<le> a" by (simp add: word_le_nat_alt i)
  then have "unat (a - p) = unat a - unat p" by (simp add: unat_sub)
  with a i show "unat (a - p) = unat a mod 4096" by simp
  then show "unat (a - p) < 4096" by simp
qed

lemma offset_in_frame:
  assumes "page_aligned p" and "unat (a - p) < 4096"
  shows "frame_of a = frame_of p"
proof -
  have "a = p + word_of_nat (unat (a - p))" by simp
  then show ?thesis by (metis assms frame_of_add)
qed

end
