(* ===== verification/Phys_Mem.thy ===== *)
theory Phys_Mem
  imports Layout
begin

text \<open>
  Physical memory as the kernel sees it through its identity map: a byte store addressed by
  \<open>usize\<close>. The raw-pointer operations of the source (\<open>ptr::write_bytes\<close>,
  \<open>copy_nonoverlapping\<close>, the reads and writes of eight-byte page-table entries) are
  \<open>store_bytes\<close>, \<open>load_bytes\<close>, \<open>load64\<close> and \<open>store64\<close>. The lemmas are the
  read-over-write laws of such a store.
\<close>

type_synonym pmem = "usize \<Rightarrow> u8"

definition store_bytes :: "pmem \<Rightarrow> usize \<Rightarrow> u8 list \<Rightarrow> pmem" where
  "store_bytes m a bs = (\<lambda>x. if unat (x - a) < length bs then bs ! unat (x - a) else m x)"

definition load_bytes :: "pmem \<Rightarrow> usize \<Rightarrow> nat \<Rightarrow> u8 list" where
  "load_bytes m a n = map (\<lambda>i. m (a + word_of_nat i)) [0..<n]"

definition load64 :: "pmem \<Rightarrow> usize \<Rightarrow> u64" where
  "load64 m a = from_le_bytes (load_bytes m a 8)"

definition store64 :: "pmem \<Rightarrow> usize \<Rightarrow> u64 \<Rightarrow> pmem" where
  "store64 m a v = store_bytes m a (to_le_bytes 8 v)"

lemma length_load_bytes [simp]: "length (load_bytes m a n) = n"
  by (simp add: load_bytes_def)

lemma nth_load_bytes [simp]: "i < n \<Longrightarrow> load_bytes m a n ! i = m (a + word_of_nat i)"
  by (simp add: load_bytes_def)

lemma load_store_same:
  assumes "length bs < 2 ^ 64" and "n = length bs"
  shows "load_bytes (store_bytes m a bs) a n = bs"
  using assms by (auto simp: load_bytes_def store_bytes_def intro!: nth_equalityI)

lemma store_bytes_other: "length bs \<le> unat (x - a) \<Longrightarrow> store_bytes m a bs x = m x"
  by (simp add: store_bytes_def)

lemma load_bytes_cong:
  "(\<And>i. i < n \<Longrightarrow> m (a + word_of_nat i) = m' (a + word_of_nat i)) \<Longrightarrow>
   load_bytes m a n = load_bytes m' a n"
  by (simp add: load_bytes_def)

lemma load64_store64_same [simp]: "load64 (store64 m a v) a = v"
  by (simp add: load64_def store64_def load_store_same)

lemma load64_cong:
  "(\<And>i. i < 8 \<Longrightarrow> m (a + word_of_nat i) = m' (a + word_of_nat i)) \<Longrightarrow> load64 m a = load64 m' a"
  by (simp add: load64_def load_bytes_cong [of 8 m a m'])

text \<open>A store inside one frame leaves every other frame alone.\<close>

lemma store_bytes_other_frame:
  assumes "page_aligned p" and "k + length bs \<le> 4096" and "frame_of x \<noteq> frame_of p"
  shows "store_bytes m (p + word_of_nat k) bs x = m x"
proof (rule store_bytes_other, rule ccontr)
  let ?d = "unat (x - (p + word_of_nat k))"
  assume "\<not> length bs \<le> ?d"
  then have d: "?d < length bs" by simp
  have "x = p + word_of_nat (k + ?d)" by simp
  moreover have "k + ?d < 4096" using d assms(2) by simp
  ultimately have "frame_of x = frame_of p"
    by (metis assms(1) frame_of_add)
  with assms(3) show False by simp
qed

lemma load64_other_frame:
  assumes "page_aligned p" and "page_aligned q" and "p \<noteq> q"
    and "k + length bs \<le> 4096" and "j + 8 \<le> 4096"
  shows "load64 (store_bytes m (p + word_of_nat k) bs) (q + word_of_nat j) = load64 m (q + word_of_nat j)"
proof (rule load64_cong)
  fix i :: nat assume "i < 8"
  then have "frame_of (q + word_of_nat (j + i)) = frame_of q"
    using assms(2,5) by (intro frame_of_add) auto
  then have "frame_of (q + word_of_nat j + word_of_nat i) \<noteq> frame_of p"
    using assms(1,2,3) by (simp add: aligned_eq_iff_frame add.assoc)
  then show "store_bytes m (p + word_of_nat k) bs (q + word_of_nat j + word_of_nat i)
      = m (q + word_of_nat j + word_of_nat i)"
    using assms(1,4) by (rule store_bytes_other_frame [rotated 2])
qed

lemma load64_store64_other_entry:
  assumes p: "page_aligned p" and ij: "i < 512" "j < 512" "i \<noteq> j"
  shows "load64 (store64 m (p + word_of_nat (8 * i)) v) (p + word_of_nat (8 * j))
       = load64 m (p + word_of_nat (8 * j))"
proof (rule load64_cong)
  fix b :: nat assume b: "b < 8"
  let ?x = "p + word_of_nat (8 * j) + word_of_nat b"
  have x: "?x = p + word_of_nat (8 * j + b)" by simp
  have "unat (?x - (p + word_of_nat (8 * i))) \<ge> 8"
  proof (rule ccontr)
    let ?d = "unat (?x - (p + word_of_nat (8 * i)))"
    assume "\<not> 8 \<le> ?d"
    then have d: "?d < 8" by simp
    have "?x = p + word_of_nat (8 * i) + word_of_nat ?d"
      by simp
    then have "p + word_of_nat (8 * j + b) = p + word_of_nat (8 * i + ?d)"
      using x by (simp add: add.assoc)
    then have "unat (p + word_of_nat (8 * j + b)) = unat (p + word_of_nat (8 * i + ?d))"
      by (rule arg_cong)
    then have "8 * j + b = 8 * i + ?d"
      using p ij b d unat_aligned_add [of p "8 * j + b"] unat_aligned_add [of p "8 * i + ?d"]
      by simp
    with ij b d show False by presburger
  qed
  then show "store64 m (p + word_of_nat (8 * i)) v ?x = m ?x"
    by (simp add: store64_def store_bytes_other)
qed

text \<open>The bytes of a run of whole pages are the bytes of its frames.\<close>

lemma in_page_run_iff:
  assumes "page_aligned p" and "unat p + n * 4096 \<le> 2 ^ 64"
  shows "unat (x - p) < n * 4096 \<longleftrightarrow> frame_of x \<in> {frame_of p..<frame_of p + n}"
proof -
  obtain q where q: "unat p = 4096 * q" using assms(1) by (auto simp: page_aligned_iff)
  show ?thesis
  proof (cases "p \<le> x")
    case True
    then have "unat (x - p) = unat x - unat p" and "unat p \<le> unat x"
      by (simp_all add: unat_sub word_le_nat_alt)
    moreover have "unat x div 4096 < q + n \<longleftrightarrow> unat x < (q + n) * 4096"
      by (simp add: div_less_iff_less_mult)
    moreover have "q \<le> unat x div 4096"
      using calculation(2) q by (simp add: less_eq_div_iff_mult_less_eq mult.commute)
    ultimately show ?thesis using q by (auto simp: frame_of_def algebra_simps)
  next
    case False
    then have lt: "unat x < unat p" by (simp add: word_le_nat_alt)
    then have "unat (x - p) = 2 ^ 64 + unat x - unat p"
      using word_less_nat_alt [of x p] by (simp add: unat_sub_if_size word_size)
    with assms(2) have "\<not> unat (x - p) < n * 4096" by linarith
    moreover have "frame_of x < frame_of p"
      using lt q by (simp add: frame_of_def div_less_iff_less_mult mult.commute)
    ultimately show ?thesis by simp
  qed
qed

lemma load64_zero: "(\<And>i. i < 8 \<Longrightarrow> m (a + word_of_nat i) = 0) \<Longrightarrow> load64 m a = 0"
proof -
  assume "\<And>i. i < 8 \<Longrightarrow> m (a + word_of_nat i) = 0"
  then have "load_bytes m a 8 = replicate 8 0"
    by (auto intro!: nth_equalityI)
  then show "load64 m a = 0" by (simp add: load64_def numeral_eq_Suc)
qed

text \<open>Eight-byte cells at addresses that do not overlap.\<close>

lemma unat_diff_below:
  assumes "unat z < unat x"
  shows "unat (z - x :: usize) = 2 ^ 64 + unat z - unat x"
  using assms word_less_nat_alt [of z x] by (simp add: unat_sub_if_size word_size)

lemma store64_outside:
  assumes "unat z < unat x \<or> unat x + 8 \<le> unat z" and "unat x + 8 \<le> 2 ^ 64"
  shows "store64 m x v z = m z"
proof -
  have "8 \<le> unat (z - x)"
  proof (cases "unat z < unat x")
    case True
    with assms(2) show ?thesis by (simp add: unat_diff_below)
  next
    case False
    with assms(1) have "x \<le> z" and "unat x + 8 \<le> unat z" by (auto simp: word_le_nat_alt)
    then show ?thesis by (simp add: unat_sub)
  qed
  then show ?thesis by (simp add: store64_def store_bytes_other)
qed

lemma load64_store64_sep:
  assumes "unat x + 8 \<le> unat y \<or> unat y + 8 \<le> unat x"
    and "unat x + 8 \<le> 2 ^ 64" and "unat y + 8 \<le> 2 ^ 64"
  shows "load64 (store64 m x v) y = load64 m y"
proof (rule load64_cong)
  fix i :: nat assume i: "i < 8"
  then have "unat (y + word_of_nat i) = unat y + i"
    using assms(3) by (intro unat_add_no_wrap) simp
  with i assms show "store64 m x v (y + word_of_nat i) = m (y + word_of_nat i)"
    by (intro store64_outside) auto
qed

end
