(* ===== verification/Page_Alloc.thy ===== *)
theory Page_Alloc
  imports Phys_Mem
begin

unbundle bit_operations_syntax

text \<open>
  \<open>kernel/mem/page.rs\<close>: the page-frame allocator, a bitmap with one bit per 4 KiB frame of
  the 128 MiB of RAM (bit set: frame in use). The abstract view of a state is the set
  \<open>free_set\<close> of its free frames; \<open>alloc_wf\<close> ties the counters to it. The lemmas show that
  \<open>alloc\<close> is a first-fit search for a run of free frames, that it and \<open>free\<close> move
  exactly those frames between the two sides, and that a freed allocation restores the state.
  Frame numbers and counts are kept as \<open>nat\<close> (they index a bitmap of 32768 bits); addresses
  are machine words.
\<close>

section \<open>The allocator\<close>

definition MAX_FRAMES :: nat where "MAX_FRAMES = unat (RAM_SIZE div PAGE_SIZE)"
definition BITMAP_WORDS :: nat where "BITMAP_WORDS = MAX_FRAMES div 64"

record PageAllocator =
  bitmap :: "u64 list"
  first_frame :: nat
  free_frames :: nat

definition ALLOCATOR :: PageAllocator where
  "ALLOCATOR = \<lparr>bitmap = replicate BITMAP_WORDS (- 1), first_frame = 0, free_frames = 0\<rparr>"

definition frame_to_addr :: "nat \<Rightarrow> usize" where
  "frame_to_addr frame = RAM_START + word_of_nat frame * PAGE_SIZE"

definition addr_to_frame :: "usize \<Rightarrow> nat" where
  "addr_to_frame addr = unat ((addr - RAM_START) div PAGE_SIZE)"

definition is_used :: "PageAllocator \<Rightarrow> nat \<Rightarrow> bool" where
  "is_used a frame \<longleftrightarrow> (bitmap a ! (frame div 64)) AND push_bit (frame mod 64) 1 \<noteq> 0"

definition set_used :: "nat \<Rightarrow> PageAllocator \<Rightarrow> PageAllocator" where
  "set_used frame a = a\<lparr>bitmap := (bitmap a)[frame div 64 :=
     (bitmap a ! (frame div 64)) OR push_bit (frame mod 64) 1]\<rparr>"

definition set_free :: "nat \<Rightarrow> PageAllocator \<Rightarrow> PageAllocator" where
  "set_free frame a = a\<lparr>bitmap := (bitmap a)[frame div 64 :=
     (bitmap a ! (frame div 64)) AND NOT (push_bit (frame mod 64) 1)]\<rparr>"

text \<open>
  The scan of \<open>alloc\<close>: the loop over the frames from \<open>first_frame\<close>, with the length of the
  current run of free frames and its start. The result is the start of the first run of \<open>n\<close>.
\<close>

fun alloc_scan :: "PageAllocator \<Rightarrow> nat \<Rightarrow> nat list \<Rightarrow> nat \<Rightarrow> nat \<Rightarrow> nat option" where
  "alloc_scan a n [] run start = None"
| "alloc_scan a n (frame # fs) run start =
     (if is_used a frame then alloc_scan a n fs 0 (frame + 1)
      else if run + 1 = n then Some start
      else alloc_scan a n fs (run + 1) start)"

definition PageAllocator_alloc :: "nat \<Rightarrow> PageAllocator \<Rightarrow> usize option \<times> PageAllocator" where
  "PageAllocator_alloc n a =
     (if n = 0 \<or> free_frames a < n then (None, a)
      else (case alloc_scan a n [first_frame a..<MAX_FRAMES] 0 (first_frame a) of
        None \<Rightarrow> (None, a)
      | Some start \<Rightarrow>
          (Some (frame_to_addr start),
           (fold set_used [start..<start + n] a)\<lparr>free_frames := free_frames a - n\<rparr>)))"

text \<open>
  The loop of \<open>free\<close> indexes the bitmap with frames computed from a caller's address; an
  index past the array is a panic. The \<open>debug_assert!\<close>s are not part of the release build.
\<close>

fun free_loop :: "nat list \<Rightarrow> PageAllocator \<Rightarrow> PageAllocator run" where
  "free_loop [] a = Some a"
| "free_loop (frame # fs) a =
     (if frame div 64 < length (bitmap a) then free_loop fs (set_free frame a) else None)"

definition PageAllocator_free :: "usize \<Rightarrow> nat \<Rightarrow> PageAllocator \<Rightarrow> PageAllocator run" where
  "PageAllocator_free addr n a =
     (let start = addr_to_frame addr in
      do { a' \<leftarrow> free_loop [start..<start + n] a;
           Some (a'\<lparr>free_frames := free_frames a' + n\<rparr>) })"

definition page_init :: "usize \<Rightarrow> PageAllocator \<Rightarrow> PageAllocator" where
  "page_init hs a =
     (let first = addr_to_frame (page_up hs);
          a1 = a\<lparr>first_frame := first\<rparr>;
          a2 = fold set_free [first..<MAX_FRAMES] a1
      in a2\<lparr>free_frames := unat (word_of_nat MAX_FRAMES - word_of_nat first :: usize)\<rparr>)"

section \<open>Pages of physical memory\<close>

text \<open>
  The memory the kernel manages: the byte store and the frame allocator's state. The
  operations work on every extension of the record, so that the later components add their
  own state to it.
\<close>

record machine =
  phys :: pmem
  frames :: PageAllocator

definition page_alloc :: "nat \<Rightarrow> 'a machine_scheme \<Rightarrow> usize option \<times> 'a machine_scheme" where
  "page_alloc n s =
     (case PageAllocator_alloc n (frames s) of
        (None, a) \<Rightarrow> (None, s\<lparr>frames := a\<rparr>)
      | (Some addr, a) \<Rightarrow>
          (Some addr,
           s\<lparr>frames := a, phys := store_bytes (phys s) addr (replicate (n * unat PAGE_SIZE) 0)\<rparr>))"

definition page_free :: "usize \<Rightarrow> nat \<Rightarrow> 'a machine_scheme \<Rightarrow> 'a machine_scheme run" where
  "page_free ptr n s =
     do { a \<leftarrow> PageAllocator_free ptr n (frames s); Some (s\<lparr>frames := a\<rparr>) }"

section \<open>The abstract view\<close>

definition free_set :: "PageAllocator \<Rightarrow> nat set" where
  "free_set a = {f. f < MAX_FRAMES \<and> \<not> is_used a f}"

definition run_at :: "PageAllocator \<Rightarrow> nat \<Rightarrow> nat \<Rightarrow> bool" where
  "run_at a n s \<longleftrightarrow> {s..<s + n} \<subseteq> free_set a"

definition alloc_wf :: "PageAllocator \<Rightarrow> bool" where
  "alloc_wf a \<longleftrightarrow> length (bitmap a) = BITMAP_WORDS \<and> first_frame a \<le> MAX_FRAMES \<and>
     free_set a \<subseteq> {first_frame a..} \<and> free_frames a = card (free_set a)"

lemma is_used_bit: "is_used a f \<longleftrightarrow> bit (bitmap a ! (f div 64)) (f mod 64)"
  by (simp add: is_used_def bit_iff_and_push_bit_not_eq_0)

lemma div_mod_64_eq_iff: "(f :: nat) div 64 = g div 64 \<and> f mod 64 = g mod 64 \<longleftrightarrow> f = g"
  by (metis div_mult_mod_eq)

lemma is_used_set_used [simp]:
  assumes "f div 64 < length (bitmap a)"
  shows "is_used (set_used f a) g \<longleftrightarrow> g = f \<or> is_used a g"
  using assms div_mod_64_eq_iff [of f g]
  by (cases "f div 64 = g div 64") (auto simp: is_used_bit set_used_def bit_simps)

lemma is_used_set_free [simp]:
  assumes "f div 64 < length (bitmap a)"
  shows "is_used (set_free f a) g \<longleftrightarrow> g \<noteq> f \<and> is_used a g"
  using assms div_mod_64_eq_iff [of f g]
  by (cases "f div 64 = g div 64") (auto simp: is_used_bit set_free_def bit_simps)

lemma set_used_simps [simp]:
  "length (bitmap (set_used f a)) = length (bitmap a)"
  "first_frame (set_used f a) = first_frame a"
  "free_frames (set_used f a) = free_frames a"
  by (simp_all add: set_used_def)

lemma set_free_simps [simp]:
  "length (bitmap (set_free f a)) = length (bitmap a)"
  "first_frame (set_free f a) = first_frame a"
  "free_frames (set_free f a) = free_frames a"
  by (simp_all add: set_free_def)

lemma fold_set_used [simp]:
  "length (bitmap (fold set_used fs a)) = length (bitmap a)"
  "first_frame (fold set_used fs a) = first_frame a"
  "free_frames (fold set_used fs a) = free_frames a"
  by (induction fs arbitrary: a) simp_all

lemma fold_set_free [simp]:
  "length (bitmap (fold set_free fs a)) = length (bitmap a)"
  "first_frame (fold set_free fs a) = first_frame a"
  "free_frames (fold set_free fs a) = free_frames a"
  by (induction fs arbitrary: a) simp_all

lemma is_used_fold_set_used:
  "\<forall>f \<in> set fs. f div 64 < length (bitmap a) \<Longrightarrow>
   is_used (fold set_used fs a) g \<longleftrightarrow> g \<in> set fs \<or> is_used a g"
  by (induction fs arbitrary: a) auto

lemma is_used_fold_set_free:
  "\<forall>f \<in> set fs. f div 64 < length (bitmap a) \<Longrightarrow>
   is_used (fold set_free fs a) g \<longleftrightarrow> g \<notin> set fs \<and> is_used a g"
  by (induction fs arbitrary: a) auto

lemma is_used_update [simp]:
  "is_used (a\<lparr>free_frames := k\<rparr>) = is_used a" "is_used (a\<lparr>first_frame := k\<rparr>) = is_used a"
  by (simp_all add: is_used_def fun_eq_iff)

lemma free_set_update [simp]: "free_set (a\<lparr>free_frames := k\<rparr>) = free_set a"
  by (simp add: free_set_def)

lemma finite_free_set [simp]: "finite (free_set a)"
  by (rule finite_subset [of _ "{..<MAX_FRAMES}"]) (auto simp: free_set_def)

lemma free_loop_fold:
  "\<forall>f \<in> set fs. f div 64 < length (bitmap a) \<Longrightarrow> free_loop fs a = Some (fold set_free fs a)"
  by (induction fs arbitrary: a) auto

lemma MAX_FRAMES_eq: "MAX_FRAMES = 32768"
  by (simp add: MAX_FRAMES_def)

lemma BITMAP_WORDS_eq: "BITMAP_WORDS = 512"
  by (simp add: BITMAP_WORDS_def MAX_FRAMES_eq)

lemma bitmap_index: "length (bitmap a) = BITMAP_WORDS \<Longrightarrow> f < MAX_FRAMES \<Longrightarrow> f div 64 < length (bitmap a)"
  by (simp add: BITMAP_WORDS_eq MAX_FRAMES_eq)

lemma bitmap_indices:
  assumes "length (bitmap a) = BITMAP_WORDS" and "set fs \<subseteq> {..<MAX_FRAMES}"
  shows "\<forall>f \<in> set fs. f div 64 < length (bitmap a)"
  using assms by (metis bitmap_index lessThan_iff subsetD)

section \<open>The scan is first fit\<close>

lemma run_at_blocked:
  assumes "f \<notin> free_set a" and "t \<le> f" and "f < t + n"
  shows "\<not> run_at a n t"
  using assms by (auto simp: run_at_def)

definition first_fit :: "PageAllocator \<Rightarrow> nat \<Rightarrow> nat \<Rightarrow> nat \<Rightarrow> nat option \<Rightarrow> bool" where
  "first_fit a n lo m r \<longleftrightarrow> (case r of
     None \<Rightarrow> \<forall>t \<ge> lo. t + n \<le> m \<longrightarrow> \<not> run_at a n t
   | Some s \<Rightarrow> lo \<le> s \<and> s + n \<le> m \<and> run_at a n s \<and> (\<forall>t. lo \<le> t \<and> t < s \<longrightarrow> \<not> run_at a n t))"

lemma alloc_scan_first_fit:
  assumes "run < n" "start + run = k" "lo \<le> start" "k \<le> m" "m \<le> MAX_FRAMES"
    and "{start..<k} \<subseteq> free_set a" and "\<forall>t. lo \<le> t \<and> t < start \<longrightarrow> \<not> run_at a n t"
  shows "first_fit a n lo m (alloc_scan a n [k..<m] run start)"
  using assms
proof (induction "m - k" arbitrary: k run start)
  case 0
  then have m: "m = k" by simp
  have "\<not> run_at a n t" if "lo \<le> t" "t + n \<le> m" for t
    using that 0 m by (cases "t < start") auto
  with m show ?case by (simp add: first_fit_def)
next
  case (Suc d)
  then have k: "k < m" by simp
  then have upt: "[k..<m] = k # [Suc k..<m]" by (rule upt_conv_Cons)
  show ?case
  proof (cases "is_used a k")
    case True
    then have "k \<notin> free_set a" by (simp add: free_set_def)
    then have "\<not> run_at a n t" if "start \<le> t" "t \<le> k" for t
      using that Suc.prems by (intro run_at_blocked [of k]) auto
    then have "\<forall>t. lo \<le> t \<and> t < Suc k \<longrightarrow> \<not> run_at a n t"
      using Suc.prems(7) by (metis less_Suc_eq_le linorder_not_le)
    with Suc k True show ?thesis
      by (simp add: upt Suc.hyps(1))
  next
    case free: False
    with k Suc.prems have kf: "k \<in> free_set a" by (simp add: free_set_def)
    have ext: "{start..<Suc k} \<subseteq> free_set a"
      using kf Suc.prems(6) by (auto simp: less_Suc_eq)
    show ?thesis
    proof (cases "run + 1 = n")
      case True
      then have "{start..<start + n} \<subseteq> free_set a" using ext Suc.prems(2) by auto
      with True free Suc.prems k show ?thesis
        by (auto simp: upt first_fit_def run_at_def)
    next
      case False
      with free Suc k ext show ?thesis by (simp add: upt Suc.hyps(1))
    qed
  qed
qed

lemma alloc_scan_from_first:
  assumes "0 < n" and "first_frame a \<le> MAX_FRAMES"
  shows "first_fit a n (first_frame a) MAX_FRAMES
           (alloc_scan a n [first_frame a..<MAX_FRAMES] 0 (first_frame a))"
  using assms by (intro alloc_scan_first_fit) auto

section \<open>Addresses of frames\<close>

lemma frame_to_addr_aligned: "page_aligned (frame_to_addr f)"
proof -
  have "frame_to_addr f = push_bit 12 (word_of_nat f + 0x80000)"
    by (simp add: frame_to_addr_def push_bit_eq_mult algebra_simps)
  then have "frame_to_addr f AND 4095 = 0"
    by (simp add: page_offset_eq_take_bit take_bit_push_bit)
  then show ?thesis by (simp add: page_aligned_def)
qed

lemma unat_frame_to_addr:
  assumes "f \<le> MAX_FRAMES"
  shows "unat (frame_to_addr f) = 0x80000000 + f * 4096"
proof -
  have "frame_to_addr f = 0x80000000 + word_of_nat (f * 4096)"
    by (simp add: frame_to_addr_def)
  moreover have "unat (0x80000000 + word_of_nat (f * 4096) :: usize) = 0x80000000 + f * 4096"
    using assms unat_add_no_wrap [of "0x80000000" "f * 4096"] by (simp add: MAX_FRAMES_eq)
  ultimately show ?thesis by simp
qed

lemma addr_to_frame_to_addr:
  assumes "f \<le> MAX_FRAMES" and "k < 4096"
  shows "addr_to_frame (frame_to_addr f + word_of_nat k) = f"
proof -
  have "frame_to_addr f + word_of_nat k - RAM_START = word_of_nat (f * 4096 + k)"
    by (simp add: frame_to_addr_def)
  moreover have "unat (word_of_nat (f * 4096 + k) :: usize) = f * 4096 + k"
    using assms by (intro unat_word_of_nat_less) (simp add: MAX_FRAMES_eq)
  ultimately have "unat (frame_to_addr f + word_of_nat k - RAM_START) = f * 4096 + k"
    by metis
  then show ?thesis
    using assms(2) by (simp add: addr_to_frame_def unat_div)
qed

lemma addr_to_frame_to_addr0 [simp]: "f \<le> MAX_FRAMES \<Longrightarrow> addr_to_frame (frame_to_addr f) = f"
  using addr_to_frame_to_addr [of f 0] by simp

lemma frame_to_addr_inject:
  "f \<le> MAX_FRAMES \<Longrightarrow> g \<le> MAX_FRAMES \<Longrightarrow> frame_to_addr f = frame_to_addr g \<longleftrightarrow> f = g"
  by (metis addr_to_frame_to_addr0)

section \<open>What alloc and free do to the set of free frames\<close>

lemma free_set_fold_set_used:
  assumes "length (bitmap a) = BITMAP_WORDS" and "set fs \<subseteq> {..<MAX_FRAMES}"
  shows "free_set (fold set_used fs a) = free_set a - set fs"
  using assms(2) is_used_fold_set_used [OF bitmap_indices [OF assms]]
  by (auto simp: free_set_def)

lemma free_set_fold_set_free:
  assumes "length (bitmap a) = BITMAP_WORDS" and "set fs \<subseteq> {..<MAX_FRAMES}"
  shows "free_set (fold set_free fs a) = free_set a \<union> set fs"
  using assms(2) is_used_fold_set_free [OF bitmap_indices [OF assms]]
  by (auto simp: free_set_def)

lemma PageAllocator_alloc_Some:
  assumes "alloc_wf a" and "PageAllocator_alloc n a = (Some addr, a')"
  obtains s where "addr = frame_to_addr s" and "0 < n" and "s + n \<le> MAX_FRAMES"
    and "first_frame a \<le> s" and "run_at a n s"
    and "\<forall>t. first_frame a \<le> t \<and> t < s \<longrightarrow> \<not> run_at a n t"
    and "a' = (fold set_used [s..<s + n] a)\<lparr>free_frames := free_frames a - n\<rparr>"
proof -
  let ?scan = "alloc_scan a n [first_frame a..<MAX_FRAMES] 0 (first_frame a)"
  from assms(2) obtain s where n: "0 < n" and s: "?scan = Some s" and "addr = frame_to_addr s"
    and "a' = (fold set_used [s..<s + n] a)\<lparr>free_frames := free_frames a - n\<rparr>"
    by (auto simp: PageAllocator_alloc_def split: if_splits option.splits)
  moreover have "first_fit a n (first_frame a) MAX_FRAMES (Some s)"
    using alloc_scan_from_first [of n a] assms(1) n by (simp add: alloc_wf_def s)
  ultimately show thesis
    by (intro that [of s]) (auto simp: first_fit_def)
qed

lemma run_at_bounds:
  assumes "alloc_wf a" and "run_at a n t" and "0 < n"
  shows "first_frame a \<le> t" and "t + n \<le> MAX_FRAMES" and "n \<le> free_frames a"
proof -
  have sub: "{t..<t + n} \<subseteq> free_set a" using assms(2) by (simp add: run_at_def)
  then have "t \<in> free_set a" and "t + n - 1 \<in> free_set a" using assms(3) by auto
  with assms show "first_frame a \<le> t" and "t + n \<le> MAX_FRAMES"
    by (auto simp: alloc_wf_def free_set_def)
  have "card {t..<t + n} \<le> card (free_set a)" using sub by (rule card_mono [OF finite_free_set])
  with assms(1) show "n \<le> free_frames a" by (simp add: alloc_wf_def)
qed

lemma PageAllocator_alloc_None:
  assumes "alloc_wf a" and "PageAllocator_alloc n a = (None, a')"
  shows "a' = a" and "n = 0 \<or> (\<forall>t. \<not> run_at a n t)"
proof -
  show "a' = a"
    using assms(2) by (auto simp: PageAllocator_alloc_def split: if_splits option.splits)
  show "n = 0 \<or> (\<forall>t. \<not> run_at a n t)"
  proof (cases "n = 0 \<or> free_frames a < n")
    case True
    then show ?thesis using run_at_bounds(3) [OF assms(1)] by fastforce
  next
    case False
    with assms(2) have "alloc_scan a n [first_frame a..<MAX_FRAMES] 0 (first_frame a) = None"
      by (auto simp: PageAllocator_alloc_def split: option.splits)
    with False assms(1) have "first_fit a n (first_frame a) MAX_FRAMES None"
      using alloc_scan_from_first [of n a] by (simp add: alloc_wf_def)
    then have "\<not> run_at a n t" for t
      using False run_at_bounds [OF assms(1), of n t] by (auto simp: first_fit_def)
    then show ?thesis by simp
  qed
qed

lemma alloc_wf_after_alloc:
  assumes "alloc_wf a" and "run_at a n s" and "0 < n"
    and "a' = (fold set_used [s..<s + n] a)\<lparr>free_frames := free_frames a - n\<rparr>"
  shows "alloc_wf a'" and "free_set a' = free_set a - {s..<s + n}"
proof -
  have sub: "{s..<s + n} \<subseteq> free_set a" using assms(2) by (simp add: run_at_def)
  have "set [s..<s + n] \<subseteq> {..<MAX_FRAMES}"
    using run_at_bounds [OF assms(1-3)] by auto
  with assms(1,4) show fs: "free_set a' = free_set a - {s..<s + n}"
    by (simp add: alloc_wf_def free_set_fold_set_used)
  have "card (free_set a - {s..<s + n}) = card (free_set a) - n"
    using sub by (simp add: card_Diff_subset)
  with assms(1,4) fs show "alloc_wf a'" by (auto simp: alloc_wf_def)
qed

text \<open>C10: the allocator refines a first-fit search over the set of free frames, on every branch.\<close>

theorem page_allocator_alloc_refines:
  assumes "alloc_wf a" and "PageAllocator_alloc n a = (r, a')"
  shows "alloc_wf a' \<and> (case r of
      None \<Rightarrow> a' = a \<and> (n = 0 \<or> (\<forall>t. \<not> run_at a n t))
    | Some addr \<Rightarrow> \<exists>s. addr = frame_to_addr s \<and> run_at a n s \<and> (\<forall>t < s. \<not> run_at a n t) \<and>
        free_set a' = free_set a - {s..<s + n})"
proof (cases r)
  case None
  then show ?thesis
    using assms PageAllocator_alloc_None [OF assms(1), of n a'] by auto
next
  case (Some addr)
  with assms obtain s where s: "addr = frame_to_addr s" "0 < n" "run_at a n s"
    and least: "\<forall>t. first_frame a \<le> t \<and> t < s \<longrightarrow> \<not> run_at a n t"
    and a': "a' = (fold set_used [s..<s + n] a)\<lparr>free_frames := free_frames a - n\<rparr>"
    by (auto elim: PageAllocator_alloc_Some)
  have "\<not> run_at a n t" if "t < s" for t
    using least that run_at_bounds(1) [OF assms(1), of n t] s(2) by auto
  with Some s alloc_wf_after_alloc [OF assms(1) s(3,2) a'] show ?thesis by auto
qed

section \<open>Freeing\<close>

lemma set_free_set_used_same:
  assumes "\<not> is_used a f" and "f div 64 < length (bitmap a)"
  shows "set_free f (set_used f a) = a"
proof -
  have "(bitmap a ! (f div 64) OR push_bit (f mod 64) 1) AND NOT (push_bit (f mod 64) 1)
      = bitmap a ! (f div 64)"
    using assms(1) by (intro bit_word_eqI) (auto simp: is_used_bit bit_simps)
  then show ?thesis
    using assms(2) by (simp add: set_free_def set_used_def)
qed

lemma set_free_set_used_commute:
  assumes "f \<noteq> g" and "f div 64 < length (bitmap a)" and "g div 64 < length (bitmap a)"
  shows "set_free f (set_used g a) = set_used g (set_free f a)"
proof (cases "f div 64 = g div 64")
  case True
  with assms(1) have "f mod 64 \<noteq> g mod 64" using div_mod_64_eq_iff [of f g] by auto
  then have "(w OR push_bit (g mod 64) 1) AND NOT (push_bit (f mod 64) 1)
      = (w AND NOT (push_bit (f mod 64) 1)) OR push_bit (g mod 64) 1" for w :: u64
    by (intro bit_word_eqI) (auto simp: bit_simps)
  with True assms show ?thesis by (simp add: set_free_def set_used_def)
next
  case False
  with assms show ?thesis by (simp add: set_free_def set_used_def list_update_swap)
qed

lemma set_free_fold_set_used:
  assumes "f \<notin> set gs" and "\<forall>g \<in> insert f (set gs). g div 64 < length (bitmap a)"
  shows "set_free f (fold set_used gs a) = fold set_used gs (set_free f a)"
  using assms by (induction gs arbitrary: a) (auto simp: set_free_set_used_commute)

lemma fold_set_free_set_used:
  assumes "distinct fs" and "\<forall>f \<in> set fs. \<not> is_used a f \<and> f div 64 < length (bitmap a)"
  shows "fold set_free fs (fold set_used fs a) = a"
  using assms
  by (induction fs arbitrary: a) (auto simp: set_free_fold_set_used set_free_set_used_same)

lemma PageAllocator_free_eq:
  assumes "length (bitmap a) = BITMAP_WORDS" and "s + n \<le> MAX_FRAMES"
  shows "PageAllocator_free (frame_to_addr s) n a =
    Some ((fold set_free [s..<s + n] a)\<lparr>free_frames := free_frames a + n\<rparr>)"
proof -
  have "\<forall>f \<in> set [s..<s + n]. f div 64 < length (bitmap a)"
    using assms by (intro bitmap_indices) auto
  then show ?thesis
    using assms(2) by (simp add: PageAllocator_free_def free_loop_fold)
qed

lemma set_free_update: "set_free f (a\<lparr>free_frames := k\<rparr>) = (set_free f a)\<lparr>free_frames := k\<rparr>"
  by (cases a) (simp add: set_free_def)

lemma fold_set_free_update:
  "fold set_free fs (a\<lparr>free_frames := k\<rparr>) = (fold set_free fs a)\<lparr>free_frames := k\<rparr>"
  by (induction fs arbitrary: a) (simp_all add: set_free_update)

text \<open>C11: freeing an allocation restores the allocator's state exactly.\<close>

theorem page_allocator_alloc_free_roundtrip:
  assumes "alloc_wf a" and "PageAllocator_alloc n a = (Some addr, a')"
  shows "PageAllocator_free addr n a' = Some a"
proof -
  from assms obtain s where s: "addr = frame_to_addr s" "0 < n" "run_at a n s"
    "s + n \<le> MAX_FRAMES"
    and a': "a' = (fold set_used [s..<s + n] a)\<lparr>free_frames := free_frames a - n\<rparr>"
    by (auto elim: PageAllocator_alloc_Some)
  have len: "length (bitmap a) = BITMAP_WORDS" using assms(1) by (simp add: alloc_wf_def)
  then have idx: "\<forall>f \<in> set [s..<s + n]. f div 64 < length (bitmap a)"
    using s(4) by (intro bitmap_indices) auto
  have "\<forall>f \<in> set [s..<s + n]. \<not> is_used a f"
    using s(3) by (auto simp: run_at_def free_set_def)
  with idx have "fold set_free [s..<s + n] (fold set_used [s..<s + n] a) = a"
    by (intro fold_set_free_set_used) auto
  moreover have "n \<le> free_frames a" using run_at_bounds(3) [OF assms(1) s(3,2)] .
  ultimately show ?thesis
    using len s(1,4) by (simp add: PageAllocator_free_eq a' fold_set_free_update)
qed

lemma PageAllocator_free_spec:
  assumes "alloc_wf a" and "first_frame a \<le> s" and "s + n \<le> MAX_FRAMES"
    and "\<forall>f \<in> {s..<s + n}. is_used a f"
  shows "\<exists>a'. PageAllocator_free (frame_to_addr s) n a = Some a' \<and> alloc_wf a' \<and>
    free_set a' = free_set a \<union> {s..<s + n}"
proof -
  let ?a' = "(fold set_free [s..<s + n] a)\<lparr>free_frames := free_frames a + n\<rparr>"
  have len: "length (bitmap a) = BITMAP_WORDS" using assms(1) by (simp add: alloc_wf_def)
  have fs: "free_set ?a' = free_set a \<union> {s..<s + n}"
    using len assms(3) by (simp add: free_set_fold_set_free subset_iff)
  have "free_set a \<inter> {s..<s + n} = {}" using assms(4) by (auto simp: free_set_def)
  then have "card (free_set a \<union> {s..<s + n}) = card (free_set a) + n"
    by (simp add: card_Un_disjoint)
  with assms(1,2) fs have "alloc_wf ?a'" by (auto simp: alloc_wf_def)
  with fs len assms(3) show ?thesis by (simp add: PageAllocator_free_eq)
qed

section \<open>Initialisation\<close>

lemma is_used_ALLOCATOR: "f < MAX_FRAMES \<Longrightarrow> is_used ALLOCATOR f"
  by (simp add: is_used_bit ALLOCATOR_def BITMAP_WORDS_eq MAX_FRAMES_eq)

lemma free_set_ALLOCATOR [simp]: "free_set ALLOCATOR = {}"
  by (auto simp: free_set_def is_used_ALLOCATOR)

lemma page_up_frame_to_addr:
  assumes "0x80000000 \<le> unat hs" and "unat hs \<le> 0x88000000"
  shows "page_up hs = frame_to_addr (addr_to_frame (page_up hs))"
    and "addr_to_frame (page_up hs) = (unat hs - 0x80000000 + 4095) div 4096"
    and "addr_to_frame (page_up hs) \<le> MAX_FRAMES"
proof -
  let ?f = "(unat hs - 0x80000000 + 4095) div 4096"
  obtain u where u: "unat hs = u + 0x80000000" using assms(1) by (metis le_Suc_ex add.commute)
  have "(u + 0x80000000 + 4095) div 4096 = (u + 4095 + 0x80000 * 4096) div 4096" by simp
  also have "\<dots> = 0x80000 + (u + 4095) div 4096" by (subst div_mult_self1) simp_all
  finally have "unat (page_up hs) = 0x80000000 + ?f * 4096"
    using assms(2) by (simp add: unat_page_up u)
  moreover have f: "?f \<le> MAX_FRAMES" using assms by (simp add: MAX_FRAMES_eq)
  ultimately have "page_up hs = frame_to_addr ?f"
    by (simp only: word_unat_eq_iff unat_frame_to_addr)
  with f show "page_up hs = frame_to_addr (addr_to_frame (page_up hs))"
    and "addr_to_frame (page_up hs) = ?f" and "addr_to_frame (page_up hs) \<le> MAX_FRAMES"
    by simp_all
qed

lemmas addr_to_frame_page_up = page_up_frame_to_addr(2)

lemma page_init_props:
  assumes "RAM_START \<le> hs" and "hs \<le> RAM_END"
  shows "alloc_wf (page_init hs ALLOCATOR) \<and>
    free_set (page_init hs ALLOCATOR) = {addr_to_frame (page_up hs)..<MAX_FRAMES} \<and>
    first_frame (page_init hs ALLOCATOR) = addr_to_frame (page_up hs)"
proof -
  let ?f = "addr_to_frame (page_up hs)"
  let ?a = "ALLOCATOR\<lparr>first_frame := ?f\<rparr>"
  have hs: "0x80000000 \<le> unat hs" "unat hs \<le> 0x88000000"
    using assms by (simp_all add: word_le_nat_alt)
  then have f: "?f \<le> MAX_FRAMES" by (simp add: addr_to_frame_page_up MAX_FRAMES_eq)
  have len: "length (bitmap ?a) = BITMAP_WORDS" by (simp add: ALLOCATOR_def)
  have "free_set ?a = {}" using free_set_ALLOCATOR by (simp add: free_set_def)
  then have fs: "free_set (fold set_free [?f..<MAX_FRAMES] ?a) = {?f..<MAX_FRAMES}"
    using free_set_fold_set_free [OF len, of "[?f..<MAX_FRAMES]"] by (simp add: subset_iff)
  have "unat (word_of_nat MAX_FRAMES - word_of_nat ?f :: usize) = MAX_FRAMES - ?f"
  proof -
    have "(word_of_nat MAX_FRAMES - word_of_nat ?f :: usize) = word_of_nat (MAX_FRAMES - ?f)"
      using f by (simp add: of_nat_diff)
    moreover have "MAX_FRAMES - ?f < 2 ^ 64" by (simp add: MAX_FRAMES_eq)
    ultimately show ?thesis by (simp only: unat_word_of_nat_less)
  qed
  with fs f len show ?thesis
    by (auto simp: page_init_def Let_def alloc_wf_def)
qed

text \<open>
  \<open>init\<close> on the reserved allocator, with the heap start the linker placed inside RAM,
  establishes the invariant; the free frames are those whose page lies at or above the
  heap start, and their number is what \<open>free_frames\<close> reports.
\<close>

lemma page_init_establishes:
  assumes "RAM_START \<le> hs" and "hs \<le> RAM_END" and "f < MAX_FRAMES"
  shows "alloc_wf (page_init hs ALLOCATOR) \<and>
    (f \<in> free_set (page_init hs ALLOCATOR) \<longleftrightarrow> hs \<le> frame_to_addr f) \<and>
    free_frames (page_init hs ALLOCATOR) * 4096 = unat RAM_END - unat (page_up hs)"
proof -
  let ?f = "addr_to_frame (page_up hs)"
  have hs: "0x80000000 \<le> unat hs" "unat hs \<le> 0x88000000"
    using assms by (simp_all add: word_le_nat_alt)
  obtain u where u: "unat hs = u + 0x80000000" using hs(1) by (metis le_Suc_ex add.commute)
  have f: "?f = (u + 4095) div 4096" using hs by (simp add: addr_to_frame_page_up u)
  have "?f < Suc f \<longleftrightarrow> u \<le> f * 4096" unfolding f by (simp add: div_less_iff_less_mult) linarith
  moreover have "hs \<le> frame_to_addr f \<longleftrightarrow> u \<le> f * 4096"
    using assms(3) by (simp add: word_le_nat_alt unat_frame_to_addr u)
  moreover have "unat (page_up hs) = 0x80000000 + ?f * 4096"
    using page_up_frame_to_addr [OF hs] unat_frame_to_addr [of ?f] by metis
  then have "(MAX_FRAMES - ?f) * 4096 = unat RAM_END - unat (page_up hs)"
    by (simp add: MAX_FRAMES_eq)
  ultimately show ?thesis
    using page_init_props [OF assms(1,2)] assms(3) by (auto simp: alloc_wf_def)
qed

section \<open>A machine just after initialisation\<close>

text \<open>The allocator after \<open>init\<close> with the heap at 2 MiB into RAM: the state of the witnesses.\<close>

definition boot_frames :: PageAllocator where
  "boot_frames = page_init 0x80200000 ALLOCATOR"

lemma boot_frames_props:
  "alloc_wf boot_frames" "free_set boot_frames = {512..<MAX_FRAMES}" "first_frame boot_frames = 512"
proof -
  have "addr_to_frame (page_up 0x80200000) = 512"
    by (subst addr_to_frame_page_up) simp_all
  then show "alloc_wf boot_frames" "free_set boot_frames = {512..<MAX_FRAMES}"
      "first_frame boot_frames = 512"
    using page_init_props [of "0x80200000"] by (simp_all add: boot_frames_def)
qed

lemma boot_frames_alloc:
  assumes "0 < n" and "n \<le> 32256"
  shows "\<exists>a'. PageAllocator_alloc n boot_frames = (Some (frame_to_addr 512), a')"
proof -
  have run: "run_at boot_frames n 512"
    using assms by (auto simp: run_at_def boot_frames_props MAX_FRAMES_eq)
  obtain r a' where alloc: "PageAllocator_alloc n boot_frames = (r, a')" by fastforce
  with run assms obtain addr where r: "r = Some addr"
    using PageAllocator_alloc_None [OF boot_frames_props(1), of n a'] by (cases r) auto
  with alloc obtain s where s: "addr = frame_to_addr s" "512 \<le> s"
    and least: "\<forall>t. 512 \<le> t \<and> t < s \<longrightarrow> \<not> run_at boot_frames n t"
    using PageAllocator_alloc_Some [OF boot_frames_props(1)] boot_frames_props(3) by metis
  from least run s(2) have "s = 512" by (metis le_neq_implies_less order_refl)
  with alloc r s(1) show ?thesis by simp
qed

theorem page_allocator_alloc_refines_witness:
  "\<exists>a'. PageAllocator_alloc 3 boot_frames = (Some (frame_to_addr 512), a') \<and> alloc_wf a' \<and>
     (\<exists>s. frame_to_addr 512 = frame_to_addr s \<and> free_set a' = free_set boot_frames - {s..<s + 3})"
proof -
  obtain a' where "PageAllocator_alloc 3 boot_frames = (Some (frame_to_addr 512), a')"
    using boot_frames_alloc [of 3] by auto
  with page_allocator_alloc_refines [OF boot_frames_props(1) this] show ?thesis by auto
qed

theorem page_allocator_alloc_free_roundtrip_witness:
  "\<exists>a'. PageAllocator_alloc 3 boot_frames = (Some (frame_to_addr 512), a') \<and>
     PageAllocator_free (frame_to_addr 512) 3 a' = Some boot_frames"
  using boot_frames_alloc [of 3] page_allocator_alloc_free_roundtrip [OF boot_frames_props(1), of 3]
  by auto

section \<open>The interface of the frame allocator\<close>

text \<open>
  What the kernel's other memory components rely on: an allocation of \<open>n\<close> pages is
  page-aligned, comes out of the available frames, is zeroed, and changes nothing else; a
  failed one changes nothing.
\<close>

locale page_source =
  fixes palloc :: "nat \<Rightarrow> 's \<Rightarrow> usize option \<times> 's"
    and store :: "'s \<Rightarrow> pmem"
    and avail :: "'s \<Rightarrow> nat set"
    and ok :: "'s \<Rightarrow> bool"
  assumes palloc_ok: "ok s \<Longrightarrow> palloc n s = (r, s') \<Longrightarrow> ok s'"
    and palloc_None: "ok s \<Longrightarrow> palloc n s = (None, s') \<Longrightarrow> s' = s"
    and palloc_aligned: "ok s \<Longrightarrow> palloc n s = (Some p, s') \<Longrightarrow> page_aligned p"
    and palloc_pos: "ok s \<Longrightarrow> palloc n s = (Some p, s') \<Longrightarrow> 0 < n"
    and palloc_fresh: "ok s \<Longrightarrow> palloc n s = (Some p, s') \<Longrightarrow> {frame_of p..<frame_of p + n} \<subseteq> avail s"
    and palloc_avail: "ok s \<Longrightarrow> palloc n s = (Some p, s') \<Longrightarrow>
      avail s' = avail s - {frame_of p..<frame_of p + n}"
    and palloc_store: "ok s \<Longrightarrow> palloc n s = (Some p, s') \<Longrightarrow>
      store s' x = (if frame_of x \<in> {frame_of p..<frame_of p + n} then 0 else store s x)"
begin

lemma palloc_mono: "ok s \<Longrightarrow> palloc n s = (r, s') \<Longrightarrow> avail s' \<subseteq> avail s"
  by (cases r) (auto simp: palloc_avail dest: palloc_None)

lemma palloc_keeps:
  assumes "ok s" and "palloc n s = (r, s')" and "frame_of x \<notin> avail s"
  shows "store s' x = store s x"
proof (cases r)
  case None
  with assms show ?thesis by (auto dest: palloc_None)
next
  case (Some p)
  with assms have "frame_of x \<notin> {frame_of p..<frame_of p + n}"
    using palloc_fresh by blast
  with Some assms show ?thesis by (auto simp: palloc_store)
qed

lemma palloc_disjoint:
  assumes "ok s" and "palloc n s = (Some p, s')" and "palloc k s' = (Some q, s'')"
  shows "{frame_of p..<frame_of p + n} \<inter> {frame_of q..<frame_of q + k} = {}"
  using palloc_avail [OF assms(1,2)] palloc_fresh [OF palloc_ok [OF assms(1,2)] assms(3)] by blast

lemma fresh_table_zero:
  assumes "ok s" and "palloc 1 s = (Some p, s')" and "i < 512"
  shows "load64 (store s') (p + word_of_nat (8 * i)) = 0"
proof (rule load64_zero)
  fix j :: nat assume "j < 8"
  with assms have "frame_of (p + word_of_nat (8 * i + j)) = frame_of p"
    by (intro frame_of_add palloc_aligned [OF assms(1,2)]) simp
  then show "store s' (p + word_of_nat (8 * i) + word_of_nat j) = 0"
    using palloc_store [OF assms(1,2)] by (simp add: add.assoc)
qed

lemma old_table_kept:
  assumes "ok s" and "palloc n s = (r, s')" and "page_aligned q" and "frame_of q \<notin> avail s" and "i < 512"
  shows "load64 (store s') (q + word_of_nat (8 * i)) = load64 (store s) (q + word_of_nat (8 * i))"
proof (rule load64_cong)
  fix j :: nat assume "j < 8"
  with assms have "frame_of (q + word_of_nat (8 * i + j)) = frame_of q"
    by (intro frame_of_add) auto
  with assms show "store s' (q + word_of_nat (8 * i) + word_of_nat j)
      = store s (q + word_of_nat (8 * i) + word_of_nat j)"
    by (intro palloc_keeps) (simp_all add: add.assoc)
qed

end

definition machine_ok :: "'a machine_scheme \<Rightarrow> bool" where
  "machine_ok s \<longleftrightarrow> alloc_wf (frames s)"

text \<open>The absolute numbers (address divided by 4096) of the free frames.\<close>

definition free_pages :: "'a machine_scheme \<Rightarrow> nat set" where
  "free_pages s = (\<lambda>f. 0x80000 + f) ` free_set (frames s)"

lemma frame_of_frame_to_addr: "f \<le> MAX_FRAMES \<Longrightarrow> frame_of (frame_to_addr f) = 0x80000 + f"
  by (simp add: frame_of_def unat_frame_to_addr)

lemma page_alloc_None:
  assumes "machine_ok s" and "page_alloc n s = (None, s')"
  shows "s' = s"
  using assms PageAllocator_alloc_None(1) [of "frames s" n]
  by (auto simp: page_alloc_def machine_ok_def split: prod.splits option.splits)

lemma page_alloc_Some:
  assumes "machine_ok s" and "page_alloc n s = (Some p, s')"
  obtains f where "p = frame_to_addr f" and "0 < n" and "f + n \<le> MAX_FRAMES"
    and "{f..<f + n} \<subseteq> free_set (frames s)" and "alloc_wf (frames s')"
    and "free_set (frames s') = free_set (frames s) - {f..<f + n}"
    and "phys s' = store_bytes (phys s) p (replicate (n * 4096) 0)"
proof -
  from assms(2) obtain a where a: "PageAllocator_alloc n (frames s) = (Some p, a)"
    and s': "s' = s\<lparr>frames := a, phys := store_bytes (phys s) p (replicate (n * unat PAGE_SIZE) 0)\<rparr>"
    by (auto simp: page_alloc_def split: prod.splits option.splits)
  have wf: "alloc_wf (frames s)" using assms(1) by (simp add: machine_ok_def)
  from PageAllocator_alloc_Some [OF wf a] obtain f where "p = frame_to_addr f" and "0 < n"
    and "f + n \<le> MAX_FRAMES" and run: "run_at (frames s) n f"
    and "a = (fold set_used [f..<f + n] (frames s))\<lparr>free_frames := free_frames (frames s) - n\<rparr>"
    by blast
  with alloc_wf_after_alloc [OF wf run] s' that [of f] show thesis
    by (simp add: run_at_def)
qed

interpretation pages: page_source page_alloc phys free_pages machine_ok
proof
  fix s s' :: "'a machine_scheme" and n and r :: "usize option"
  assume ok: "machine_ok s" and alloc: "page_alloc n s = (r, s')"
  show "machine_ok s'"
  proof (cases r)
    case None
    with ok alloc show ?thesis by (auto dest: page_alloc_None)
  next
    case (Some p)
    with ok alloc show ?thesis by (metis machine_ok_def page_alloc_Some)
  qed
next
  fix s s' :: "'a machine_scheme" and n
  assume "machine_ok s" and "page_alloc n s = (None, s')"
  then show "s' = s" by (rule page_alloc_None)
next
  fix s s' :: "'a machine_scheme" and n and p x
  assume *: "machine_ok s" "page_alloc n s = (Some p, s')"
  then obtain f where f: "p = frame_to_addr f" "0 < n" "f + n \<le> MAX_FRAMES"
    and free: "{f..<f + n} \<subseteq> free_set (frames s)"
    and s': "free_set (frames s') = free_set (frames s) - {f..<f + n}"
    and phys: "phys s' = store_bytes (phys s) p (replicate (n * 4096) 0)"
    by (rule page_alloc_Some)
  have run: "{frame_of p..<frame_of p + n} = (\<lambda>f. 0x80000 + f) ` {f..<f + n}"
    using f by (simp add: frame_of_frame_to_addr ac_simps)
  show al: "page_aligned p" by (simp add: f(1) frame_to_addr_aligned)
  show "0 < n" by (rule f(2))
  show "{frame_of p..<frame_of p + n} \<subseteq> free_pages s"
    unfolding run free_pages_def using free by (rule image_mono)
  show "free_pages s' = free_pages s - {frame_of p..<frame_of p + n}"
    by (simp only: run free_pages_def s') (rule image_set_diff, simp add: inj_on_def)
  have "unat p + n * 4096 \<le> 2 ^ 64"
    using f by (simp add: unat_frame_to_addr MAX_FRAMES_eq)
  then have "unat (x - p) < n * 4096 \<longleftrightarrow> frame_of x \<in> {frame_of p..<frame_of p + n}"
    by (rule in_page_run_iff [OF al])
  then show "phys s' x = (if frame_of x \<in> {frame_of p..<frame_of p + n} then 0 else phys s x)"
    by (simp add: phys store_bytes_def)
qed

end
