(* ===== verification/Mmu.thy ===== *)
theory Mmu
  imports Page_Alloc "HOL-Library.Sublist"
begin

unbundle bit_operations_syntax

text \<open>
  \<open>kernel/mem/mmu.rs\<close>: Sv39 page tables in physical memory. A table is its physical
  address; its 512 entries are eight-byte cells of the byte store, and the walk reads and
  writes them there. The abstract view of a root is the function \<open>pte_at\<close> from virtual
  addresses to leaf entries; \<open>tree_wf\<close> says that the tables reachable from a root form a
  tree of allocated frames. The lemmas show that \<open>map\<close> and \<open>unmap\<close> change exactly
  one page of that function, that the walk never meets a superpage, and which frames an
  operation may write, from which the isolation of address spaces follows.
\<close>

section \<open>Entries and tables\<close>

definition PTE_V :: u64 where [simp]: "PTE_V = 1"
definition PTE_R :: u64 where [simp]: "PTE_R = 2"
definition PTE_W :: u64 where [simp]: "PTE_W = 4"
definition PTE_X :: u64 where [simp]: "PTE_X = 8"
definition PTE_U :: u64 where [simp]: "PTE_U = 16"
definition PTE_G :: u64 where [simp]: "PTE_G = 32"
definition PTE_A :: u64 where [simp]: "PTE_A = 64"
definition PTE_D :: u64 where [simp]: "PTE_D = 128"
definition SATP_MODE_SV39 :: usize where [simp]: "SATP_MODE_SV39 = push_bit 60 8"
definition USER_ROOT_SLOT :: nat where [simp]: "USER_ROOT_SLOT = 1"

text \<open>The cell of entry \<open>i\<close> of the table at \<open>t\<close>, and its contents.\<close>

definition entry :: "usize \<Rightarrow> nat \<Rightarrow> usize" where
  "entry t i = t + word_of_nat (8 * i)"

definition pte :: "pmem \<Rightarrow> usize \<Rightarrow> nat \<Rightarrow> u64" where
  "pte m t i = load64 m (entry t i)"

definition pte_valid :: "u64 \<Rightarrow> bool" where "pte_valid e \<longleftrightarrow> e AND PTE_V \<noteq> 0"
definition pte_leaf :: "u64 \<Rightarrow> bool" where "pte_leaf e \<longleftrightarrow> e AND (PTE_R OR PTE_W OR PTE_X) \<noteq> 0"
definition pte_pa :: "u64 \<Rightarrow> usize" where "pte_pa e = push_bit 12 (drop_bit 10 e)"
definition pa_pte :: "usize \<Rightarrow> u64" where "pa_pte pa = push_bit 10 (drop_bit 12 pa)"

definition PageTable_alloc :: "'a machine_scheme \<Rightarrow> usize option \<times> 'a machine_scheme" where
  "PageTable_alloc s = page_alloc 1 s"

definition satp :: "usize \<Rightarrow> usize" where
  "satp root = SATP_MODE_SV39 OR drop_bit 12 root"

definition vpn :: "usize \<Rightarrow> nat \<Rightarrow> nat" where
  "vpn va level = unat (drop_bit (12 + 9 * level) va AND 0x1ff)"

section \<open>Walking\<close>

text \<open>
  The loop of \<open>walk\<close> over the levels 2 and 1. The outer option is the panic on a superpage;
  the inner one is the \<open>Option\<close> the source returns, the address of the leaf entry.
\<close>

fun walk_levels :: "nat list \<Rightarrow> usize \<Rightarrow> usize \<Rightarrow> bool \<Rightarrow> 'a machine_scheme \<Rightarrow>
    (usize option \<times> 'a machine_scheme) run" where
  "walk_levels [] table va create s = Some (Some (entry table (vpn va 0)), s)"
| "walk_levels (level # levels) table va create s =
     (let slot = entry table (vpn va level); e = load64 (phys s) slot in
      if \<not> pte_valid e then
        (if \<not> create then Some (None, s)
         else (case PageTable_alloc s of
           (None, s) \<Rightarrow> Some (None, s)
         | (Some next, s) \<Rightarrow>
             (let e = pa_pte next OR PTE_V
              in walk_levels levels (pte_pa e) va create (s\<lparr>phys := store64 (phys s) slot e\<rparr>))))
      else if pte_leaf e then None
      else walk_levels levels (pte_pa e) va create s)"

definition PageTable_walk :: "usize \<Rightarrow> usize \<Rightarrow> bool \<Rightarrow> 'a machine_scheme \<Rightarrow>
    (usize option \<times> 'a machine_scheme) run" where
  "PageTable_walk root va create s = walk_levels [2, 1] root va create s"

definition PageTable_map :: "usize \<Rightarrow> usize \<Rightarrow> usize \<Rightarrow> u64 \<Rightarrow> 'a machine_scheme \<Rightarrow>
    (unit result \<times> 'a machine_scheme) run" where
  "PageTable_map root va pa flags s =
     do { (r, s) \<leftarrow> PageTable_walk root va True s;
          Some (case r of
            None \<Rightarrow> (Inl ''mmu: out of memory for page table'', s)
          | Some slot \<Rightarrow>
              if pte_valid (load64 (phys s) slot) then (Inl ''mmu: va already mapped'', s)
              else (Inr (), s\<lparr>phys := store64 (phys s) slot
                      (pa_pte pa OR flags OR PTE_A OR PTE_D OR PTE_V)\<rparr>)) }"

text \<open>
  \<open>map_range\<close>: a while loop, so a partial function; \<open>None\<close> is a panic of the walk or a
  loop that does not end.
\<close>

partial_function (option) map_range_loop :: "usize \<Rightarrow> usize \<Rightarrow> usize \<Rightarrow> u64 \<Rightarrow> 'a machine_scheme \<Rightarrow>
    (unit result \<times> 'a machine_scheme) run" where
  "map_range_loop root va end_va flags s =
     (if va < end_va then
        do { (r, s) \<leftarrow> PageTable_map root va va flags s;
             (case r of Inl e \<Rightarrow> Some (Inl e, s)
              | Inr _ \<Rightarrow> map_range_loop root (va + PAGE_SIZE) end_va flags s) }
      else Some (Inr (), s))"

definition PageTable_map_range :: "usize \<Rightarrow> usize \<Rightarrow> usize \<Rightarrow> u64 \<Rightarrow> 'a machine_scheme \<Rightarrow>
    (unit result \<times> 'a machine_scheme) run" where
  "PageTable_map_range root start end_va flags s =
     map_range_loop root (page_down start) (page_up end_va) flags s"

definition PageTable_unmap :: "usize \<Rightarrow> usize \<Rightarrow> 'a machine_scheme \<Rightarrow>
    (usize option \<times> 'a machine_scheme) run" where
  "PageTable_unmap root va s =
     do { (r, s) \<leftarrow> PageTable_walk root va False s;
          Some (case r of
            None \<Rightarrow> (None, s)
          | Some slot \<Rightarrow>
              (let e = load64 (phys s) slot in
               if \<not> pte_valid e then (None, s)
               else (Some (pte_pa e), s\<lparr>phys := store64 (phys s) slot 0\<rparr>))) }"

definition virt_to_phys :: "usize \<Rightarrow> usize \<Rightarrow> 'a machine_scheme \<Rightarrow> usize option run" where
  "virt_to_phys root va s =
     do { (r, s) \<leftarrow> PageTable_walk root va False s;
          Some (case r of
            None \<Rightarrow> None
          | Some slot \<Rightarrow>
              (let e = load64 (phys s) slot in
               if \<not> pte_valid e then None
               else Some (pte_pa e + (va AND (PAGE_SIZE - 1))))) }"

section \<open>Address spaces\<close>

text \<open>\<open>expect\<close> on the result of \<open>map_range\<close>: an error is a panic.\<close>

definition map_range_expect :: "usize \<Rightarrow> usize \<times> usize \<times> u64 \<Rightarrow> 'a machine_scheme \<Rightarrow> 'a machine_scheme run" where
  "map_range_expect root rng s =
     (case rng of (start, end_va, flags) \<Rightarrow>
        do { (r, s) \<leftarrow> PageTable_map_range root start end_va flags s;
             (case r of Inl _ \<Rightarrow> None | Inr _ \<Rightarrow> Some s) })"

fun map_ranges :: "usize \<Rightarrow> (usize \<times> usize \<times> u64) list \<Rightarrow> 'a machine_scheme \<Rightarrow> 'a machine_scheme run" where
  "map_ranges root [] s = Some s"
| "map_ranges root (rng # rngs) s = do { s \<leftarrow> map_range_expect root rng s; map_ranges root rngs s }"

definition kernel_ranges :: "linker \<Rightarrow> (usize \<times> usize \<times> u64) list" where
  "kernel_ranges ld =
     [(text_start ld, text_end ld, PTE_R OR PTE_X),
      (rodata_start ld, rodata_end ld, PTE_R),
      (data_start ld, RAM_END, PTE_R OR PTE_W),
      (UART0_BASE, UART0_BASE + UART0_SIZE, PTE_R OR PTE_W),
      (VIRTIO_BASE, VIRTIO_BASE + VIRTIO_SIZE, PTE_R OR PTE_W),
      (CLINT_BASE, CLINT_BASE + CLINT_SIZE, PTE_R OR PTE_W),
      (PLIC_BASE, PLIC_BASE + PLIC_SIZE, PTE_R OR PTE_W),
      (TEST_BASE, TEST_BASE + TEST_SIZE, PTE_R OR PTE_W)]"

definition kernel_page_table :: "linker \<Rightarrow> 'a machine_scheme \<Rightarrow> (usize \<times> 'a machine_scheme) run" where
  "kernel_page_table ld s =
     (case PageTable_alloc s of
        (None, s) \<Rightarrow> None
      | (Some root, s) \<Rightarrow> do { s \<leftarrow> map_ranges root (kernel_ranges ld) s; Some (root, s) })"

text \<open>\<open>new_user_root\<close>; \<open>kroot\<close> is the value of \<open>KERNEL_ROOT_PA\<close>.\<close>

definition copy_slot :: "usize \<Rightarrow> usize \<Rightarrow> nat \<Rightarrow> pmem \<Rightarrow> pmem" where
  "copy_slot kroot root i m =
     (if i \<noteq> USER_ROOT_SLOT then store64 m (entry root i) (pte m kroot i) else m)"

definition new_user_root :: "usize \<Rightarrow> 'a machine_scheme \<Rightarrow> usize option \<times> 'a machine_scheme" where
  "new_user_root kroot s =
     (case PageTable_alloc s of
        (None, s) \<Rightarrow> (None, s)
      | (Some root, s) \<Rightarrow> (Some root, s\<lparr>phys := fold (copy_slot kroot root) [0..<512] (phys s)\<rparr>))"

text \<open>\<open>free_user_space\<close>: the leaves of each level-0 table, the table, and at last the level-1 table.\<close>

fun free_leaves :: "usize \<Rightarrow> nat list \<Rightarrow> 'a machine_scheme \<Rightarrow> 'a machine_scheme run" where
  "free_leaves l0 [] s = Some s"
| "free_leaves l0 (i # is) s =
     (let e0 = pte (phys s) l0 i in
      if pte_valid e0 then do { s \<leftarrow> page_free (pte_pa e0) 1 s; free_leaves l0 is s }
      else free_leaves l0 is s)"

fun free_tables :: "usize \<Rightarrow> nat list \<Rightarrow> 'a machine_scheme \<Rightarrow> 'a machine_scheme run" where
  "free_tables l1 [] s = Some s"
| "free_tables l1 (i # is) s =
     (let e1 = pte (phys s) l1 i in
      if \<not> pte_valid e1 then free_tables l1 is s
      else do { s \<leftarrow> free_leaves (pte_pa e1) [0..<512] s;
                s \<leftarrow> page_free (pte_pa e1) 1 s;
                free_tables l1 is s })"

definition free_user_space :: "usize \<Rightarrow> 'a machine_scheme \<Rightarrow> 'a machine_scheme run" where
  "free_user_space root s =
     (let root_entry = pte (phys s) root USER_ROOT_SLOT in
      if \<not> pte_valid root_entry then Some s
      else do { s \<leftarrow> free_tables (pte_pa root_entry) [0..<512] s;
                s \<leftarrow> page_free (pte_pa root_entry) 1 s;
                Some (s\<lparr>phys := store64 (phys s) (entry root USER_ROOT_SLOT) 0\<rparr>) })"

text \<open>\<open>clone_user_space\<close>: every mapped page of the user slot, frame by frame.\<close>

definition clone_page :: "usize \<Rightarrow> nat \<Rightarrow> nat \<Rightarrow> u64 \<Rightarrow> 'a machine_scheme \<Rightarrow>
    (unit result \<times> 'a machine_scheme) run" where
  "clone_page dst i1 i0 e0 s =
     (let va = push_bit 30 (word_of_nat USER_ROOT_SLOT) OR push_bit 21 (word_of_nat i1) OR push_bit 12 (word_of_nat i0);
          src_pa = pte_pa e0;
          flags = e0 AND (PTE_R OR PTE_W OR PTE_X OR PTE_U)
      in case page_alloc 1 s of
           (None, s) \<Rightarrow> Some (Inl ''fork: out of memory'', s)
         | (Some frame, s) \<Rightarrow>
             PageTable_map dst va frame flags
               (s\<lparr>phys := store_bytes (phys s) frame (load_bytes (phys s) src_pa (unat PAGE_SIZE))\<rparr>))"

fun clone_leaves :: "usize \<Rightarrow> nat \<Rightarrow> usize \<Rightarrow> nat list \<Rightarrow> 'a machine_scheme \<Rightarrow>
    (unit result \<times> 'a machine_scheme) run" where
  "clone_leaves dst i1 l0 [] s = Some (Inr (), s)"
| "clone_leaves dst i1 l0 (i0 # is) s =
     (let e0 = pte (phys s) l0 i0 in
      if \<not> pte_valid e0 then clone_leaves dst i1 l0 is s
      else do { (r, s) \<leftarrow> clone_page dst i1 i0 e0 s;
                (case r of Inl e \<Rightarrow> Some (Inl e, s) | Inr _ \<Rightarrow> clone_leaves dst i1 l0 is s) })"

fun clone_tables :: "usize \<Rightarrow> usize \<Rightarrow> nat list \<Rightarrow> 'a machine_scheme \<Rightarrow>
    (unit result \<times> 'a machine_scheme) run" where
  "clone_tables dst l1 [] s = Some (Inr (), s)"
| "clone_tables dst l1 (i1 # is) s =
     (let e1 = pte (phys s) l1 i1 in
      if \<not> pte_valid e1 then clone_tables dst l1 is s
      else do { (r, s) \<leftarrow> clone_leaves dst i1 (pte_pa e1) [0..<512] s;
                (case r of Inl e \<Rightarrow> Some (Inl e, s) | Inr _ \<Rightarrow> clone_tables dst l1 is s) })"

definition clone_user_space :: "usize \<Rightarrow> usize \<Rightarrow> 'a machine_scheme \<Rightarrow>
    (unit result \<times> 'a machine_scheme) run" where
  "clone_user_space src dst s =
     (let root_entry = pte (phys s) src USER_ROOT_SLOT in
      if \<not> pte_valid root_entry then Some (Inr (), s)
      else clone_tables dst (pte_pa root_entry) [0..<512] s)"

section \<open>Entry codecs and indices\<close>

lemma page_aligned_bits: "page_aligned p \<Longrightarrow> n < 12 \<Longrightarrow> \<not> bit p n"
proof -
  assume "page_aligned p" and n: "n < 12"
  then have "take_bit 12 p = 0" by (simp add: page_aligned_def page_offset_eq_take_bit)
  then have "bit (take_bit 12 p) n = False" by simp
  with n show "\<not> bit p n" by (simp add: bit_take_bit_iff)
qed

lemma pte_pa_aligned [simp]: "page_aligned (pte_pa e)"
  by (simp add: page_aligned_def pte_pa_def page_offset_eq_take_bit take_bit_push_bit)

lemma pte_pa_encode:
  assumes "page_aligned pa" and "drop_bit 10 fl = 0"
  shows "pte_pa (pa_pte pa OR fl) = pa"
proof (rule bit_word_eqI)
  fix n assume n: "n < LENGTH(64)"
  have fl: "\<not> bit fl k" if "10 \<le> k" for k
  proof -
    have "bit (drop_bit 10 fl) (k - 10) = False" using assms(2) by simp
    with that show ?thesis by (simp add: bit_drop_bit_eq)
  qed
  show "bit (pte_pa (pa_pte pa OR fl)) n = bit pa n"
    using n page_aligned_bits [OF assms(1), of n] fl [of "n - 2"]
    by (cases "12 \<le> n") (auto simp: pte_pa_def pa_pte_def bit_simps)
qed

lemma pte_valid_bit: "pte_valid e \<longleftrightarrow> bit e 0"
  by (simp add: pte_valid_def and_one_eq odd_iff_mod_2_eq_one bit_0)

lemma pte_valid_or [simp]: "pte_valid (e OR 1)"
  by (simp add: pte_valid_bit bit_simps)

lemma pte_valid_zero [simp]: "\<not> pte_valid 0"
  by (simp add: pte_valid_bit)

lemma pte_leaf_zero [simp]: "\<not> pte_leaf 0"
  by (simp add: pte_leaf_def)

lemma push_take_disjoint: "push_bit k x AND take_bit k y = (0 :: u64)"
  by (rule bit_word_eqI) (auto simp: bit_simps)

lemma table_entry [simp]:
  "page_aligned p \<Longrightarrow> pte_pa (pa_pte p OR 1) = p"
  "\<not> pte_leaf (pa_pte p OR 1)"
proof -
  assume "page_aligned p"
  then show "pte_pa (pa_pte p OR 1) = p" by (rule pte_pa_encode) simp
next
  have "pa_pte p AND 14 = 0" using push_take_disjoint [of 10 "drop_bit 12 p" 14] by (simp add: pa_pte_def)
  then show "\<not> pte_leaf (pa_pte p OR 1)" by (simp add: pte_leaf_def bit.conj_disj_distrib2)
qed

lemma vpn_less [simp]: "vpn va level < 512"
proof -
  have "drop_bit (12 + 9 * level) va AND 0x1ff = take_bit 9 (drop_bit (12 + 9 * level) va)"
    by (simp add: take_bit_eq_mask mask_eq_exp_minus_1)
  then have "vpn va level = unat (drop_bit (12 + 9 * level) va) mod 2 ^ 9"
    by (simp only: vpn_def unsigned_take_bit_eq) (simp add: take_bit_eq_mod)
  then show ?thesis by simp
qed

lemma entry_frame: "page_aligned t \<Longrightarrow> i < 512 \<Longrightarrow> j < 8 \<Longrightarrow> frame_of (entry t i + word_of_nat j) = frame_of t"
  using frame_of_add [of t "8 * i + j"] by (simp add: entry_def add.assoc)

lemma pte_store_same [simp]: "pte (store64 m (entry t i) v) t i = v"
  by (simp add: pte_def)

lemma pte_store_other:
  assumes "page_aligned t" "page_aligned u" "i < 512" "j < 512" and "t \<noteq> u \<or> i \<noteq> j"
  shows "pte (store64 m (entry t i) v) u j = pte m u j"
proof (cases "t = u")
  case True
  with assms show ?thesis unfolding pte_def entry_def by (metis load64_store64_other_entry)
next
  case False
  have "load64 (store_bytes m (t + word_of_nat (8 * i)) (to_le_bytes 8 v)) (u + word_of_nat (8 * j))
      = load64 m (u + word_of_nat (8 * j))"
    using assms False by (intro load64_other_frame) simp_all
  then show ?thesis by (simp add: pte_def entry_def store64_def)
qed

lemma entry_store_outside:
  assumes "page_aligned t" "i < 512" and "frame_of x \<noteq> frame_of t"
  shows "store64 m (entry t i) v x = m x"
  using assms store_bytes_other_frame [of t "8 * i" "to_le_bytes 8 v" x m]
  by (simp add: store64_def entry_def)

lemma pte_cong:
  assumes "page_aligned t" "i < 512" and "\<And>x. frame_of x = frame_of t \<Longrightarrow> m' x = m x"
  shows "pte m' t i = pte m t i"
  unfolding pte_def by (intro load64_cong assms(3) entry_frame assms(1,2))

section \<open>The tree of tables\<close>

fun node :: "pmem \<Rightarrow> usize \<Rightarrow> nat list \<Rightarrow> usize option" where
  "node m t [] = Some t"
| "node m t (i # is) = (if pte_valid (pte m t i) then node m (pte_pa (pte m t i)) is else None)"

definition tpath :: "nat list \<Rightarrow> bool" where
  "tpath p \<longleftrightarrow> length p \<le> 2 \<and> (\<forall>i \<in> set p. i < 512)"

text \<open>
  The tables of a root are allocated frames, no two paths lead to the same one, and no inner
  entry is a leaf.
\<close>

definition tree_wf :: "pmem \<Rightarrow> usize \<Rightarrow> nat set \<Rightarrow> bool" where
  "tree_wf m root F \<longleftrightarrow> page_aligned root \<and>
     (\<forall>p t. tpath p \<and> node m root p = Some t \<longrightarrow> frame_of t \<notin> F) \<and>
     (\<forall>p i t. tpath (p @ [i]) \<and> node m root p = Some t \<and> pte_valid (pte m t i) \<longrightarrow> \<not> pte_leaf (pte m t i)) \<and>
     (\<forall>p q t. tpath p \<and> tpath q \<and> node m root p = Some t \<and> node m root q = Some t \<longrightarrow> p = q)"

text \<open>The path of a virtual address through the inner levels.\<close>

definition vpath :: "usize \<Rightarrow> nat list" where
  "vpath va = [vpn va 2, vpn va 1]"

text \<open>The leaf entry of a virtual address, 0 when a table on the way is missing.\<close>

definition pte_at :: "pmem \<Rightarrow> usize \<Rightarrow> usize \<Rightarrow> u64" where
  "pte_at m root va =
     (case node m root (vpath va) of None \<Rightarrow> 0 | Some t \<Rightarrow> pte m t (vpn va 0))"

definition path_frames :: "pmem \<Rightarrow> usize \<Rightarrow> usize \<Rightarrow> nat set" where
  "path_frames m root va =
     {f. \<exists>q t. prefix q (vpath va) \<and> node m root q = Some t \<and> f = frame_of t}"

lemma node_snoc:
  "node m t (p @ [i]) = (case node m t p of None \<Rightarrow> None
     | Some u \<Rightarrow> if pte_valid (pte m u i) then Some (pte_pa (pte m u i)) else None)"
  by (induction p arbitrary: t) auto

lemma node_aligned: "page_aligned t \<Longrightarrow> node m t p = Some u \<Longrightarrow> page_aligned u"
proof (induction p arbitrary: t)
  case (Cons i p)
  then show ?case using Cons.IH [of "pte_pa (pte m t i)"] by (simp split: if_splits)
qed simp

lemma tpath_snoc [simp]: "tpath (p @ [i]) \<longleftrightarrow> length p \<le> 1 \<and> (\<forall>i \<in> set p. i < 512) \<and> i < 512"
  by (auto simp: tpath_def)

lemma tpath_prefix: "prefix q p \<Longrightarrow> tpath p \<Longrightarrow> tpath q"
  using set_mono_prefix prefix_length_le by (fastforce simp: tpath_def)

lemma tpath_va [simp]: "tpath (vpath va)" "tpath []"
  by (simp_all add: tpath_def vpath_def)

lemma tree_wfD:
  assumes "tree_wf m root F"
  shows "page_aligned root" and "tpath p \<Longrightarrow> node m root p = Some t \<Longrightarrow> frame_of t \<notin> F"
    and "tpath (p @ [i]) \<Longrightarrow> node m root p = Some t \<Longrightarrow> pte_valid (pte m t i) \<Longrightarrow> \<not> pte_leaf (pte m t i)"
    and "tpath p \<Longrightarrow> tpath q \<Longrightarrow> node m root p = Some t \<Longrightarrow> node m root q = Some t \<Longrightarrow> p = q"
  using assms unfolding tree_wf_def by blast+

text \<open>A tree whose tables hold the same entries in another store.\<close>

lemma tree_agree:
  assumes wf: "tree_wf m root F"
    and same: "\<And>q t i. tpath q \<Longrightarrow> node m root q = Some t \<Longrightarrow> i < 512 \<Longrightarrow> pte m' t i = pte m t i"
  shows "tpath q \<Longrightarrow> node m' root q = node m root q"
    and "F' \<subseteq> F \<Longrightarrow> tree_wf m' root F'" and "pte_at m' root v = pte_at m root v"
proof -
  have node': "tpath q \<Longrightarrow> node m' root q = node m root q" for q
  proof (induction q rule: rev_induct)
    case (snoc j q)
    then have q: "tpath q" "j < 512" by (auto simp: tpath_def)
    with snoc.IH [OF q(1)] same [OF q(1) _ q(2)] show ?case
      by (simp add: node_snoc split: option.splits)
  qed simp
  then show "tpath q \<Longrightarrow> node m' root q = node m root q" .
  show "pte_at m' root v = pte_at m root v"
    using node' [of "vpath v"] same [of "vpath v" _ "vpn v 0"] by (simp add: pte_at_def split: option.splits)
  assume F: "F' \<subseteq> F"
  show "tree_wf m' root F'"
    unfolding tree_wf_def
  proof (intro conjI allI impI)
    fix p i u assume a: "tpath (p @ [i]) \<and> node m' root p = Some u \<and> pte_valid (pte m' u i)"
    then have p: "tpath p" "i < 512" by (auto simp: tpath_def)
    with a node' have u: "node m root p = Some u" by simp
    with a tree_wfD(3) [OF wf _ u] same [OF p(1) u p(2)] show "\<not> pte_leaf (pte m' u i)" by simp
  next
    fix p u assume a: "tpath p \<and> node m' root p = Some u"
    then have "node m root p = Some u" using node' [of p] by metis
    then show "frame_of u \<notin> F'" using tree_wfD(2) [OF wf] a F by blast
  qed (use tree_wfD(1) [OF wf] tree_wfD(4) [OF wf] node' in auto)
qed

text \<open>Linking a fresh zeroed table into an empty slot.\<close>

definition table_link :: "pmem \<Rightarrow> pmem \<Rightarrow> usize \<Rightarrow> nat set \<Rightarrow> nat list \<Rightarrow> usize \<Rightarrow> nat \<Rightarrow> usize \<Rightarrow> bool" where
  "table_link m m2 root F p t i new \<longleftrightarrow>
     tree_wf m root F \<and> tpath (p @ [i]) \<and> node m root p = Some t \<and> \<not> pte_valid (pte m t i) \<and>
     page_aligned new \<and> frame_of new \<in> F \<and> pte m2 t i = pa_pte new OR PTE_V \<and>
     (\<forall>u j. page_aligned u \<and> j < 512 \<and> frame_of u \<notin> F \<and> (u \<noteq> t \<or> j \<noteq> i) \<longrightarrow> pte m2 u j = pte m u j) \<and>
     (\<forall>j < 512. pte m2 new j = 0)"

lemma table_linkD:
  assumes "table_link m m2 root F p t i new"
  shows "tree_wf m root F" and "node m root p = Some t" and "\<not> pte_valid (pte m t i)"
    and "page_aligned new" and "frame_of new \<in> F" and "pte m2 t i = pa_pte new OR PTE_V"
    and "page_aligned u \<Longrightarrow> j < 512 \<Longrightarrow> frame_of u \<notin> F \<Longrightarrow> u \<noteq> t \<or> j \<noteq> i \<Longrightarrow> pte m2 u j = pte m u j"
    and "j < 512 \<Longrightarrow> pte m2 new j = 0"
    and "tpath p" and "i < 512" and "length p \<le> 1" and "node m root (p @ [i]) = None"
  using assms by (auto simp: table_link_def tpath_def node_snoc)

lemma node_new:
  assumes L: "table_link m m2 root F p t i new"
  shows "tpath q \<Longrightarrow> node m2 root q = (if q = p @ [i] then Some new else node m root q)"
proof (induction q rule: rev_induct)
  case Nil
  then show ?case by simp
next
  case (snoc j q)
  note D = table_linkD [OF L] and wf = table_linkD(1) [OF L]
  from snoc have q: "tpath q" "j < 512" by (auto simp: tpath_def)
  note IH = snoc.IH [OF q(1)]
  show ?case
  proof (cases "q = p @ [i]")
    case True
    then have "node m2 root q = Some new" "node m root q = None" and "q @ [j] \<noteq> p @ [i]"
      using IH D(12) by simp_all
    with D(8) [OF q(2)] show ?thesis by (simp add: node_snoc)
  next
    case False
    then have same: "node m2 root q = node m root q" using IH by simp
    show ?thesis
    proof (cases "node m root q")
      case None
      with same D(2) show ?thesis by (auto simp: node_snoc)
    next
      case (Some u)
      note u = node_aligned [OF tree_wfD(1) [OF wf] Some] tree_wfD(2) [OF wf q(1) Some]
      show ?thesis
      proof (cases "u = t \<and> j = i")
        case True
        then have "q = p" using tree_wfD(4) [OF wf q(1) D(9)] Some D(2) by simp
        with True Some same D(4,6) show ?thesis by (simp add: node_snoc)
      next
        case False
        then have "pte m2 u j = pte m u j" by (intro D(7)) (use u q in auto)
        moreover have "q @ [j] \<noteq> p @ [i]" using False Some D(2) by auto
        ultimately show ?thesis using same Some by (auto simp: node_snoc)
      qed
    qed
  qed
qed

lemma entries_new:
  assumes L: "table_link m m2 root F p t i new"
    and "tpath q" and "node m2 root q = Some u" and "j < 512"
  shows "pte m2 u j = (if q = p @ [i] then 0 else if q = p \<and> j = i then pa_pte new OR PTE_V else pte m u j)"
proof (cases "q = p @ [i]")
  case True
  with assms node_new [OF L] table_linkD(8) [OF L] show ?thesis by simp
next
  case False
  note D = table_linkD [OF L] and wf = table_linkD(1) [OF L]
  from False have u: "node m root q = Some u" using assms node_new [OF L] by simp
  note al = node_aligned [OF tree_wfD(1) [OF wf] u] and used = tree_wfD(2) [OF wf assms(2) u]
  show ?thesis
  proof (cases "u = t \<and> j = i")
    case True
    then have "q = p" using tree_wfD(4) [OF wf assms(2) D(9)] u D(2) by simp
    with True False D(6) show ?thesis by simp
  next
    case other: False
    then have "\<not> (q = p \<and> j = i)" using u D(2) by auto
    with False D(7) [OF al assms(4) used] other show ?thesis by auto
  qed
qed

lemma tree_wf_new:
  assumes L: "table_link m m2 root F p t i new"
  shows "tree_wf m2 root (F - {frame_of new})"
proof -
  note D = table_linkD [OF L] and wf = table_linkD(1) [OF L] and node' = node_new [OF L]
  have "frame_of u \<notin> F - {frame_of new}" if "tpath q" "node m2 root q = Some u" for q u
    using that node' [of q] tree_wfD(2) [OF wf, of q u] by (auto split: if_splits)
  moreover have "\<not> pte_leaf (pte m2 u j)"
    if "tpath (q @ [j])" "node m2 root q = Some u" "pte_valid (pte m2 u j)" for q j u
  proof -
    have q: "tpath q" "j < 512" using that(1) by (auto simp: tpath_def)
    have "q = p @ [i] \<or> node m root q = Some u" using node' [OF q(1)] that(2) by (auto split: if_splits)
    with entries_new [OF L q(1) that(2) q(2)] tree_wfD(3) [OF wf that(1)] that(3) table_entry(2) show ?thesis
      by (auto split: if_splits)
  qed
  moreover have "q = q'" if "tpath q" "tpath q'" "node m2 root q = Some u" "node m2 root q' = Some u" for q q' u
    using that node' [of q] node' [of q'] tree_wfD(4) [OF wf that(1,2)]
      tree_wfD(2) [OF wf that(1)] tree_wfD(2) [OF wf that(2)] D(5) by (auto split: if_splits)
  ultimately show ?thesis using tree_wfD(1) [OF wf] unfolding tree_wf_def by blast
qed

lemma pte_at_new:
  assumes L: "table_link m m2 root F p t i new"
  shows "pte_at m2 root va = pte_at m root va"
proof -
  let ?q = "vpath va"
  have len: "?q \<noteq> p" using table_linkD(11) [OF L] by (auto simp: vpath_def)
  show ?thesis
  proof (cases "node m2 root ?q")
    case None
    then have "node m root ?q = None" using node_new [OF L, of ?q] by (auto split: if_splits)
    with None show ?thesis by (simp add: pte_at_def)
  next
    case (Some u)
    show ?thesis
      using Some len node_new [OF L tpath_va(1), of va] entries_new [OF L tpath_va(1) Some vpn_less]
        table_linkD(12) [OF L]
      by (cases "?q = p @ [i]") (simp_all add: pte_at_def)
  qed
qed

lemma path_frames_new:
  assumes L: "table_link m m2 root F p t i new"
  shows "path_frames m2 root va \<subseteq> path_frames m root va \<union> {frame_of new}"
  using node_new [OF L] tpath_prefix [OF _ tpath_va(1), of _ va]
  by (fastforce simp: path_frames_def split: if_splits)

section \<open>The walk\<close>

text \<open>
  What a walk for \<open>va\<close> promises: the invariants hold afterwards, no leaf entry has changed,
  memory is written only in tables on the path of \<open>va\<close> and in frames that were free; a
  found slot is the leaf entry's cell; with \<open>create\<close> the walk fails only when no frame is
  left, without it only when a table is missing.
\<close>

definition walk_post :: "usize \<Rightarrow> usize \<Rightarrow> bool \<Rightarrow> 'a machine_scheme \<Rightarrow> usize option \<Rightarrow>
    'a machine_scheme \<Rightarrow> bool" where
  "walk_post root va create s r s' \<longleftrightarrow>
     machine_ok s' \<and> tree_wf (phys s') root (free_pages s') \<and> free_pages s' \<subseteq> free_pages s \<and>
     (\<forall>v. pte_at (phys s') root v = pte_at (phys s) root v) \<and>
     (\<forall>x. frame_of x \<notin> free_pages s \<union> path_frames (phys s) root va \<longrightarrow> phys s' x = phys s x) \<and>
     (case r of
        None \<Rightarrow> if create then free_pages s' = {} else node (phys s) root (vpath va) = None
      | Some slot \<Rightarrow> \<exists>t. node (phys s') root (vpath va) = Some t \<and> slot = entry t (vpn va 0)) \<and>
     (create \<or> s' = s) \<and> machine.more s' = machine.more s \<and>
     (\<forall>v. path_frames (phys s') root v \<subseteq> path_frames (phys s) root v \<union> free_pages s)"

lemma page_alloc_more: "page_alloc n s = (r, s') \<Longrightarrow> machine.more s' = machine.more s"
  by (auto simp: page_alloc_def split: prod.splits option.splits)

lemma page_alloc_1_None:
  assumes "machine_ok s" and "page_alloc 1 s = (None, s')"
  shows "s' = s" and "free_pages s = {}"
proof -
  show s: "s' = s" using assms by (rule page_alloc_None)
  have "PageAllocator_alloc 1 (frames s) = (None, frames s)"
    using assms PageAllocator_alloc_None(1) [of "frames s" 1]
    by (auto simp: page_alloc_def machine_ok_def split: prod.splits option.splits)
  then have "\<forall>t. \<not> run_at (frames s) 1 t"
    using PageAllocator_alloc_None(2) [of "frames s" 1] assms(1) by (simp add: machine_ok_def)
  then show "free_pages s = {}" by (auto simp: run_at_def free_pages_def)
qed

lemma update_phys [simp]:
  "free_pages (s\<lparr>phys := m\<rparr>) = free_pages s" "machine_ok (s\<lparr>phys := m\<rparr>) = machine_ok s"
  by (simp_all add: free_pages_def machine_ok_def)

lemma page_alloc_link:
  assumes "machine_ok s" and "tree_wf (phys s) root (free_pages s)" and "tpath (p @ [i])"
    and "node (phys s) root p = Some t" and "\<not> pte_valid (pte (phys s) t i)"
    and pa: "page_alloc 1 s = (Some new, s1)"
  shows "table_link (phys s) (store64 (phys s1) (entry t i) (pa_pte new OR PTE_V)) root (free_pages s) p t i new"
proof -
  have p: "tpath p" "i < 512" using assms(3) by (auto simp: tpath_def)
  have t: "page_aligned t" "frame_of t \<notin> free_pages s"
    using node_aligned [OF tree_wfD(1) [OF assms(2)] assms(4)] tree_wfD(2) [OF assms(2) p(1) assms(4)] by auto
  have new: "page_aligned new" "frame_of new \<in> free_pages s"
    using pages.palloc_aligned [OF assms(1) pa] pages.palloc_fresh [OF assms(1) pa] by auto
  let ?m = "store64 (phys s1) (entry t i) (pa_pte new OR PTE_V)"
  have "pte ?m u j = pte (phys s) u j"
    if "page_aligned u" "j < 512" "frame_of u \<notin> free_pages s" "u \<noteq> t \<or> j \<noteq> i" for u j
  proof -
    have "pte ?m u j = pte (phys s1) u j"
      using that t(1) p by (intro pte_store_other) auto
    also have "\<dots> = pte (phys s) u j"
      using that pages.palloc_keeps [OF assms(1) pa] by (intro pte_cong) auto
    finally show ?thesis .
  qed
  moreover have "pte ?m new j = 0" if "j < 512" for j
  proof -
    have "new \<noteq> t" using t(2) new(2) by auto
    then have "pte ?m new j = pte (phys s1) new j"
      using that t(1) p new(1) by (intro pte_store_other) auto
    then show ?thesis
      using pages.fresh_table_zero [OF assms(1) pa that] by (simp add: pte_def entry_def)
  qed
  ultimately show ?thesis using assms new unfolding table_link_def by simp
qed

lemma walk_post_trans:
  assumes w: "walk_post root va True s1 r s'"
    and pte: "\<And>v. pte_at (phys s1) root v = pte_at (phys s) root v"
    and free: "free_pages s1 \<subseteq> free_pages s"
    and path: "\<And>v. path_frames (phys s1) root v \<subseteq> path_frames (phys s) root v \<union> free_pages s"
    and out: "\<And>x. frame_of x \<notin> free_pages s \<union> path_frames (phys s) root va \<Longrightarrow> phys s1 x = phys s x"
    and more: "machine.more s1 = machine.more s"
  shows "walk_post root va True s r s'"
  unfolding walk_post_def
proof (intro conjI allI impI)
  show "machine_ok s'" "tree_wf (phys s') root (free_pages s')" "True \<or> s' = s"
    using w by (simp_all add: walk_post_def)
  show "free_pages s' \<subseteq> free_pages s" "path_frames (phys s') root v \<subseteq> path_frames (phys s) root v \<union> free_pages s" for v
    using w free path [of v] unfolding walk_post_def by blast+
  show "pte_at (phys s') root v = pte_at (phys s) root v" "machine.more s' = machine.more s" for v
    using w pte more by (simp_all add: walk_post_def)
  show "case r of None \<Rightarrow> if True then free_pages s' = {} else node (phys s) root (vpath va) = None
      | Some slot \<Rightarrow> \<exists>t. node (phys s') root (vpath va) = Some t \<and> slot = entry t (vpn va 0)"
    using w by (simp add: walk_post_def split: option.splits)
  fix x assume x: "frame_of x \<notin> free_pages s \<union> path_frames (phys s) root va"
  then have "frame_of x \<notin> free_pages s1 \<union> path_frames (phys s1) root va" using free path [of va] by blast
  then show "phys s' x = phys s x" using w out [OF x] by (simp add: walk_post_def)
qed

lemma walk_levels_spec:
  assumes "machine_ok s" and "tree_wf (phys s) root (free_pages s)"
    and "node (phys s) root p = Some t" and "p @ map (vpn va) ls = vpath va"
  shows "\<exists>r s'. walk_levels ls t va create s = Some (r, s') \<and> walk_post root va create s r s' \<and>
    card (free_pages s) \<le> card (free_pages s') + length ls"
  using assms
proof (induction ls arbitrary: p t s)
  case Nil
  then show ?case by (auto simp: walk_post_def)
next
  case (Cons l ls)
  note ok = Cons.prems(1) and wf = Cons.prems(2) and at = Cons.prems(3)
  have path: "(p @ [vpn va l]) @ map (vpn va) ls = vpath va" using Cons.prems(4) by simp
  then have pre: "prefix (p @ [vpn va l]) (vpath va)" by (metis prefixI)
  then have tp: "tpath (p @ [vpn va l])" by (rule tpath_prefix) simp
  have tf: "frame_of t \<in> path_frames (phys s) root va"
    using at pre unfolding path_frames_def by (auto dest: append_prefixD)
  let ?e = "pte (phys s) t (vpn va l)"
  show ?case
  proof (cases "pte_valid ?e")
    case True
    then have "\<not> pte_leaf ?e" using tree_wfD(3) [OF wf tp at] by simp
    moreover have "node (phys s) root (p @ [vpn va l]) = Some (pte_pa ?e)"
      using True at by (simp add: node_snoc)
    then obtain r s' where "walk_levels ls (pte_pa ?e) va create s = Some (r, s')"
      "walk_post root va create s r s'" "card (free_pages s) \<le> card (free_pages s') + length ls"
      using Cons.IH [OF ok wf _ path] by blast
    with calculation True show ?thesis by (simp add: Let_def pte_def)
  next
    case invalid: False
    show ?thesis
    proof (cases create)
      case False
      have "node (phys s) root (vpath va) = None"
      proof -
        have none: "node m u (a @ b) = None" if "node m u a = None" for m u a b
          using that by (induction a arbitrary: u) auto
        have "node (phys s) root (p @ [vpn va l]) = None" using invalid at by (simp add: node_snoc)
        then show ?thesis using none path by metis
      qed
      with False invalid ok wf show ?thesis by (auto simp: walk_post_def pte_def Let_def)
    next
      case True
      then have T: "create = True" by simp
      obtain r s1 where pa: "page_alloc 1 s = (r, s1)" by fastforce
      show ?thesis
      proof (cases r)
        case None
        with pa ok have "s1 = s" "free_pages s = {}" using page_alloc_1_None by blast+
        with True None pa ok wf invalid show ?thesis
          by (auto simp: walk_post_def pte_def Let_def PageTable_alloc_def)
      next
        case (Some new)
        note pa' = pa [unfolded Some]
        let ?m = "store64 (phys s1) (entry t (vpn va l)) (pa_pte new OR PTE_V)"
        let ?s = "s1\<lparr>phys := ?m\<rparr>"
        note L = page_alloc_link [OF ok wf tp at invalid pa']
        have free: "free_pages s1 = free_pages s - {frame_of new}"
          using pages.palloc_avail [OF ok pa'] by simp
        have new: "page_aligned new" "frame_of new \<in> free_pages s" by (rule table_linkD [OF L])+
        have "machine_ok ?s" using pages.palloc_ok [OF ok pa'] by simp
        moreover have "tree_wf (phys ?s) root (free_pages ?s)" using tree_wf_new [OF L] by (simp add: free)
        moreover have "node (phys ?s) root (p @ [vpn va l]) = Some new" using node_new [OF L tp] by simp
        ultimately obtain r' s' where w: "walk_levels ls new va create ?s = Some (r', s')"
          "walk_post root va create ?s r' s'" "card (free_pages ?s) \<le> card (free_pages s') + length ls"
          using Cons.IH [of ?s "p @ [vpn va l]" new] path by blast
        have "finite (free_pages s)" by (simp add: free_pages_def)
        then have card: "card (free_pages s) \<le> card (free_pages s') + length (l # ls)"
          using w(3) new(2) by (simp add: free card_Diff_singleton)
        have out: "phys ?s x = phys s x" if "frame_of x \<notin> free_pages s \<union> path_frames (phys s) root va" for x
        proof -
          have "page_aligned t" using node_aligned [OF tree_wfD(1) [OF wf] at] .
          moreover have "frame_of x \<noteq> frame_of t" using that tf by auto
          ultimately show ?thesis
            using that pages.palloc_keeps [OF ok pa'] by (simp add: entry_store_outside)
        qed
        have "walk_post root va True s r' s'"
        proof (rule walk_post_trans [OF w(2) [unfolded T] _ _ _ out])
          show "pte_at (phys ?s) root v = pte_at (phys s) root v" for v using pte_at_new [OF L] by simp
          show "free_pages ?s \<subseteq> free_pages s" using free by auto
          show "path_frames (phys ?s) root v \<subseteq> path_frames (phys s) root v \<union> free_pages s" for v
            using path_frames_new [OF L, of v] new(2) by auto
          show "machine.more ?s = machine.more s" using page_alloc_more [OF pa'] by simp
        qed
        moreover have "walk_levels (l # ls) t va create s = Some (r', s')"
          using w(1) True invalid pa' new(1) by (simp add: Let_def pte_def PageTable_alloc_def)
        ultimately show ?thesis using T card by blast
      qed
    qed
  qed
qed

lemma walk_spec:
  assumes "machine_ok s" and "tree_wf (phys s) root (free_pages s)"
  obtains r s' where "PageTable_walk root va create s = Some (r, s')" and "walk_post root va create s r s'"
    and "card (free_pages s) \<le> card (free_pages s') + 2"
  using walk_levels_spec [OF assms, of "[]" root va "[2, 1]" create]
  by (auto simp: PageTable_walk_def vpath_def)

lemma node_none_pte: "node m root (vpath va) = None \<Longrightarrow> pte_at m root va = 0"
  by (simp add: pte_at_def)

lemma node_some_pte: "node m root (vpath va) = Some t \<Longrightarrow> load64 m (entry t (vpn va 0)) = pte_at m root va"
  by (simp add: pte_at_def pte_def)

lemma virt_to_phys_eq:
  assumes "machine_ok s" and "tree_wf (phys s) root (free_pages s)"
  shows "virt_to_phys root va s = Some
    (if pte_valid (pte_at (phys s) root va) then Some (pte_pa (pte_at (phys s) root va) + (va AND 4095)) else None)"
proof -
  obtain r s' where w: "PageTable_walk root va False s = Some (r, s')" "walk_post root va False s r s'"
    by (rule walk_spec [OF assms, of va False])
  show ?thesis
  proof (cases r)
    case None
    with w show ?thesis by (simp add: virt_to_phys_def walk_post_def node_none_pte)
  next
    case (Some slot)
    with w(2) obtain t where t: "s' = s" "node (phys s) root (vpath va) = Some t" "slot = entry t (vpn va 0)"
      by (auto simp: walk_post_def)
    with w(1) Some node_some_pte [OF t(2)] show ?thesis
      by (simp add: virt_to_phys_def Let_def)
  qed
qed

section \<open>Changing a leaf entry\<close>

definition same_page :: "usize \<Rightarrow> usize \<Rightarrow> bool" where
  "same_page v va \<longleftrightarrow> vpath v = vpath va \<and> vpn v 0 = vpn va 0"

lemma store_leaf:
  fixes e :: u64
  assumes wf: "tree_wf m root F" and t: "node m root (vpath va) = Some t"
  defines "m' \<equiv> store64 m (entry t (vpn va 0)) e"
  shows "tpath q \<Longrightarrow> node m' root q = node m root q" and "tree_wf m' root F"
    and "pte_at m' root v = (if same_page v va then e else pte_at m root v)"
    and "path_frames m' root v = path_frames m root v"
    and "frame_of x \<noteq> frame_of t \<Longrightarrow> m' x = m x"
proof -
  have tal: "page_aligned t" by (rule node_aligned [OF tree_wfD(1) [OF wf] t])
  have entry': "pte m' u j = (if q = vpath va \<and> j = vpn va 0 then e else pte m u j)"
    if "tpath q" "node m root q = Some u" "j < 512" for q u j
  proof (cases "u = t \<and> j = vpn va 0")
    case True
    then have "q = vpath va" using tree_wfD(4) [OF wf that(1) tpath_va(1) that(2)] t by simp
    with True show ?thesis by (simp add: m'_def)
  next
    case False
    then have "\<not> (q = vpath va \<and> j = vpn va 0)" using t that(2) by auto
    with False pte_store_other [OF tal node_aligned [OF tree_wfD(1) [OF wf] that(2)] vpn_less that(3), of va 0 m e]
    show ?thesis by (auto simp: m'_def)
  qed
  have node': "tpath q \<Longrightarrow> node m' root q = node m root q" for q
  proof (induction q rule: rev_induct)
    case (snoc j q)
    then have q: "tpath q" "j < 512" "length q \<le> 1" by (auto simp: tpath_def)
    then have "q \<noteq> vpath va" by (auto simp: vpath_def)
    with snoc.IH [OF q(1)] entry' [OF q(1) _ q(2)] show ?case
      by (simp add: node_snoc split: option.splits)
  qed simp
  show "tpath q \<Longrightarrow> node m' root q = node m root q" by (rule node')
  have inner: "pte m' u j = pte m u j" if "tpath (q @ [j])" "node m root q = Some u" for q u j
    using entry' [of q u j] that by (auto simp: tpath_def vpath_def)
  show "tree_wf m' root F"
    unfolding tree_wf_def
  proof (intro conjI allI impI)
    fix p i u assume a: "tpath (p @ [i]) \<and> node m' root p = Some u \<and> pte_valid (pte m' u i)"
    then have "tpath p" by (auto simp: tpath_def)
    with a node' have u: "node m root p = Some u" by simp
    then have "pte m' u i = pte m u i" using a by (intro inner) auto
    with a tree_wfD(3) [OF wf _ u] show "\<not> pte_leaf (pte m' u i)" by simp
  qed (use tree_wfD(1,2) [OF wf] tree_wfD(4) [OF wf] node' in auto)
  show "pte_at m' root v = (if same_page v va then e else pte_at m root v)"
    using node' [OF tpath_va(1), of v] entry' [OF tpath_va(1) _ vpn_less, of v _ v 0] t
    by (auto simp: pte_at_def same_page_def split: option.splits)
  show "path_frames m' root v = path_frames m root v"
    unfolding path_frames_def
    by (intro Collect_cong ex_cong1 conj_cong) (simp_all add: node' tpath_prefix [OF _ tpath_va(1)])
  show "frame_of x \<noteq> frame_of t \<Longrightarrow> m' x = m x"
    unfolding m'_def by (rule entry_store_outside [OF tal vpn_less])
qed

section \<open>Mapping and unmapping\<close>

definition leaf_entry :: "usize \<Rightarrow> u64 \<Rightarrow> u64" where
  "leaf_entry pa flags = (pa_pte pa OR flags OR PTE_A OR PTE_D OR PTE_V)"

text \<open>The common part of what the operations on one page promise.\<close>

definition page_op_post :: "usize \<Rightarrow> usize \<Rightarrow> 'a machine_scheme \<Rightarrow> 'a machine_scheme \<Rightarrow> bool" where
  "page_op_post root va s s' \<longleftrightarrow> machine_ok s' \<and> tree_wf (phys s') root (free_pages s') \<and>
     free_pages s' \<subseteq> free_pages s \<and> machine.more s' = machine.more s \<and>
     (\<forall>v. path_frames (phys s') root v \<subseteq> path_frames (phys s) root v \<union> free_pages s) \<and>
     (\<forall>x. frame_of x \<notin> free_pages s \<union> path_frames (phys s) root va \<longrightarrow> phys s' x = phys s x)"

lemma walk_post_page_op: "walk_post root va create s r s' \<Longrightarrow> page_op_post root va s s'"
  by (simp add: walk_post_def page_op_post_def)

lemma page_op_store_leaf:
  assumes post: "page_op_post root va s s1" and t: "node (phys s1) root (vpath va) = Some t"
  shows "page_op_post root va s (s1\<lparr>phys := store64 (phys s1) (entry t (vpn va 0)) e\<rparr>)"
proof -
  note wf = post [unfolded page_op_post_def, THEN conjunct2, THEN conjunct1]
  have "frame_of t \<in> path_frames (phys s1) root va" using t by (auto simp: path_frames_def)
  then have tf: "frame_of t \<in> path_frames (phys s) root va \<union> free_pages s"
    using post unfolding page_op_post_def by blast
  have "store64 (phys s1) (entry t (vpn va 0)) e x = phys s x"
    if "frame_of x \<notin> free_pages s \<union> path_frames (phys s) root va" for x
  proof -
    have "frame_of x \<noteq> frame_of t" using that tf by auto
    then have "store64 (phys s1) (entry t (vpn va 0)) e x = phys s1 x" by (rule store_leaf(5) [OF wf t])
    with that post show ?thesis by (simp add: page_op_post_def)
  qed
  with post store_leaf(2,4) [OF wf t] show ?thesis by (simp add: page_op_post_def)
qed

lemma map_spec:
  assumes ok: "machine_ok s" and wf: "tree_wf (phys s) root (free_pages s)"
  obtains r s' where "PageTable_map root va pa flags s = Some (r, s')" and "page_op_post root va s s'"
    and "case r of
      Inr _ \<Rightarrow> \<not> pte_valid (pte_at (phys s) root va) \<and>
        (\<forall>v. pte_at (phys s') root v = (if same_page v va then leaf_entry pa flags else pte_at (phys s) root v))
    | Inl e \<Rightarrow> (\<forall>v. pte_at (phys s') root v = pte_at (phys s) root v) \<and>
        (if pte_valid (pte_at (phys s) root va) \<and> e = ''mmu: va already mapped'' then True
         else free_pages s' = {} \<and> e = ''mmu: out of memory for page table'')"
    and "card (free_pages s) \<le> card (free_pages s') + 2"
proof -
  obtain r s1 where w: "PageTable_walk root va True s = Some (r, s1)" "walk_post root va True s r s1"
    "card (free_pages s) \<le> card (free_pages s1) + 2"
    by (rule walk_spec [OF ok wf, of va True])
  have pte: "\<And>v. pte_at (phys s1) root v = pte_at (phys s) root v" using w(2) by (simp add: walk_post_def)
  show thesis
  proof (cases r)
    case None
    then have "free_pages s1 = {}" using w(2) by (simp add: walk_post_def)
    with None w pte walk_post_page_op [OF w(2)] show thesis
      by (intro that [of "Inl ''mmu: out of memory for page table''" s1]) (simp_all add: PageTable_map_def)
  next
    case (Some slot)
    with w(2) obtain t where t: "node (phys s1) root (vpath va) = Some t" "slot = entry t (vpn va 0)"
      and wf1: "tree_wf (phys s1) root (free_pages s1)" by (auto simp: walk_post_def)
    have e: "load64 (phys s1) slot = pte_at (phys s) root va" using node_some_pte [OF t(1)] t(2) pte by simp
    show thesis
    proof (cases "pte_valid (pte_at (phys s) root va)")
      case True
      with Some w e pte walk_post_page_op [OF w(2)] show thesis
        by (intro that [of "Inl ''mmu: va already mapped''" s1]) (simp_all add: PageTable_map_def)
    next
      case False
      let ?s = "s1\<lparr>phys := store64 (phys s1) slot (leaf_entry pa flags)\<rparr>"
      have "PageTable_map root va pa flags s = Some (Inr (), ?s)"
        using False Some w(1) e by (simp add: PageTable_map_def leaf_entry_def)
      moreover have "page_op_post root va s ?s"
        using page_op_store_leaf [OF walk_post_page_op [OF w(2)] t(1)] t(2) by simp
      ultimately show thesis
        using False store_leaf(3) [OF wf1 t(1)] t(2) pte w(3) by (intro that [of "Inr ()" ?s]) simp_all
    qed
  qed
qed

lemma unmap_spec:
  assumes ok: "machine_ok s" and wf: "tree_wf (phys s) root (free_pages s)"
  obtains s' where "PageTable_unmap root va s = Some
      (if pte_valid (pte_at (phys s) root va) then Some (pte_pa (pte_at (phys s) root va)) else None, s')"
    and "page_op_post root va s s'" and "frames s' = frames s"
    and "\<forall>v. pte_at (phys s') root v =
      (if pte_valid (pte_at (phys s) root va) \<and> same_page v va then 0 else pte_at (phys s) root v)"
proof -
  obtain r s1 where w: "PageTable_walk root va False s = Some (r, s1)" "walk_post root va False s r s1"
    by (rule walk_spec [OF ok wf, of va False])
  then have s1: "s1 = s" by (simp add: walk_post_def)
  show thesis
  proof (cases r)
    case None
    then have "pte_at (phys s) root va = 0" using w(2) by (simp add: walk_post_def node_none_pte)
    with None w s1 walk_post_page_op [OF w(2)] show thesis
      by (intro that [of s]) (simp_all add: PageTable_unmap_def)
  next
    case (Some slot)
    with w(2) s1 obtain t where t: "node (phys s) root (vpath va) = Some t" "slot = entry t (vpn va 0)"
      by (auto simp: walk_post_def)
    have e: "load64 (phys s) slot = pte_at (phys s) root va" using node_some_pte [OF t(1)] t(2) by simp
    show thesis
    proof (cases "pte_valid (pte_at (phys s) root va)")
      case True
      have post: "page_op_post root va s s" using walk_post_page_op [OF w(2)] s1 by simp
      from True show thesis
        using page_op_store_leaf [OF post t(1), of 0] store_leaf(3) [OF wf t(1), of 0] Some w(1) s1 e t(2)
        by (intro that [of "s\<lparr>phys := store64 (phys s) slot 0\<rparr>"]) (simp_all add: PageTable_unmap_def Let_def)
    next
      case False
      with Some w s1 e walk_post_page_op [OF w(2)] show thesis
        by (intro that [of s]) (simp_all add: PageTable_unmap_def Let_def)
    qed
  qed
qed

lemma leaf_entry_valid [simp]: "pte_valid (leaf_entry pa flags)"
  by (simp add: leaf_entry_def pte_valid_bit bit_0 even_or_iff)

lemma leaf_entry_pa:
  assumes "page_aligned pa" and "drop_bit 10 flags = 0"
  shows "pte_pa (leaf_entry pa flags) = pa"
proof -
  have "drop_bit 10 (flags OR PTE_A OR PTE_D OR PTE_V) = 0"
    using assms(2) by (simp add: drop_bit_or)
  with assms(1) show ?thesis unfolding leaf_entry_def by (rule pte_pa_encode)
qed

lemma same_page_pte: "same_page v w \<Longrightarrow> pte_at m root v = pte_at m root w"
  by (auto simp: same_page_def pte_at_def split: option.splits)

lemma same_page_sym: "same_page v w \<longleftrightarrow> same_page w v"
  by (auto simp: same_page_def)

lemma vpn_take_bit: "vpn va l = unat (take_bit 9 (drop_bit (12 + 9 * l) va))"
  by (simp add: vpn_def take_bit_eq_mask mask_eq_exp_minus_1)

text \<open>Two addresses have the same leaf entry when their 27-bit page numbers agree.\<close>

lemma same_page_iff: "same_page v w \<longleftrightarrow> take_bit 27 (drop_bit 12 v) = take_bit 27 (drop_bit 12 w)"
proof
  assume "same_page v w"
  then have "vpn v l = vpn w l" if "l < 3" for l
    using that by (auto simp: same_page_def vpath_def less_Suc_eq numeral_eq_Suc)
  then have eq: "take_bit 9 (drop_bit (12 + 9 * l) v) = take_bit 9 (drop_bit (12 + 9 * l) w)" if "l < 3" for l
    using that by (simp only: vpn_take_bit word_unat_eq_iff)
  show "take_bit 27 (drop_bit 12 v) = take_bit 27 (drop_bit 12 w)"
  proof (rule bit_word_eqI)
    fix n
    show "bit (take_bit 27 (drop_bit 12 v)) n = bit (take_bit 27 (drop_bit 12 w)) n"
    proof (cases "n < 27")
      case True
      then have "n div 9 < 3" by simp
      from eq [OF this] have "bit (take_bit 9 (drop_bit (12 + 9 * (n div 9)) v)) (n mod 9) =
          bit (take_bit 9 (drop_bit (12 + 9 * (n div 9)) w)) (n mod 9)" by simp
      moreover have "12 + 9 * (n div 9) + n mod 9 = 12 + n" by simp
      ultimately show ?thesis using True by (simp add: bit_take_bit_iff bit_drop_bit_eq del: mult_div_mod_eq)
    qed (simp add: bit_take_bit_iff)
  qed
next
  assume eq: "take_bit 27 (drop_bit 12 v) = take_bit 27 (drop_bit 12 w)"
  have "vpn v l = vpn w l" if "l < 3" for l
  proof -
    have l: "take_bit 9 (drop_bit (12 + 9 * l) x) = take_bit 9 (drop_bit (9 * l) (take_bit 27 (drop_bit 12 x)))" for x :: usize
      using that by (intro bit_word_eqI) (auto simp: bit_take_bit_iff bit_drop_bit_eq ac_simps)
    show ?thesis unfolding vpn_take_bit l [of v] l [of w] eq ..
  qed
  then show "same_page v w" by (simp add: same_page_def vpath_def)
qed

text \<open>
  C14: \<open>map\<close> never panics on a well-formed tree. When it succeeds the page was unmapped, it
  now translates to the given frame, and every other page translates as before; when it fails
  no translation changes, and the failure is that the page was mapped already, or that no
  frame is left for a table.
\<close>

theorem mmu_map_translates:
  assumes "machine_ok s" and "tree_wf (phys s) root (free_pages s)"
    and "page_aligned pa" and "drop_bit 10 flags = 0"
  shows "\<exists>r s'. PageTable_map root va pa flags s = Some (r, s') \<and>
    machine_ok s' \<and> tree_wf (phys s') root (free_pages s') \<and>
    (case r of
       Inr _ \<Rightarrow> virt_to_phys root va s = Some None \<and>
         (\<forall>v. virt_to_phys root v s' =
            (if same_page v va then Some (Some (pa + (v AND 4095))) else virt_to_phys root v s))
     | Inl e \<Rightarrow> (\<forall>v. virt_to_phys root v s' = virt_to_phys root v s) \<and>
         (virt_to_phys root va s \<noteq> Some None \<and> e = ''mmu: va already mapped'' \<or>
          free_pages s' = {} \<and> e = ''mmu: out of memory for page table''))"
proof -
  obtain r s' where m: "PageTable_map root va pa flags s = Some (r, s')" "page_op_post root va s s'"
    "case r of
      Inr _ \<Rightarrow> \<not> pte_valid (pte_at (phys s) root va) \<and>
        (\<forall>v. pte_at (phys s') root v = (if same_page v va then leaf_entry pa flags else pte_at (phys s) root v))
    | Inl e \<Rightarrow> (\<forall>v. pte_at (phys s') root v = pte_at (phys s) root v) \<and>
        (if pte_valid (pte_at (phys s) root va) \<and> e = ''mmu: va already mapped'' then True
         else free_pages s' = {} \<and> e = ''mmu: out of memory for page table'')"
    by (rule map_spec [OF assms(1,2)])
  then have post: "machine_ok s'" "tree_wf (phys s') root (free_pages s')" by (auto simp: page_op_post_def)
  note V = virt_to_phys_eq [OF assms(1,2)] virt_to_phys_eq [OF post]
  show ?thesis
    using m(1) post m(3) leaf_entry_pa [OF assms(3,4)]
    by (intro exI [of _ r] exI [of _ s']) (auto simp: V split: sum.splits if_splits)
qed

text \<open>
  C15: \<open>unmap\<close> returns the frame of a mapped page and removes exactly that page; on a page
  that is not mapped it changes nothing. It never panics on a well-formed tree and gives no
  table back.
\<close>

theorem mmu_unmap_removes:
  assumes "machine_ok s" and "tree_wf (phys s) root (free_pages s)"
  shows "\<exists>s'. PageTable_unmap root va s =
      Some (if pte_valid (pte_at (phys s) root va) then Some (pte_pa (pte_at (phys s) root va)) else None, s') \<and>
    machine_ok s' \<and> tree_wf (phys s') root (free_pages s') \<and> frames s' = frames s \<and>
    (\<forall>v. virt_to_phys root v s' = (if same_page v va then Some None else virt_to_phys root v s))"
proof -
  obtain s' where u: "PageTable_unmap root va s = Some
      (if pte_valid (pte_at (phys s) root va) then Some (pte_pa (pte_at (phys s) root va)) else None, s')"
    "page_op_post root va s s'" "frames s' = frames s"
    "\<forall>v. pte_at (phys s') root v =
      (if pte_valid (pte_at (phys s) root va) \<and> same_page v va then 0 else pte_at (phys s) root v)"
    by (rule unmap_spec [OF assms])
  then have post: "machine_ok s'" "tree_wf (phys s') root (free_pages s')" by (auto simp: page_op_post_def)
  note V = virt_to_phys_eq [OF assms(1,2)] virt_to_phys_eq [OF post]
  have "virt_to_phys root v s' = (if same_page v va then Some None else virt_to_phys root v s)" for v
    using u(4) same_page_pte [of v va "phys s" root] by (auto simp: V)
  with u post show ?thesis by blast
qed

text \<open>
  C16: address spaces are isolated: mapping a page in one root changes no translation of
  another root, provided none of the other root's tables lies on the path of the page.
\<close>

theorem mmu_map_isolated:
  assumes "machine_ok s" and "tree_wf (phys s) root (free_pages s)"
    and other: "tree_wf (phys s) root2 (free_pages s)"
    and apart: "\<forall>q t. tpath q \<and> node (phys s) root2 q = Some t \<longrightarrow> frame_of t \<notin> path_frames (phys s) root va"
  shows "\<exists>r s'. PageTable_map root va pa flags s = Some (r, s') \<and>
    tree_wf (phys s') root2 (free_pages s') \<and> (\<forall>v. virt_to_phys root2 v s' = virt_to_phys root2 v s)"
proof -
  obtain r s' where m: "PageTable_map root va pa flags s = Some (r, s')" and post: "page_op_post root va s s'"
    by (rule map_spec [OF assms(1,2)])
  have same: "pte (phys s') t i = pte (phys s) t i" if "tpath q" "node (phys s) root2 q = Some t" "i < 512" for q t i
  proof (rule pte_cong)
    show "page_aligned t" using node_aligned [OF tree_wfD(1) [OF other] that(2)] .
    fix x assume "frame_of x = frame_of t"
    moreover have "frame_of t \<notin> free_pages s \<union> path_frames (phys s) root va"
      using tree_wfD(2) [OF other that(1,2)] apart that by auto
    ultimately show "phys s' x = phys s x" using post by (simp add: page_op_post_def)
  qed (rule that(3))
  have wf2: "tree_wf (phys s') root2 (free_pages s')" and pte2: "pte_at (phys s') root2 v = pte_at (phys s) root2 v" for v
    using tree_agree [OF other same] post by (auto simp: page_op_post_def)
  have "machine_ok s'" using post by (simp add: page_op_post_def)
  with m wf2 pte2 show ?thesis
    by (intro exI [of _ r] exI [of _ s']) (simp add: virt_to_phys_eq [OF assms(1) other] virt_to_phys_eq)
qed

section \<open>Identity-mapping a range\<close>

text \<open>What a successful run over \<open>n\<close> pages from \<open>va\<close> leaves behind.\<close>

definition range_mapped :: "usize \<Rightarrow> usize \<Rightarrow> nat \<Rightarrow> u64 \<Rightarrow> 'a machine_scheme \<Rightarrow> 'a machine_scheme \<Rightarrow> bool" where
  "range_mapped root va n flags s s' \<longleftrightarrow>
     (\<forall>k < n. \<not> pte_valid (pte_at (phys s) root (va + word_of_nat (k * 4096))) \<and>
        pte_at (phys s') root (va + word_of_nat (k * 4096)) = leaf_entry (va + word_of_nat (k * 4096)) flags) \<and>
     (\<forall>v. (\<forall>k < n. \<not> same_page v (va + word_of_nat (k * 4096))) \<longrightarrow>
        pte_at (phys s') root v = pte_at (phys s) root v)"

lemma range_mapped_Suc:
  assumes fst: "\<not> pte_valid (pte_at (phys s) root va)"
      "\<forall>v. pte_at (phys s1) root v = (if same_page v va then leaf_entry va flags else pte_at (phys s) root v)"
    and rest: "range_mapped root (va + 4096) n flags s1 s'"
  shows "range_mapped root va (Suc n) flags s s'"
proof -
  have shift: "va + word_of_nat (Suc k * 4096) = va + 4096 + word_of_nat (k * 4096)" for k
    by (simp add: algebra_simps)
  have later: "\<not> same_page (va + 4096 + word_of_nat (k * 4096)) va" if "k < n" for k
    using rest that fst(2) by (auto simp: range_mapped_def)
  have "\<not> pte_valid (pte_at (phys s) root (va + word_of_nat (k * 4096))) \<and>
      pte_at (phys s') root (va + word_of_nat (k * 4096)) = leaf_entry (va + word_of_nat (k * 4096)) flags"
    if "k < Suc n" for k
  proof (cases k)
    case 0
    have "pte_at (phys s') root va = pte_at (phys s1) root va"
      using rest later same_page_sym unfolding range_mapped_def by blast
    with fst 0 show ?thesis by (simp add: same_page_def)
  next
    case (Suc j)
    with that rest have "\<not> pte_valid (pte_at (phys s1) root (va + 4096 + word_of_nat (j * 4096)))"
      "pte_at (phys s') root (va + 4096 + word_of_nat (j * 4096)) = leaf_entry (va + 4096 + word_of_nat (j * 4096)) flags"
      by (simp_all add: range_mapped_def)
    with later [of j] that Suc fst(2) show ?thesis unfolding Suc shift by simp
  qed
  moreover have "pte_at (phys s') root v = pte_at (phys s) root v"
    if v: "\<forall>k < Suc n. \<not> same_page v (va + word_of_nat (k * 4096))" for v
  proof -
    have "\<not> same_page v (va + 4096 + word_of_nat (k * 4096))" if "k < n" for k
      using v [rule_format, of "Suc k"] that unfolding shift by simp
    then have "pte_at (phys s') root v = pte_at (phys s1) root v" using rest by (simp add: range_mapped_def)
    with fst(2) v [rule_format, of 0] show ?thesis by simp
  qed
  ultimately show ?thesis by (simp add: range_mapped_def)
qed

lemma map_range_loop_spec:
  assumes "machine_ok s" and "tree_wf (phys s) root (free_pages s)"
    and "unat va + n * 4096 = unat end_va"
  shows "\<exists>r s'. map_range_loop root va end_va flags s = Some (r, s') \<and>
    machine_ok s' \<and> tree_wf (phys s') root (free_pages s') \<and> machine.more s' = machine.more s \<and>
    (case r of Inr _ \<Rightarrow> range_mapped root va n flags s s'
     | Inl e \<Rightarrow> e = ''mmu: va already mapped'' \<or> free_pages s' = {} \<and> e = ''mmu: out of memory for page table'')"
  using assms
proof (induction n arbitrary: va s)
  case 0
  then have "\<not> va < end_va" by (simp add: word_less_nat_alt)
  with 0 show ?case by (subst map_range_loop.simps) (auto simp: range_mapped_def)
next
  case (Suc n)
  then have lt: "va < end_va" by (simp add: word_less_nat_alt)
  obtain r s1 where m: "PageTable_map root va va flags s = Some (r, s1)" "page_op_post root va s s1"
    "case r of
      Inr _ \<Rightarrow> \<not> pte_valid (pte_at (phys s) root va) \<and>
        (\<forall>v. pte_at (phys s1) root v = (if same_page v va then leaf_entry va flags else pte_at (phys s) root v))
    | Inl e \<Rightarrow> (\<forall>v. pte_at (phys s1) root v = pte_at (phys s) root v) \<and>
        (if pte_valid (pte_at (phys s) root va) \<and> e = ''mmu: va already mapped'' then True
         else free_pages s1 = {} \<and> e = ''mmu: out of memory for page table'')"
    by (rule map_spec [OF Suc.prems(1,2)])
  then have post: "machine_ok s1" "tree_wf (phys s1) root (free_pages s1)" "machine.more s1 = machine.more s"
    by (auto simp: page_op_post_def)
  show ?case
  proof (cases r)
    case (Inl e)
    with m post lt show ?thesis by (subst map_range_loop.simps) (auto split: if_splits)
  next
    case (Inr u)
    have "unat va + 4096 \<le> unat end_va" using Suc.prems(3) by simp
    also note unat_lt_pow64
    finally have "unat (va + 4096) = unat va + 4096" using unat_add_no_wrap [of va 4096] by simp
    with Suc.prems(3) have "unat (va + 4096) + n * 4096 = unat end_va" by simp
    from Suc.IH [OF post(1,2) this] obtain r' s' where
      rest: "map_range_loop root (va + 4096) end_va flags s1 = Some (r', s')"
      "machine_ok s'" "tree_wf (phys s') root (free_pages s')" "machine.more s' = machine.more s1"
      "case r' of Inr _ \<Rightarrow> range_mapped root (va + 4096) n flags s1 s'
       | Inl e \<Rightarrow> e = ''mmu: va already mapped'' \<or> free_pages s' = {} \<and> e = ''mmu: out of memory for page table''"
      by blast
    have "map_range_loop root va end_va flags s = Some (r', s')"
      using lt m(1) Inr rest(1) by (subst map_range_loop.simps) simp
    moreover have "case r' of Inr _ \<Rightarrow> range_mapped root va (Suc n) flags s s'
       | Inl e \<Rightarrow> e = ''mmu: va already mapped'' \<or> free_pages s' = {} \<and> e = ''mmu: out of memory for page table''"
      using rest(5) range_mapped_Suc [of s root va s1 flags n s'] m(3) Inr by (auto split: sum.splits)
    ultimately show ?thesis using rest post by auto
  qed
qed

text \<open>
  \<open>map_range\<close> over \<open>[start, end)\<close> terminates without a panic. When it succeeds, every page
  the range touches (both ends rounded outwards) is identity-mapped with the given flags, was
  unmapped before, and no other translation has changed; otherwise it reports a page that was
  mapped already or the lack of frames for tables.
\<close>

lemma mmu_map_range_identity:
  assumes "machine_ok s" and "tree_wf (phys s) root (free_pages s)"
    and "unat start \<le> unat end_va" and "unat end_va + 4095 < 2 ^ 64"
  defines "n \<equiv> (unat (page_up end_va) - unat (page_down start)) div 4096"
  shows "\<exists>r s'. PageTable_map_range root start end_va flags s = Some (r, s') \<and>
    machine_ok s' \<and> tree_wf (phys s') root (free_pages s') \<and>
    (case r of Inr _ \<Rightarrow> range_mapped root (page_down start) n flags s s'
     | Inl e \<Rightarrow> e = ''mmu: va already mapped'' \<or> free_pages s' = {} \<and> e = ''mmu: out of memory for page table'')"
proof -
  have le: "unat (page_down start) \<le> unat (page_up end_va)"
    using assms(3,4) by (simp add: unat_page_down unat_page_up)
  have "4096 dvd unat (page_up end_va) - unat (page_down start)"
    using page_up_aligned [of end_va] page_aligned_page_down [of start] by (simp add: page_aligned_iff)
  then have "n * 4096 = unat (page_up end_va) - unat (page_down start)" unfolding n_def by simp
  with le have "unat (page_down start) + n * 4096 = unat (page_up end_va)" by simp
  from map_range_loop_spec [OF assms(1,2) this, of flags] show ?thesis
    unfolding PageTable_map_range_def by blast
qed

section \<open>A fresh process root\<close>

lemma copy_slots:
  assumes "page_aligned root" "page_aligned kroot" "root \<noteq> kroot" and "\<forall>i \<in> set is. i < 512"
  shows "j < 512 \<Longrightarrow> pte (fold (copy_slot kroot root) is m) root j =
      (if j \<in> set is \<and> j \<noteq> 1 then pte m kroot j else pte m root j)"
    and "page_aligned u \<Longrightarrow> u \<noteq> root \<Longrightarrow> j < 512 \<Longrightarrow> pte (fold (copy_slot kroot root) is m) u j = pte m u j"
    and "frame_of x \<noteq> frame_of root \<Longrightarrow> fold (copy_slot kroot root) is m x = m x"
proof -
  have "(j < 512 \<longrightarrow> pte (fold (copy_slot kroot root) is m) root j =
      (if j \<in> set is \<and> j \<noteq> 1 then pte m kroot j else pte m root j)) \<and>
    (page_aligned u \<and> u \<noteq> root \<and> j < 512 \<longrightarrow> pte (fold (copy_slot kroot root) is m) u j = pte m u j) \<and>
    (frame_of x \<noteq> frame_of root \<longrightarrow> fold (copy_slot kroot root) is m x = m x)"
    using assms(4)
  proof (induction "is" arbitrary: m)
    case Nil
    then show ?case by simp
  next
    case (Cons i "is")
    let ?m = "copy_slot kroot root i m"
    have i: "i < 512" using Cons.prems by simp
    have "pte ?m kroot j = pte m kroot j" if "j < 512"
      using assms(1-3) i that by (auto simp: copy_slot_def pte_store_other)
    moreover have "pte ?m root j = (if j = i \<and> j \<noteq> 1 then pte m kroot j else pte m root j)" if "j < 512"
      using assms(1) i that by (cases "j = i") (auto simp: copy_slot_def pte_store_other)
    moreover have "pte ?m u j = pte m u j" if "page_aligned u" "u \<noteq> root" "j < 512"
      using assms(1) i that by (auto simp: copy_slot_def pte_store_other)
    moreover have "?m x = m x" if "frame_of x \<noteq> frame_of root"
      using assms(1) i that by (auto simp: copy_slot_def entry_store_outside)
    ultimately show ?case using Cons.IH [of ?m] Cons.prems by auto
  qed
  then show "j < 512 \<Longrightarrow> pte (fold (copy_slot kroot root) is m) root j =
      (if j \<in> set is \<and> j \<noteq> 1 then pte m kroot j else pte m root j)"
    and "page_aligned u \<Longrightarrow> u \<noteq> root \<Longrightarrow> j < 512 \<Longrightarrow> pte (fold (copy_slot kroot root) is m) u j = pte m u j"
    and "frame_of x \<noteq> frame_of root \<Longrightarrow> fold (copy_slot kroot root) is m x = m x" by blast+
qed

lemma shared_root_tree:
  assumes wf: "tree_wf m kroot F" and root: "page_aligned root" "frame_of root \<in> F"
    and share: "\<And>j. j < 512 \<Longrightarrow> pte m' root j = (if j \<noteq> 1 then pte m kroot j else 0)"
    and keep: "\<And>u j. page_aligned u \<Longrightarrow> u \<noteq> root \<Longrightarrow> j < 512 \<Longrightarrow> frame_of u \<notin> F \<Longrightarrow> pte m' u j = pte m u j"
  shows "tree_wf m' kroot (F - {frame_of root})" and "tree_wf m' root (F - {frame_of root})"
    and "pte_at m' root v = (if vpn v 2 = 1 then 0 else pte_at m kroot v)"
    and "pte_at m' kroot v = pte_at m kroot v"
proof -
  have same: "pte m' t i = pte m t i" if "tpath q" "node m kroot q = Some t" "i < 512" for q t i
    using that node_aligned [OF tree_wfD(1) [OF wf] that(2)] tree_wfD(2) [OF wf that(1,2)] root
    by (intro keep) auto
  have agree: "node m' kroot q = node m kroot q" if "tpath q" for q
    using tree_agree(1) [OF wf _ that, of m'] same by blast
  show "tree_wf m' kroot (F - {frame_of root})"
    by (rule tree_agree(2) [OF wf]) (use same in auto)
  show "pte_at m' kroot v = pte_at m kroot v"
    by (rule tree_agree(3) [OF wf]) (use same in auto)
  have node': "node m' root q = (case q of [] \<Rightarrow> Some root | i # _ \<Rightarrow> if i = 1 then None else node m kroot q)"
    if q: "tpath q" for q
  proof (cases q)
    case (Cons i r)
    then have i: "i < 512" using q by (simp add: tpath_def)
    show ?thesis
    proof (cases "i = 1")
      case False
      then have "pte m' root i = pte m' kroot i" using share [OF i] same [of "[]" kroot i] i by simp
      then have "node m' root q = node m' kroot q" by (simp add: Cons)
      with agree [OF q] have "node m' root q = node m kroot q" by simp
      with False show ?thesis by (simp only: Cons list.case if_False)
    qed (use Cons share [OF i] in simp)
  qed simp
  have kern: "q \<noteq> [] \<and> node m kroot q = Some t \<and> hd q \<noteq> 1 \<or> q = [] \<and> t = root"
    if "tpath q" "node m' root q = Some t" for q t
    using that node' [OF that(1)] by (cases q) (auto split: if_splits)
  show "pte_at m' root v = (if vpn v 2 = 1 then 0 else pte_at m kroot v)"
    using node' [OF tpath_va(1), of v] same [OF tpath_va(1) _ vpn_less, of v _ v 0]
    by (auto simp: pte_at_def vpath_def split: option.splits)
  have notroot: "tpath q \<Longrightarrow> node m kroot q = Some t \<Longrightarrow> t \<noteq> root" for q t
    using tree_wfD(2) [OF wf, of q t] root(2) by auto
  show "tree_wf m' root (F - {frame_of root})"
    unfolding tree_wf_def
  proof (intro conjI allI impI)
    show "page_aligned root" by (rule root(1))
    show "frame_of t \<notin> F - {frame_of root}" if "tpath p \<and> node m' root p = Some t" for p t
      using that kern [of p t] tree_wfD(2) [OF wf, of p t] by auto
    show "p = q" if "tpath p \<and> tpath q \<and> node m' root p = Some t \<and> node m' root q = Some t" for p q t
      using that kern [of p t] kern [of q t] tree_wfD(4) [OF wf, of p q t] notroot [of p t] notroot [of q t] by auto
    fix p i t assume a: "tpath (p @ [i]) \<and> node m' root p = Some t \<and> pte_valid (pte m' t i)"
    then have p: "tpath p" "i < 512" by (auto simp: tpath_def)
    show "\<not> pte_leaf (pte m' t i)"
    proof (cases "p = []")
      case True
      then have "pte m' t i = pte m kroot i \<or> pte m' t i = 0" using a share [OF p(2)] by auto
      then show ?thesis using tree_wfD(3) [OF wf, of "[]" i kroot] a p by (auto simp: tpath_def)
    next
      case False
      then have t: "node m kroot p = Some t" using kern [of p t] a p by blast
      then have "pte m' t i = pte m t i" by (rule same [OF p(1) _ p(2)])
      with a tree_wfD(3) [OF wf _ t] show ?thesis by simp
    qed
  qed
qed

lemma new_user_root_spec:
  assumes ok: "machine_ok s" and wf: "tree_wf (phys s) kroot (free_pages s)"
  obtains (none) "new_user_root kroot s = (None, s)" "free_pages s = {}"
    | (some) root s' where "new_user_root kroot s = (Some root, s')" "machine_ok s'"
      "tree_wf (phys s') root (free_pages s')" "tree_wf (phys s') kroot (free_pages s')"
      "page_aligned root" "frame_of root \<in> free_pages s" "free_pages s' = free_pages s - {frame_of root}"
      "\<And>x. frame_of x \<noteq> frame_of root \<Longrightarrow> phys s' x = phys s x" "pte (phys s') root 1 = 0"
      "\<And>v. pte_at (phys s') root v = (if vpn v 2 = 1 then 0 else pte_at (phys s) kroot v)"
      "\<And>v. pte_at (phys s') kroot v = pte_at (phys s) kroot v"
proof (cases "page_alloc 1 s")
  case (Pair r s1)
  show thesis
  proof (cases r)
    case None
    with Pair page_alloc_1_None [OF ok] show thesis by (intro none) (simp_all add: new_user_root_def PageTable_alloc_def)
  next
    case (Some root)
    note pa = Pair [unfolded Some]
    have root: "page_aligned root" "frame_of root \<in> free_pages s"
      using pages.palloc_aligned [OF ok pa] pages.palloc_fresh [OF ok pa] by auto
    have kroot: "page_aligned kroot" "frame_of kroot \<notin> free_pages s"
      using tree_wfD(1) [OF wf] tree_wfD(2) [OF wf, of "[]" kroot] by auto
    then have ne: "root \<noteq> kroot" using root by auto
    let ?m = "fold (copy_slot kroot root) [0..<512] (phys s1)"
    have slots: "\<forall>i \<in> set [0..<512]. i < (512 :: nat)" by simp
    note C = copy_slots [OF root(1) kroot(1) ne slots, where m = "phys s1"]
    have keep: "pte (phys s1) u j = pte (phys s) u j" if "page_aligned u" "j < 512" "frame_of u \<notin> free_pages s" for u j
      using that pages.palloc_keeps [OF ok pa] by (intro pte_cong) auto
    have "pte (phys s1) root j = 0" if "j < 512" for j
      using pages.fresh_table_zero [OF ok pa that] by (simp add: pte_def entry_def)
    then have share: "pte ?m root j = (if j \<noteq> 1 then pte (phys s) kroot j else 0)" if "j < 512" for j
      using that C(1) [OF that] keep [OF kroot(1) that kroot(2)] by auto
    have keep': "pte ?m u j = pte (phys s) u j"
      if "page_aligned u" "u \<noteq> root" "j < 512" "frame_of u \<notin> free_pages s" for u j
      using that C(2) keep by simp
    have free: "free_pages s1 = free_pages s - {frame_of root}"
      using pages.palloc_avail [OF ok pa] by simp
    note S = shared_root_tree [OF wf root, of ?m, OF share keep']
    have out: "?m x = phys s x" if "frame_of x \<noteq> frame_of root" for x
      using that C(3) [of x] pages.palloc_store [OF ok pa, of x] by simp
    show thesis
      by (rule some [of root "s1\<lparr>phys := ?m\<rparr>"])
         (use pa root free S share [of 1] out pages.palloc_ok [OF ok pa] in \<open>simp_all add: new_user_root_def PageTable_alloc_def\<close>)
  qed
qed

text \<open>
  \<open>new_user_root\<close> fails only when no frame is left. The root it builds is well-formed, translates
  every address outside the user slot as the kernel root does and no address inside it, and
  the kernel root is not affected.
\<close>

lemma mmu_new_user_root_shares:
  assumes ok: "machine_ok s" and wf: "tree_wf (phys s) kroot (free_pages s)"
  shows "case new_user_root kroot s of
      (None, s') \<Rightarrow> s' = s \<and> free_pages s = {}
    | (Some root, s') \<Rightarrow> machine_ok s' \<and> tree_wf (phys s') root (free_pages s') \<and>
        tree_wf (phys s') kroot (free_pages s') \<and>
        (\<forall>v. virt_to_phys root v s' = (if vpn v 2 = USER_ROOT_SLOT then Some None else virt_to_phys kroot v s)) \<and>
        (\<forall>v. virt_to_phys kroot v s' = virt_to_phys kroot v s)"
proof (rule new_user_root_spec [OF ok wf])
  fix root s'
  assume n: "new_user_root kroot s = (Some root, s')" "machine_ok s'" "tree_wf (phys s') root (free_pages s')"
    "tree_wf (phys s') kroot (free_pages s')" "\<And>v. pte_at (phys s') root v = (if vpn v 2 = 1 then 0 else pte_at (phys s) kroot v)"
    "\<And>v. pte_at (phys s') kroot v = pte_at (phys s) kroot v"
  then show ?thesis by (simp add: virt_to_phys_eq [OF ok wf] virt_to_phys_eq)
qed simp

section \<open>Tearing down the user half\<close>

text \<open>
  The frames \<open>free_user_space\<close> gives back, in the order it does so: for each level-1 entry the
  leaves of the level-0 table and then that table, and at last the level-1 table.
\<close>

fun leaf_list :: "pmem \<Rightarrow> usize \<Rightarrow> nat list \<Rightarrow> nat list" where
  "leaf_list m l0 [] = []"
| "leaf_list m l0 (i # is) =
     (if pte_valid (pte m l0 i) then frame_of (pte_pa (pte m l0 i)) # leaf_list m l0 is else leaf_list m l0 is)"

fun table_list :: "pmem \<Rightarrow> usize \<Rightarrow> nat list \<Rightarrow> nat list" where
  "table_list m l1 [] = []"
| "table_list m l1 (i # is) =
     (if pte_valid (pte m l1 i)
      then leaf_list m (pte_pa (pte m l1 i)) [0..<512] @ [frame_of (pte_pa (pte m l1 i))] @ table_list m l1 is
      else table_list m l1 is)"

definition user_list :: "pmem \<Rightarrow> usize \<Rightarrow> nat list" where
  "user_list m root =
     (if pte_valid (pte m root USER_ROOT_SLOT)
      then table_list m (pte_pa (pte m root USER_ROOT_SLOT)) [0..<512] @ [frame_of (pte_pa (pte m root USER_ROOT_SLOT))]
      else [])"

definition reclaimable :: "'a machine_scheme \<Rightarrow> nat list \<Rightarrow> bool" where
  "reclaimable s fs \<longleftrightarrow> machine_ok s \<and> distinct fs \<and> set fs \<inter> free_pages s = {} \<and>
     (\<forall>f \<in> set fs. 0x80000 + first_frame (frames s) \<le> f \<and> f < 0x80000 + MAX_FRAMES)"

definition reclaimed :: "'a machine_scheme \<Rightarrow> nat list \<Rightarrow> 'a machine_scheme \<Rightarrow> bool" where
  "reclaimed s fs s' \<longleftrightarrow> machine_ok s' \<and> phys s' = phys s \<and> machine.more s' = machine.more s \<and>
     first_frame (frames s') = first_frame (frames s) \<and> free_pages s' = free_pages s \<union> set fs"

lemma reclaimed_append: "reclaimed s fs s1 \<Longrightarrow> reclaimed s1 gs s2 \<Longrightarrow> reclaimed s (fs @ gs) s2"
  by (auto simp: reclaimed_def)

lemma reclaimable_append:
  assumes "reclaimable s (fs @ gs)" and "reclaimed s fs s1"
  shows "reclaimable s1 gs"
  using assms by (auto simp: reclaimable_def reclaimed_def)

lemma reclaimable_prefix: "reclaimable s (fs @ gs) \<Longrightarrow> reclaimable s fs"
  by (auto simp: reclaimable_def)

lemma PageAllocator_free_first: "PageAllocator_free p n a = Some a' \<Longrightarrow> first_frame a' = first_frame a"
proof -
  have "free_loop fs a = Some b \<Longrightarrow> first_frame b = first_frame a" for fs a b
    by (induction fs arbitrary: a) (auto split: if_splits)
  then show "PageAllocator_free p n a = Some a' \<Longrightarrow> first_frame a' = first_frame a"
    by (auto simp: PageAllocator_free_def Let_def split: bind_splits)
qed

lemma page_free_1:
  assumes "reclaimable s [frame_of p]" and "page_aligned p"
  obtains s' where "page_free p 1 s = Some s'" and "reclaimed s [frame_of p] s'"
proof -
  define f where "f = frame_of p - 0x80000"
  have f: "first_frame (frames s) \<le> f" "f < MAX_FRAMES" "frame_of p = 0x80000 + f"
    and ok: "alloc_wf (frames s)" and used: "frame_of p \<notin> free_pages s"
    using assms(1) by (auto simp: reclaimable_def f_def machine_ok_def)
  have "frame_of p = frame_of (frame_to_addr f)" using f by (simp add: frame_of_frame_to_addr)
  then have p: "p = frame_to_addr f" using aligned_eq_iff_frame [OF assms(2) frame_to_addr_aligned] by blast
  have "is_used (frames s) f" using used f by (auto simp: free_pages_def free_set_def)
  then have "\<exists>a'. PageAllocator_free (frame_to_addr f) 1 (frames s) = Some a' \<and> alloc_wf a' \<and>
      free_set a' = free_set (frames s) \<union> {f..<f + 1}"
    using f ok by (intro PageAllocator_free_spec) auto
  then obtain a' where a': "PageAllocator_free p 1 (frames s) = Some a'" "alloc_wf a'"
    "free_set a' = insert f (free_set (frames s))" using p by auto
  then show thesis
    using that [of "s\<lparr>frames := a'\<rparr>"] f(3) PageAllocator_free_first [OF a'(1)]
    by (auto simp: page_free_def reclaimed_def machine_ok_def free_pages_def)
qed

lemma free_leaves_spec:
  assumes "reclaimable s (leaf_list (phys s) l0 is)"
  shows "\<exists>s'. free_leaves l0 is s = Some s' \<and> reclaimed s (leaf_list (phys s) l0 is) s'"
  using assms
proof (induction "is" arbitrary: s)
  case Nil
  then show ?case by (auto simp: reclaimed_def reclaimable_def)
next
  case (Cons i "is")
  show ?case
  proof (cases "pte_valid (pte (phys s) l0 i)")
    case True
    let ?p = "pte_pa (pte (phys s) l0 i)"
    have all: "reclaimable s ([frame_of ?p] @ leaf_list (phys s) l0 is)" using Cons.prems True by simp
    obtain s1 where s1: "page_free ?p 1 s = Some s1" "reclaimed s [frame_of ?p] s1"
      by (rule page_free_1 [OF reclaimable_prefix [OF all] pte_pa_aligned])
    have "phys s1 = phys s" using s1(2) by (simp add: reclaimed_def)
    with Cons.IH [of s1] reclaimable_append [OF all s1(2)] obtain s2 where
      "free_leaves l0 is s1 = Some s2" "reclaimed s1 (leaf_list (phys s) l0 is) s2" by auto
    with reclaimed_append [OF s1(2)] True s1(1) show ?thesis by (auto simp: Let_def)
  next
    case False
    with Cons show ?thesis by (simp add: Let_def)
  qed
qed

lemma free_tables_spec:
  assumes "reclaimable s (table_list (phys s) l1 is)"
  shows "\<exists>s'. free_tables l1 is s = Some s' \<and> reclaimed s (table_list (phys s) l1 is) s'"
  using assms
proof (induction "is" arbitrary: s)
  case Nil
  then show ?case by (auto simp: reclaimed_def reclaimable_def)
next
  case (Cons i "is")
  show ?case
  proof (cases "pte_valid (pte (phys s) l1 i)")
    case True
    let ?p = "pte_pa (pte (phys s) l1 i)" and ?L = "leaf_list (phys s) (pte_pa (pte (phys s) l1 i)) [0..<512]"
    have all: "reclaimable s (?L @ [frame_of ?p] @ table_list (phys s) l1 is)" using Cons.prems True by simp
    obtain s1 where s1: "free_leaves ?p [0..<512] s = Some s1" "reclaimed s ?L s1"
      using free_leaves_spec [OF reclaimable_prefix [OF all]] by blast
    have all1: "reclaimable s1 ([frame_of ?p] @ table_list (phys s) l1 is)" by (rule reclaimable_append [OF all s1(2)])
    obtain s2 where s2: "page_free ?p 1 s1 = Some s2" "reclaimed s1 [frame_of ?p] s2"
      by (rule page_free_1 [OF reclaimable_prefix [OF all1] pte_pa_aligned])
    have "phys s2 = phys s" using s1(2) s2(2) by (simp add: reclaimed_def)
    with Cons.IH [of s2] reclaimable_append [OF all1 s2(2)] obtain s3 where
      "free_tables l1 is s2 = Some s3" "reclaimed s2 (table_list (phys s) l1 is) s3" by auto
    with reclaimed_append [OF s1(2) reclaimed_append [OF s2(2)]] True s1(1) s2(1) show ?thesis
      by (auto simp: Let_def)
  next
    case False
    with Cons show ?thesis by (simp add: Let_def)
  qed
qed

text \<open>
  C17: tearing down an address space whose leaves and tables are distinct allocated frames
  neither panics nor leaks nor frees anything twice: exactly those frames become free, the
  allocator's invariant (its count of free frames included) holds, the user slot is empty, and
  no byte outside that slot has changed.
\<close>

theorem mmu_free_user_space_reclaims:
  assumes all: "reclaimable s (user_list (phys s) root)"
  shows "\<exists>s'. free_user_space root s = Some s' \<and> machine_ok s' \<and>
    free_pages s' = free_pages s \<union> set (user_list (phys s) root) \<and>
    \<not> pte_valid (pte (phys s') root USER_ROOT_SLOT) \<and>
    phys s' = (if pte_valid (pte (phys s) root USER_ROOT_SLOT)
      then store64 (phys s) (entry root USER_ROOT_SLOT) 0 else phys s)"
proof (cases "pte_valid (pte (phys s) root 1)")
  case True
  let ?p = "pte_pa (pte (phys s) root 1)"
  have all': "reclaimable s (table_list (phys s) ?p [0..<512] @ [frame_of ?p])"
    using all True by (simp add: user_list_def)
  obtain s1 where s1: "free_tables ?p [0..<512] s = Some s1" "reclaimed s (table_list (phys s) ?p [0..<512]) s1"
    using free_tables_spec [OF reclaimable_prefix [OF all']] by blast
  obtain s2 where s2: "page_free ?p 1 s1 = Some s2" "reclaimed s1 [frame_of ?p] s2"
    by (rule page_free_1 [OF reclaimable_append [OF all' s1(2)] pte_pa_aligned])
  have "reclaimed s (user_list (phys s) root) s2"
    using reclaimed_append [OF s1(2) s2(2)] True by (simp add: user_list_def)
  with True s1(1) s2(1) show ?thesis by (simp add: free_user_space_def Let_def reclaimed_def)
next
  case False
  with all show ?thesis by (simp add: free_user_space_def user_list_def reclaimable_def)
qed

section \<open>Witnesses on an empty root\<close>

definition boot_machine :: machine where
  "boot_machine = \<lparr>phys = (\<lambda>_. 0), frames = boot_frames\<rparr>"

lemma zero_mem_pte [simp]: "pte (\<lambda>_. 0) t i = 0"
  by (simp add: pte_def load64_zero)

lemma zero_mem_node: "node (\<lambda>_. 0) t p = (if p = [] then Some t else None)"
  by (cases p) auto

lemma boot_machine_ok: "machine_ok boot_machine"
  by (simp add: machine_ok_def boot_machine_def boot_frames_props)

lemma boot_free_pages: "free_pages boot_machine = {0x80200..<0x88000}"
  by (simp add: free_pages_def boot_machine_def boot_frames_props MAX_FRAMES_eq image_add_atLeastLessThan)

lemma boot_tree:
  assumes "page_aligned root" and "frame_of root \<notin> {0x80200..<0x88000}"
  shows "tree_wf (phys boot_machine) root (free_pages boot_machine)"
  using assms by (auto simp: tree_wf_def boot_free_pages) (auto simp: boot_machine_def zero_mem_node split: if_splits)

lemma boot_roots: "page_aligned 0x80000000" "page_aligned 0x80001000"
    "frame_of 0x80000000 = 0x80000" "frame_of 0x80001000 = 0x80001"
  by (simp_all add: page_aligned_def frame_of_def)

lemmas boot_root = boot_tree [OF boot_roots(1)] boot_tree [OF boot_roots(2)]

theorem mmu_map_translates_witness:
  "\<exists>s'. PageTable_map 0x80000000 0x40000000 0x80300000 0x16 boot_machine = Some (Inr (), s') \<and>
     virt_to_phys 0x80000000 0x40000123 s' = Some (Some 0x80300123)"
proof -
  have hyp: "page_aligned 0x80300000" "drop_bit 10 (0x16 :: u64) = 0" by (simp_all add: page_aligned_def)
  have same: "same_page 0x40000123 0x40000000" by (simp add: same_page_def vpath_def vpn_def)
  have unmapped: "pte_at (phys boot_machine) 0x80000000 0x40000000 = 0"
    by (simp add: pte_at_def boot_machine_def zero_mem_node vpath_def)
  have wf: "tree_wf (phys boot_machine) 0x80000000 (free_pages boot_machine)"
    by (rule boot_root(1)) (simp add: boot_roots)
  then have v: "virt_to_phys 0x80000000 0x40000000 boot_machine = Some None"
    by (simp add: virt_to_phys_eq [OF boot_machine_ok] unmapped)
  obtain r s' where m: "PageTable_map 0x80000000 0x40000000 0x80300000 0x16 boot_machine = Some (r, s')"
    and card: "card (free_pages boot_machine) \<le> card (free_pages s') + 2"
    by (rule map_spec [OF boot_machine_ok wf])
  have "free_pages s' \<noteq> {}" using card by (auto simp: boot_free_pages)
  then show ?thesis
    using mmu_map_translates [OF boot_machine_ok wf hyp, of "0x40000000"] m v same
    by (fastforce split: sum.splits)
qed

theorem mmu_unmap_removes_witness:
  "\<exists>s'. PageTable_unmap 0x80000000 0x40000000 boot_machine = Some (None, s') \<and>
     virt_to_phys 0x80000000 0x40000000 s' = Some None"
proof -
  have wf: "tree_wf (phys boot_machine) 0x80000000 (free_pages boot_machine)"
    by (rule boot_root(1)) (simp add: boot_roots)
  have "pte_at (phys boot_machine) 0x80000000 0x40000000 = 0"
    by (simp add: pte_at_def boot_machine_def zero_mem_node vpath_def)
  with mmu_unmap_removes [OF boot_machine_ok wf, of "0x40000000"] show ?thesis
    by (auto simp: same_page_def)
qed

theorem mmu_map_isolated_witness:
  "\<exists>r s'. PageTable_map 0x80000000 0x40000000 0x80300000 0x16 boot_machine = Some (r, s') \<and>
     virt_to_phys 0x80001000 0x40000000 s' = virt_to_phys 0x80001000 0x40000000 boot_machine"
proof -
  have wf: "tree_wf (phys boot_machine) 0x80000000 (free_pages boot_machine)"
      "tree_wf (phys boot_machine) 0x80001000 (free_pages boot_machine)"
    by (rule boot_root; simp add: boot_roots)+
  have "\<forall>q t. tpath q \<and> node (phys boot_machine) 0x80001000 q = Some t \<longrightarrow>
      frame_of t \<notin> path_frames (phys boot_machine) 0x80000000 0x40000000"
    by (auto simp: path_frames_def boot_machine_def zero_mem_node boot_roots split: if_splits)
  from mmu_map_isolated [OF boot_machine_ok wf this] show ?thesis by blast
qed

text \<open>A root with one user page: level-1 table, level-0 table and leaf in frames 512, 513 and 514.\<close>

definition one_page_mem :: pmem where
  "one_page_mem =
     store64 (store64 (store64 (\<lambda>_. 0) (entry 0x80000000 1) (pa_pte 0x80200000 OR 1))
       (entry 0x80200000 0) (pa_pte 0x80201000 OR 1)) (entry 0x80201000 5) (leaf_entry 0x80202000 0x16)"

definition one_page_machine :: machine where
  "one_page_machine = \<lparr>phys = one_page_mem, frames = snd (PageAllocator_alloc 3 boot_frames)\<rparr>"

lemma one_page_aligned:
  "page_aligned 0x80000000" "page_aligned 0x80200000" "page_aligned 0x80201000" "page_aligned 0x80202000"
  by (simp_all add: page_aligned_def)

lemma one_page_entries:
  "i < 512 \<Longrightarrow> pte one_page_mem 0x80000000 i = (if i = 1 then pa_pte 0x80200000 OR 1 else 0)"
  "i < 512 \<Longrightarrow> pte one_page_mem 0x80200000 i = (if i = 0 then pa_pte 0x80201000 OR 1 else 0)"
  "i < 512 \<Longrightarrow> pte one_page_mem 0x80201000 i = (if i = 5 then leaf_entry 0x80202000 0x16 else 0)"
  unfolding one_page_mem_def by (simp_all add: pte_store_other one_page_aligned del: One_nat_def)

lemma leaf_list_single:
  "distinct is \<Longrightarrow> \<forall>i \<in> set is. pte_valid (pte m l0 i) \<longleftrightarrow> i = k \<Longrightarrow>
   leaf_list m l0 is = (if k \<in> set is then [frame_of (pte_pa (pte m l0 k))] else [])"
  by (induction "is") auto

lemma table_list_single:
  "distinct is \<Longrightarrow> \<forall>i \<in> set is. pte_valid (pte m l1 i) \<longleftrightarrow> i = k \<Longrightarrow>
   table_list m l1 is = (if k \<in> set is then leaf_list m (pte_pa (pte m l1 k)) [0..<512] @
     [frame_of (pte_pa (pte m l1 k))] else [])"
  by (induction "is") (auto simp del: upt_rec_numeral)

lemma one_page_list: "user_list one_page_mem 0x80000000 = [0x80202, 0x80201, 0x80200]"
proof -
  have pa: "pte_pa (leaf_entry 0x80202000 0x16) = 0x80202000"
    by (rule leaf_entry_pa) (simp_all add: one_page_aligned)
  have "leaf_list one_page_mem 0x80201000 [0..<512] = [0x80202]"
    by (subst leaf_list_single [where k = 5]) (simp_all add: one_page_entries pa frame_of_def del: upt_rec_numeral)
  then have "table_list one_page_mem 0x80200000 [0..<512] = [0x80202, 0x80201]"
    by (subst table_list_single [where k = 0])
      (simp_all add: one_page_entries one_page_aligned frame_of_def del: upt_rec_numeral)
  then show ?thesis
    using one_page_entries(1) [of 1] by (simp add: user_list_def one_page_aligned frame_of_def del: upt_rec_numeral)
qed

lemma one_page_frames:
  "alloc_wf (frames one_page_machine)" "first_frame (frames one_page_machine) = 512"
  "free_set (frames one_page_machine) = {512..<MAX_FRAMES} - {512..<515}"
proof -
  obtain a' where a': "PageAllocator_alloc 3 boot_frames = (Some (frame_to_addr 512), a')"
    using boot_frames_alloc [of 3] by auto
  from PageAllocator_alloc_Some [OF boot_frames_props(1) a'] obtain s where
    s: "frame_to_addr 512 = frame_to_addr s" "s + 3 \<le> MAX_FRAMES" "run_at boot_frames 3 s"
    "a' = (fold set_used [s..<s + 3] boot_frames)\<lparr>free_frames := free_frames boot_frames - 3\<rparr>" by blast
  then have "s = 512" using frame_to_addr_inject [of 512 s] by (simp add: MAX_FRAMES_eq)
  with s alloc_wf_after_alloc [OF boot_frames_props(1) s(3)] have
    "alloc_wf a'" "free_set a' = {512..<MAX_FRAMES} - {512..<515}" "first_frame a' = 512"
    by (simp_all add: boot_frames_props)
  with a' show "alloc_wf (frames one_page_machine)" "first_frame (frames one_page_machine) = 512"
      "free_set (frames one_page_machine) = {512..<MAX_FRAMES} - {512..<515}"
    by (simp_all add: one_page_machine_def)
qed

lemma one_page_reclaimable: "reclaimable one_page_machine (user_list (phys one_page_machine) 0x80000000)"
proof -
  have "phys one_page_machine = one_page_mem" by (simp add: one_page_machine_def)
  then show ?thesis
    using one_page_frames by (auto simp: reclaimable_def one_page_list machine_ok_def free_pages_def MAX_FRAMES_eq)
qed

theorem mmu_free_user_space_reclaims_witness:
  "\<exists>s'. free_user_space 0x80000000 one_page_machine = Some s' \<and>
     free_pages s' = free_pages one_page_machine \<union> {0x80202, 0x80201, 0x80200}"
  using mmu_free_user_space_reclaims [OF one_page_reclaimable]
  by (auto simp: one_page_list one_page_machine_def)

end
