(* ===== verification/Strings.thy ===== *)
theory Strings
  imports Prelude
begin

text \<open>
  What the kernel uses of Rust's strings. A \<open>str\<close> is its UTF-8 bytes; a literal is a HOL string and
  \<open>str_bytes\<close> its encoding. The section on formatting holds the decimal and hexadecimal renderings of
  \<open>format!\<close>.
\<close>

definition str_bytes :: "string \<Rightarrow> u8 list" where
  "str_bytes s = map of_char s"

section \<open>UTF-8\<close>

text \<open>\<open>core::str::from_utf8\<close>: the well-formed byte sequences of UTF-8.\<close>

definition cont :: "u8 \<Rightarrow> bool" where "cont b \<longleftrightarrow> 0x80 \<le> b \<and> b \<le> 0xBF"

fun utf8_valid :: "u8 list \<Rightarrow> bool" where
  "utf8_valid [] \<longleftrightarrow> True"
| "utf8_valid (a # bs) \<longleftrightarrow>
     (if a < 0x80 then utf8_valid bs
      else if 0xC2 \<le> a \<and> a \<le> 0xDF then (case bs of b # cs \<Rightarrow> cont b \<and> utf8_valid cs | _ \<Rightarrow> False)
      else if 0xE0 \<le> a \<and> a \<le> 0xEF then
        (case bs of b # c # ds \<Rightarrow>
           (if a = 0xE0 then 0xA0 \<le> b \<and> b \<le> 0xBF else if a = 0xED then 0x80 \<le> b \<and> b \<le> 0x9F else cont b) \<and>
           cont c \<and> utf8_valid ds
         | _ \<Rightarrow> False)
      else if 0xF0 \<le> a \<and> a \<le> 0xF4 then
        (case bs of b # c # d # es \<Rightarrow>
           (if a = 0xF0 then 0x90 \<le> b \<and> b \<le> 0xBF else if a = 0xF4 then 0x80 \<le> b \<and> b \<le> 0x8F else cont b) \<and>
           cont c \<and> cont d \<and> utf8_valid es
         | _ \<Rightarrow> False)
      else False)"

text \<open>The length of a character by its first byte, and splitting a string at an ASCII character.\<close>

definition lead :: "u8 \<Rightarrow> nat" where
  "lead a = (if a < 0x80 then 1 else if 0xC2 \<le> a \<and> a \<le> 0xDF then 2 else if 0xE0 \<le> a \<and> a \<le> 0xEF then 3
     else if 0xF0 \<le> a \<and> a \<le> 0xF4 then 4 else 0)"

definition second3 :: "u8 \<Rightarrow> u8 \<Rightarrow> bool" where
  "second3 a b \<longleftrightarrow> (if a = 0xE0 then 0xA0 \<le> b \<and> b \<le> 0xBF else if a = 0xED then 0x80 \<le> b \<and> b \<le> 0x9F else cont b)"
definition second4 :: "u8 \<Rightarrow> u8 \<Rightarrow> bool" where
  "second4 a b \<longleftrightarrow> (if a = 0xF0 then 0x90 \<le> b \<and> b \<le> 0xBF else if a = 0xF4 then 0x80 \<le> b \<and> b \<le> 0x8F else cont b)"

lemma ascii_not_cont:
  assumes "(a::u8) < 0x80" shows "cont a = False" "(0xA0 \<le> a) = False" "(0x80 \<le> a) = False" "(0x90 \<le> a) = False"
  using assms by (simp_all add: cont_def word_le_nat_alt word_less_nat_alt)
lemma second_ascii: "a < 0x80 \<Longrightarrow> \<not> second3 x a" "a < 0x80 \<Longrightarrow> \<not> second4 x a"
  using ascii_not_cont [of a] by (auto simp: second3_def second4_def)

lemma utf8_lead:
  "lead a = 1 \<Longrightarrow> utf8_valid (a # bs) = utf8_valid bs"
  "lead a = 2 \<Longrightarrow> utf8_valid (a # bs) = (case bs of b # cs \<Rightarrow> cont b \<and> utf8_valid cs | _ \<Rightarrow> False)"
  "lead a = 3 \<Longrightarrow> utf8_valid (a # bs) = (case bs of b # c # ds \<Rightarrow> second3 a b \<and> cont c \<and> utf8_valid ds | _ \<Rightarrow> False)"
  "lead a = 4 \<Longrightarrow> utf8_valid (a # bs) = (case bs of b # c # d # es \<Rightarrow> second4 a b \<and> cont c \<and> cont d \<and> utf8_valid es | _ \<Rightarrow> False)"
  "lead a = 0 \<Longrightarrow> utf8_valid (a # bs) = False"
  unfolding utf8_valid.simps(2) second3_def second4_def
  by (cases "a < 0x80"; cases "0xC2 \<le> a \<and> a \<le> 0xDF"; cases "0xE0 \<le> a \<and> a \<le> 0xEF"; cases "0xF0 \<le> a \<and> a \<le> 0xF4";
      simp only: lead_def if_True if_False zero_neq_numeral one_eq_numeral_iff numeral_eq_one_iff numeral_eq_iff num.simps simp_thms zero_neq_one one_neq_zero numeral_neq_zero)+

lemma lead_cases: "lead a = 0 \<or> lead a = 1 \<or> lead a = 2 \<or> lead a = 3 \<or> lead a = 4"
  by (simp add: lead_def)

lemma utf8_ascii_split:
  assumes a: "a < 0x80"
  shows "utf8_valid (xs @ a # ys) \<longleftrightarrow> utf8_valid xs \<and> utf8_valid ys"
proof (induction "length xs" arbitrary: xs rule: less_induct)
  case less
  have "lead a = 1" using a by (simp add: lead_def)
  note n = ascii_not_cont(1) [OF a] second_ascii [OF a] utf8_lead(1) [OF this]
  show ?case
  proof (cases xs)
    case Nil
    then show ?thesis by (simp add: n del: utf8_valid.simps(2))
  next
    case (Cons x zs)
    have IH: "utf8_valid (bs @ a # ys) \<longleftrightarrow> utf8_valid bs \<and> utf8_valid ys" if "length bs \<le> length zs" for bs
      using less [of bs] that Cons by simp
    show ?thesis unfolding Cons append_Cons using lead_cases [of x] IH
      by (elim disjE; simp add: utf8_lead n del: utf8_valid.simps(2))
         (auto simp: n append_eq_Cons_conv simp del: utf8_valid.simps(2) split: list.split)
  qed
qed

section \<open>Trimming\<close>

text \<open>
  The number of bytes of the white-space character at the head of a string, 0 if there is none; the
  code points are those of \<open>char::is_whitespace\<close>. \<open>ws_tail\<close> reads the bytes of a reversed string.
\<close>

definition ws3 :: "u8 \<Rightarrow> u8 \<Rightarrow> u8 \<Rightarrow> bool" where
  "ws3 a b c \<longleftrightarrow> a = 0xe1 \<and> b = 0x9a \<and> c = 0x80 \<or>
     a = 0xe2 \<and> b = 0x80 \<and> (0x80 \<le> c \<and> c \<le> 0x8a \<or> c = 0xa8 \<or> c = 0xa9 \<or> c = 0xaf) \<or>
     a = 0xe2 \<and> b = 0x81 \<and> c = 0x9f \<or> a = 0xe3 \<and> b = 0x80 \<and> c = 0x80"

definition ws2 :: "u8 \<Rightarrow> u8 \<Rightarrow> bool" where "ws2 a b \<longleftrightarrow> a = 0xc2 \<and> (b = 0x85 \<or> b = 0xa0)"
definition ws1 :: "u8 \<Rightarrow> bool" where "ws1 a \<longleftrightarrow> 9 \<le> a \<and> a \<le> 13 \<or> a = 32"

fun ws_head :: "u8 list \<Rightarrow> nat" where
  "ws_head (a # b # c # bs) = (if ws1 a then 1 else if ws2 a b then 2 else if ws3 a b c then 3 else 0)"
| "ws_head [a, b] = (if ws1 a then 1 else if ws2 a b then 2 else 0)"
| "ws_head [a] = (if ws1 a then 1 else 0)"
| "ws_head [] = 0"

fun ws_tail :: "u8 list \<Rightarrow> nat" where
  "ws_tail (a # b # c # bs) = (if ws1 a then 1 else if ws2 b a then 2 else if ws3 c b a then 3 else 0)"
| "ws_tail [a, b] = (if ws1 a then 1 else if ws2 b a then 2 else 0)"
| "ws_tail [a] = (if ws1 a then 1 else 0)"
| "ws_tail [] = 0"

function trim_with :: "(u8 list \<Rightarrow> nat) \<Rightarrow> u8 list \<Rightarrow> u8 list" where
  "trim_with w bs = (if bs = [] \<or> w bs = 0 then bs else trim_with w (drop (w bs) bs))"
  by pat_completeness auto
termination by (relation "measure (\<lambda>(w, bs). length bs)") auto

declare trim_with.simps [simp del]

definition trim :: "u8 list \<Rightarrow> u8 list" where
  "trim bs = rev (trim_with ws_tail (rev (trim_with ws_head bs)))"

lemma trim_with_stop: "w bs = 0 \<Longrightarrow> trim_with w bs = bs"
  by (subst trim_with.simps) simp

lemma trim_with_ascii:
  assumes "\<And>a bs. ws1 a \<Longrightarrow> w (a # bs) = 1" and "\<forall>a \<in> set ws. ws1 a" and "w bs = 0"
  shows "trim_with w (ws @ bs) = bs"
  using assms(2)
proof (induction ws)
  case Nil
  then show ?case by (simp add: trim_with_stop assms(3))
next
  case (Cons a ws)
  then show ?case by (subst trim_with.simps) (simp add: assms(1))
qed

lemma ws_head_ascii: "ws1 a \<Longrightarrow> ws_head (a # bs) = 1" and ws_tail_ascii: "ws1 a \<Longrightarrow> ws_tail (a # bs) = 1"
  by (cases "a # bs" rule: ws_head.cases; simp) (cases "a # bs" rule: ws_tail.cases; simp)

text \<open>Trimming takes ASCII white space off both ends of a string that has none there itself.\<close>

lemma trim_ascii:
  assumes "\<forall>a \<in> set pre. ws1 a" and "\<forall>a \<in> set post. ws1 a"
    and "ws_head (bs @ post) = 0" and "ws_tail (rev bs) = 0"
  shows "trim (pre @ bs @ post) = bs"
  using trim_with_ascii [where w = ws_head, OF ws_head_ascii assms(1,3)]
    trim_with_ascii [where w = ws_tail and ws = "rev post" and bs = "rev bs", OF ws_tail_ascii] assms(2,4)
  by (simp add: trim_def)

section \<open>Formatting\<close>

fun digits :: "nat \<Rightarrow> nat \<Rightarrow> nat list" where
  "digits b n = (if b < 2 \<or> n < b then [n] else digits b (n div b) @ [n mod b])"

declare digits.simps [simp del]

definition digit_char :: "nat \<Rightarrow> char" where
  "digit_char d = char_of (if d < 10 then 48 + d else 87 + d)"

definition fmt_dec :: "nat \<Rightarrow> string" where "fmt_dec n = map digit_char (digits 10 n)"
definition fmt_hex :: "nat \<Rightarrow> string" where "fmt_hex n = ''0x'' @ map digit_char (digits 16 n)"

definition pad_left :: "nat \<Rightarrow> string \<Rightarrow> string" where
  "pad_left w s = replicate (w - length s) (CHR '' '') @ s"

definition pad_right :: "nat \<Rightarrow> string \<Rightarrow> string" where
  "pad_right w s = s @ replicate (w - length s) (CHR '' '')"

text \<open>Reading a decimal number back.\<close>

definition from_digits :: "nat \<Rightarrow> nat list \<Rightarrow> nat" where
  "from_digits b = foldl (\<lambda>n d. n * b + d) 0"

lemma from_digits_digits: "2 \<le> b \<Longrightarrow> from_digits b (digits b n) = n"
proof (induction b n rule: digits.induct)
  case (1 b n)
  then show ?case by (subst digits.simps) (simp add: from_digits_def)
qed

lemma digits_inject: "2 \<le> b \<Longrightarrow> digits b m = digits b n \<longleftrightarrow> m = n"
  by (metis from_digits_digits)

end
