(* ===== verification/Uaccess.thy ===== *)
theory Uaccess
  imports Mmu Strings
begin

unbundle bit_operations_syntax

text \<open>
  \<open>kernel/mem/uaccess.rs\<close>: copies between the kernel and a process address space, page by page
  through the process's page table. The lemmas relate the page-wise loops to the byte-wise
  translation of the user range: a copy touches exactly the bytes the range translates to,
  fails exactly when the range leaves the user window or has a hole, and what is copied out
  reads back.
\<close>

section \<open>The copies\<close>

definition USER_VA_START :: usize where [simp]: "USER_VA_START = 0x40000000"
definition USER_VA_END :: usize where [simp]: "USER_VA_END = 0x80000000"

definition check_range :: "usize \<Rightarrow> usize \<Rightarrow> unit result" where
  "check_range uva len =
     (case checked_add uva len of
        None \<Rightarrow> Inl ''uaccess: address overflow''
      | Some end_va \<Rightarrow>
          if uva < USER_VA_START \<or> end_va > USER_VA_END then Inl ''uaccess: address outside user window''
          else Inr ())"

text \<open>
  The loop of \<open>copy_out\<close>; \<open>va\<close> is \<open>uva + done\<close> and \<open>src\<close> the bytes still to copy. The
  outer option is a panic of the walk.
\<close>

definition chunk :: "usize \<Rightarrow> nat \<Rightarrow> nat" where
  "chunk va len = min (4096 - unat va mod 4096) len"

lemma chunk_pos: "0 < len \<Longrightarrow> 0 < chunk va len"
proof -
  assume "0 < len"
  moreover have "unat va mod 4096 < 4096" by simp
  ultimately show "0 < chunk va len" unfolding chunk_def by linarith
qed

lemma chunk_le: "chunk va len \<le> len" "unat va mod 4096 + chunk va len \<le> 4096"
  by (simp_all add: chunk_def)

function copy_out_loop :: "usize \<Rightarrow> usize \<Rightarrow> u8 list \<Rightarrow> 'a machine_scheme \<Rightarrow>
    (unit result \<times> 'a machine_scheme) run" where
  "copy_out_loop root va src s =
     (if src = [] then Some (Inr (), s)
      else do { t \<leftarrow> virt_to_phys root va s;
                (case t of
                   None \<Rightarrow> Some (Inl ''uaccess: unmapped user address'', s)
                 | Some pa \<Rightarrow>
                     (let n = chunk va (length src)
                      in copy_out_loop root (va + word_of_nat n) (drop n src)
                           (s\<lparr>phys := store_bytes (phys s) pa (take n src)\<rparr>))) })"
  by pat_completeness auto

termination copy_out_loop
  by (relation "measure (\<lambda>(root, va, src, s). length src)") (auto simp: chunk_pos)

definition copy_out :: "usize \<Rightarrow> usize \<Rightarrow> u8 list \<Rightarrow> 'a machine_scheme \<Rightarrow>
    (unit result \<times> 'a machine_scheme) run" where
  "copy_out root uva src s =
     (case check_range uva (word_of_nat (length src)) of
        Inl e \<Rightarrow> Some (Inl e, s)
      | Inr _ \<Rightarrow> copy_out_loop root uva src s)"

text \<open>
  The loop of \<open>copy_in\<close>; the result carries the bytes it has put into \<open>dst\<close> (on an error the
  callers discard the buffer).
\<close>

function copy_in_loop :: "usize \<Rightarrow> usize \<Rightarrow> nat \<Rightarrow> 'a machine_scheme \<Rightarrow> u8 list result run" where
  "copy_in_loop root va len s =
     (if len = 0 then Some (Inr [])
      else do { t \<leftarrow> virt_to_phys root va s;
                (case t of
                   None \<Rightarrow> Some (Inl ''uaccess: unmapped user address'')
                 | Some pa \<Rightarrow>
                     (let n = chunk va len
                      in do { r \<leftarrow> copy_in_loop root (va + word_of_nat n) (len - n) s;
                              Some (case r of Inl e \<Rightarrow> Inl e
                                    | Inr bs \<Rightarrow> Inr (load_bytes (phys s) pa n @ bs)) })) })"
  by pat_completeness auto

termination copy_in_loop
  by (relation "measure (\<lambda>(root, va, len, s). len)") (auto simp: chunk_pos)

definition copy_in :: "usize \<Rightarrow> usize \<Rightarrow> nat \<Rightarrow> 'a machine_scheme \<Rightarrow> u8 list result run" where
  "copy_in root uva len s =
     (case check_range uva (word_of_nat len) of
        Inl e \<Rightarrow> Some (Inl e)
      | Inr _ \<Rightarrow> copy_in_loop root uva len s)"

declare copy_out_loop.simps [simp del] copy_in_loop.simps [simp del]

text \<open>The loop of \<open>copy_in_cstr\<close> over the indices of the buffer but the last; \<open>acc\<close> is \<open>buf[..i]\<close>.\<close>

fun copy_in_cstr_loop :: "usize \<Rightarrow> usize \<Rightarrow> nat list \<Rightarrow> u8 list \<Rightarrow> 'a machine_scheme \<Rightarrow> u8 list result run" where
  "copy_in_cstr_loop root uva [] acc s = Some (Inl ''uaccess: string too long'')"
| "copy_in_cstr_loop root uva (i # is) acc s =
     do { r \<leftarrow> copy_in root (uva + word_of_nat i) 1 s;
          (case r of
             Inl e \<Rightarrow> Some (Inl e)
           | Inr byte \<Rightarrow>
               if hd byte = 0 then
                 Some (if utf8_valid acc then Inr acc else Inl ''uaccess: invalid UTF-8'')
               else copy_in_cstr_loop root uva is (acc @ [hd byte]) s) }"

definition copy_in_cstr :: "usize \<Rightarrow> usize \<Rightarrow> nat \<Rightarrow> 'a machine_scheme \<Rightarrow> u8 list result run" where
  "copy_in_cstr root uva buf_len s = copy_in_cstr_loop root uva [0..<buf_len - 1] [] s"

section \<open>Byte-wise translation\<close>

definition utrans :: "pmem \<Rightarrow> usize \<Rightarrow> usize \<Rightarrow> usize option" where
  "utrans m root va =
     (if pte_valid (pte_at m root va) then Some (pte_pa (pte_at m root va) + (va AND 4095)) else None)"

lemma virt_to_phys_utrans:
  "machine_ok s \<Longrightarrow> tree_wf (phys s) root (free_pages s) \<Longrightarrow> virt_to_phys root va s = Some (utrans (phys s) root va)"
  by (simp add: virt_to_phys_eq utrans_def)

lemma va_in_page:
  fixes va :: usize
  assumes "unat va mod 4096 + k < 4096"
  shows "unat (va + word_of_nat k) = unat va + k"
    and "drop_bit 12 (va + word_of_nat k) = drop_bit 12 va"
    and "(va + word_of_nat k) AND 4095 = (va AND 4095) + word_of_nat k"
proof -
  define q where "q = unat va div 4096"
  define o' where "o' = unat va mod 4096"
  have va: "unat va = 4096 * q + o'" by (simp add: q_def o'_def)
  have "unat va < 2 ^ 64" using unat_lt_pow64 [of va] by simp
  with va have "q < 2 ^ 52" by simp
  have o': "o' + k < 4096" using assms by (simp add: o'_def)
  with \<open>q < 2 ^ 52\<close> have "unat va + k < 2 ^ 64" by (simp add: va)
  then show sum: "unat (va + word_of_nat k) = unat va + k" by (rule unat_add_no_wrap)
  have div: "(unat va + k) div 4096 = q" "(unat va + k) mod 4096 = o' + k"
    using o' by (simp_all add: va add.assoc)
  have "unat (drop_bit 12 (va + word_of_nat k)) = unat (drop_bit 12 va)"
    by (simp add: drop_bit_eq_div unat_div sum div flip: q_def)
  then show "drop_bit 12 (va + word_of_nat k) = drop_bit 12 va" by (simp only: word_unat_eq_iff)
  have "unat ((va AND 4095) + word_of_nat k) = o' + k"
  proof -
    have "unat (va AND 4095) = o'" by (simp only: page_offset_eq_take_bit unat_take_bit_12 o'_def)
    moreover have "o' + k < 2 ^ 64" using o' by simp
    ultimately show ?thesis using unat_add_no_wrap [of "va AND 4095" k] by simp
  qed
  moreover have "unat ((va + word_of_nat k) AND 4095) = o' + k"
    by (simp only: page_offset_eq_take_bit unat_take_bit_12 sum div)
  ultimately show "(va + word_of_nat k) AND 4095 = (va AND 4095) + word_of_nat k"
    by (simp only: word_unat_eq_iff)
qed

lemma utrans_in_page:
  assumes "unat va mod 4096 + k < 4096"
  shows "utrans m root (va + word_of_nat k) = map_option (\<lambda>pa. pa + word_of_nat k) (utrans m root va)"
proof -
  have "same_page (va + word_of_nat k) va" using va_in_page(2) [OF assms] by (simp add: same_page_iff)
  with va_in_page(3) [OF assms] show ?thesis
    by (simp add: utrans_def same_page_pte add.assoc)
qed

lemma utrans_frame: "utrans m root va = Some pa \<Longrightarrow> frame_of pa = frame_of (pte_pa (pte_at m root va))"
proof -
  have "unat (va AND 4095) < 4096" by (simp only: page_offset_eq_take_bit unat_take_bit_12)
  then have "frame_of (pte_pa (pte_at m root va) + (va AND 4095)) = frame_of (pte_pa (pte_at m root va))"
    using frame_of_add [OF pte_pa_aligned, of "unat (va AND 4095)"] by simp
  then show "utrans m root va = Some pa \<Longrightarrow> frame_of pa = frame_of (pte_pa (pte_at m root va))"
    by (auto simp: utrans_def split: if_splits)
qed

section \<open>Copying out\<close>

definition table_frames :: "pmem \<Rightarrow> usize \<Rightarrow> nat set" where
  "table_frames m root = {f. \<exists>q t. tpath q \<and> node m root q = Some t \<and> f = frame_of t}"

text \<open>No byte of the range is mapped onto one of the root's own tables.\<close>

definition off_tables :: "pmem \<Rightarrow> usize \<Rightarrow> usize \<Rightarrow> nat \<Rightarrow> bool" where
  "off_tables m root va len \<longleftrightarrow>
     (\<forall>k < len. \<forall>pa. utrans m root (va + word_of_nat k) = Some pa \<longrightarrow> frame_of pa \<notin> table_frames m root)"

definition range_bytes :: "pmem \<Rightarrow> usize \<Rightarrow> usize \<Rightarrow> nat \<Rightarrow> usize set" where
  "range_bytes m root va len = {x. \<exists>k < len. utrans m root (va + word_of_nat k) = Some x}"

definition range_mapped_all :: "pmem \<Rightarrow> usize \<Rightarrow> usize \<Rightarrow> nat \<Rightarrow> bool" where
  "range_mapped_all m root va len \<longleftrightarrow> (\<forall>k < len. utrans m root (va + word_of_nat k) \<noteq> None)"

definition range_inj :: "pmem \<Rightarrow> usize \<Rightarrow> usize \<Rightarrow> nat \<Rightarrow> bool" where
  "range_inj m root va len \<longleftrightarrow>
     (\<forall>j < len. \<forall>k < len. utrans m root (va + word_of_nat j) = utrans m root (va + word_of_nat k) \<and>
        utrans m root (va + word_of_nat j) \<noteq> None \<longrightarrow> j = k)"

lemma store_off_tables:
  assumes wf: "tree_wf m root F" and off: "\<And>x. m' x \<noteq> m x \<Longrightarrow> frame_of x \<notin> table_frames m root"
  shows "tree_wf m' root F" and "pte_at m' root v = pte_at m root v" and "table_frames m' root = table_frames m root"
    and "utrans m' root v = utrans m root v"
proof -
  have same: "pte m' t i = pte m t i" if "tpath q" "node m root q = Some t" "i < 512" for q t i
  proof (rule pte_cong)
    show "page_aligned t" using node_aligned [OF tree_wfD(1) [OF wf] that(2)] .
    fix x assume "frame_of x = frame_of t"
    then have "frame_of x \<in> table_frames m root" using that by (auto simp: table_frames_def)
    then show "m' x = m x" using off by blast
  qed (rule that(3))
  show "tree_wf m' root F" by (rule tree_agree(2) [OF wf]) (use same in auto)
  show pte: "pte_at m' root v = pte_at m root v" for v by (rule tree_agree(3) [OF wf]) (use same in auto)
  have node: "node m' root q = node m root q" if "tpath q" for q
    using tree_agree(1) [OF wf _ that, of m'] same by blast
  show "table_frames m' root = table_frames m root"
    unfolding table_frames_def by (intro Collect_cong ex_cong1 conj_cong) (simp_all add: node)
  show "utrans m' root v = utrans m root v" by (simp add: utrans_def pte)
qed

lemma store_bytes_changes:
  "store_bytes m pa bs x \<noteq> m x \<Longrightarrow> \<exists>k < length bs. x = pa + word_of_nat k"
  by (rule exI [of _ "unat (x - pa)"]) (auto simp: store_bytes_def split: if_splits)

lemma split_index: "(k :: nat) < len \<Longrightarrow> n \<le> len \<Longrightarrow> k < n \<or> (\<exists>j < len - n. k = n + j)"
  by presburger

lemma copy_out_loop_spec:
  assumes "machine_ok s" and "tree_wf (phys s) root (free_pages s)" and "off_tables (phys s) root va (length src)"
  shows "\<exists>r m'. copy_out_loop root va src s = Some (r, s\<lparr>phys := m'\<rparr>) \<and>
    (\<forall>x. x \<notin> range_bytes (phys s) root va (length src) \<longrightarrow> m' x = phys s x) \<and>
    r = (if range_mapped_all (phys s) root va (length src) then Inr () else Inl ''uaccess: unmapped user address'') \<and>
    (r = Inr () \<and> range_inj (phys s) root va (length src) \<longrightarrow>
      (\<forall>k < length src. \<forall>pa. utrans (phys s) root (va + word_of_nat k) = Some pa \<longrightarrow> m' pa = src ! k))"
  using assms
proof (induction root va src s rule: copy_out_loop.induct)
  case (1 root va src s)
  note ok = "1.prems"(1) and wf = "1.prems"(2) and off = "1.prems"(3)
  let ?m = "phys s"
  show ?case
  proof (cases "src = []")
    case True
    then have "copy_out_loop root va src s = Some (Inr (), s\<lparr>phys := phys s\<rparr>)"
      by (simp add: copy_out_loop.simps)
    then show ?thesis
      by (intro exI [of _ "Inr ()"] exI [of _ "phys s"]) (simp add: True range_mapped_all_def)
  next
    case False
    let ?n = "chunk va (length src)"
    have n: "0 < ?n" "?n \<le> length src" "unat va mod 4096 + ?n \<le> 4096"
      using False chunk_pos [of "length src" va] chunk_le by auto
    show ?thesis
    proof (cases "utrans ?m root va")
      case None
      then have "copy_out_loop root va src s = Some (Inl ''uaccess: unmapped user address'', s\<lparr>phys := phys s\<rparr>)"
        using False by (subst copy_out_loop.simps) (simp add: virt_to_phys_utrans [OF ok wf])
      moreover have "\<not> range_mapped_all ?m root va (length src)"
        using None False by (auto simp: range_mapped_all_def intro!: exI [of _ 0])
      ultimately show ?thesis
        by (intro exI [of _ "Inl ''uaccess: unmapped user address''"] exI [of _ "phys s"]) simp
    next
      case (Some pa)
      let ?m1 = "store_bytes ?m pa (take ?n src)" and ?va1 = "va + word_of_nat ?n"
      let ?s1 = "s\<lparr>phys := ?m1\<rparr>"
      have fst_chunk: "utrans ?m root (va + word_of_nat k) = Some (pa + word_of_nat k)" if "k < ?n" for k
        using utrans_in_page [of va k ?m root] that n(3) Some by simp
      have shift: "?va1 + word_of_nat j = va + word_of_nat (?n + j)" for j by (simp add: add.assoc)
      have changed: "frame_of x \<notin> table_frames ?m root" if ch: "?m1 x \<noteq> ?m x" for x
      proof -
        obtain k where k: "k < ?n" "x = pa + word_of_nat k" using store_bytes_changes [OF ch] by auto
        then have "k < length src" using n(2) by simp
        with fst_chunk [OF k(1)] k(2) off show ?thesis unfolding off_tables_def by blast
      qed
      have S1: "tree_wf ?m1 root (free_pages s)" and S3: "table_frames ?m1 root = table_frames ?m root"
        and S4: "utrans ?m1 root v = utrans ?m root v" for v
        using store_off_tables [OF wf, of ?m1] changed by blast+
      have "off_tables ?m1 root ?va1 (length (drop ?n src))"
        unfolding off_tables_def S3 S4 shift
      proof (intro allI impI)
        fix j p assume "j < length (drop ?n src)" "utrans ?m root (va + word_of_nat (?n + j)) = Some p"
        moreover from this n(2) have "?n + j < length src" by simp
        ultimately show "frame_of p \<notin> table_frames ?m root" using off unfolding off_tables_def by blast
      qed
      then have IH: "\<exists>r m'. copy_out_loop root ?va1 (drop ?n src) ?s1 = Some (r, ?s1\<lparr>phys := m'\<rparr>) \<and>
        (\<forall>x. x \<notin> range_bytes (phys ?s1) root ?va1 (length (drop ?n src)) \<longrightarrow> m' x = phys ?s1 x) \<and>
        r = (if range_mapped_all (phys ?s1) root ?va1 (length (drop ?n src)) then Inr () else Inl ''uaccess: unmapped user address'') \<and>
        (r = Inr () \<and> range_inj (phys ?s1) root ?va1 (length (drop ?n src)) \<longrightarrow>
          (\<forall>k < length (drop ?n src). \<forall>pa. utrans (phys ?s1) root (?va1 + word_of_nat k) = Some pa \<longrightarrow> m' pa = drop ?n src ! k))"
        using "1.IH" [OF False, of "Some pa" pa ?n] ok wf S1 Some
        by (simp add: virt_to_phys_utrans [OF ok wf])
      have B: "range_bytes ?m1 root v l = range_bytes ?m root v l"
        "range_mapped_all ?m1 root v l = range_mapped_all ?m root v l"
        "range_inj ?m1 root v l = range_inj ?m root v l" for v l
        by (simp_all add: range_bytes_def range_mapped_all_def range_inj_def S4)
      from IH obtain r m' where loop: "copy_out_loop root ?va1 (drop ?n src) ?s1 = Some (r, s\<lparr>phys := m'\<rparr>)"
        and out: "\<forall>x. x \<notin> range_bytes ?m root ?va1 (length src - ?n) \<longrightarrow> m' x = ?m1 x"
        and r: "r = (if range_mapped_all ?m root ?va1 (length src - ?n) then Inr () else Inl ''uaccess: unmapped user address'')"
        and content: "r = Inr () \<and> range_inj ?m root ?va1 (length src - ?n) \<longrightarrow>
          (\<forall>k < length src - ?n. \<forall>pa. utrans ?m root (?va1 + word_of_nat k) = Some pa \<longrightarrow> m' pa = drop ?n src ! k)"
        by (simp add: B S4) blast
      have step: "copy_out_loop root va src s = Some (r, s\<lparr>phys := m'\<rparr>)"
        using False Some loop by (subst copy_out_loop.simps) (simp add: virt_to_phys_utrans [OF ok wf] Let_def)
      have idx: "j < length src - ?n \<Longrightarrow> ?n + j < length src" for j by simp
      have tail: "range_bytes ?m root ?va1 (length src - ?n) \<subseteq> range_bytes ?m root va (length src)"
        unfolding range_bytes_def shift using idx by blast
      have head: "x \<in> range_bytes ?m root va (length src)" if ch: "?m1 x \<noteq> ?m x" for x
      proof -
        obtain k where k: "k < ?n" "x = pa + word_of_nat k" using store_bytes_changes [OF ch] by auto
        moreover from this n(2) have "k < length src" by simp
        ultimately show ?thesis using fst_chunk unfolding range_bytes_def by blast
      qed
      have all: "range_mapped_all ?m root va (length src) \<longleftrightarrow> range_mapped_all ?m root ?va1 (length src - ?n)"
        unfolding range_mapped_all_def shift using fst_chunk split_index [OF _ n(2)] idx
        by (metis option.distinct(1))
      have inj: "range_inj ?m root ?va1 (length src - ?n)" if "range_inj ?m root va (length src)"
        unfolding range_inj_def shift using that idx unfolding range_inj_def by (metis add_left_cancel)
      have put: "m' p = src ! k"
        if R: "r = Inr ()" "range_inj ?m root va (length src)" "k < length src" "utrans ?m root (va + word_of_nat k) = Some p"
        for k p
      proof (cases "k < ?n")
        case True
        then have p: "p = pa + word_of_nat k" using fst_chunk R(4) by simp
        have "p \<notin> range_bytes ?m root ?va1 (length src - ?n)"
        proof
          assume "p \<in> range_bytes ?m root ?va1 (length src - ?n)"
          then obtain j where j: "j < length src - ?n" "utrans ?m root (va + word_of_nat (?n + j)) = Some p"
            unfolding range_bytes_def shift by blast
          with R(2) [unfolded range_inj_def, rule_format, of k "?n + j"] R(3,4) idx [OF j(1)] have "k = ?n + j" by simp
          with True show False by simp
        qed
        then have "m' p = ?m1 p" using out by blast
        moreover have "k < 2 ^ 64" using True n(3) by simp
        ultimately show ?thesis using True n(2) by (simp add: p store_bytes_def)
      next
        case False
        then obtain j where j: "j < length src - ?n" "k = ?n + j" using split_index [OF R(3) n(2)] by blast
        with content R(1) inj [OF R(2)] R(4) n(2) show ?thesis unfolding shift by simp
      qed
      show ?thesis
      proof (intro exI conjI allI impI)
        show "copy_out_loop root va src s = Some (r, s\<lparr>phys := m'\<rparr>)" by (rule step)
        show "m' x = ?m x" if x: "x \<notin> range_bytes ?m root va (length src)" for x
        proof -
          have "m' x = ?m1 x" using x tail out by blast
          also have "\<dots> = ?m x" using x head [of x] by blast
          finally show ?thesis .
        qed
        show "r = (if range_mapped_all ?m root va (length src) then Inr () else Inl ''uaccess: unmapped user address'')"
          using r all by simp
      qed (use put in blast)
    qed
  qed
qed

section \<open>Copying in\<close>

lemma copy_in_loop_spec:
  assumes "machine_ok s" and "tree_wf (phys s) root (free_pages s)"
  shows "copy_in_loop root va len s = Some
    (if range_mapped_all (phys s) root va len
     then Inr (map (\<lambda>k. phys s (the (utrans (phys s) root (va + word_of_nat k)))) [0..<len])
     else Inl ''uaccess: unmapped user address'')"
  using assms
proof (induction root va len s rule: copy_in_loop.induct)
  case (1 root va len s)
  note ok = "1.prems"(1) and wf = "1.prems"(2)
  let ?m = "phys s" and ?n = "chunk va len"
  let ?g = "\<lambda>v k. ?m (the (utrans ?m root (v + word_of_nat k)))"
  show ?case
  proof (cases "len = 0 \<or> utrans ?m root va = None")
    case True
    then show ?thesis
      by (subst copy_in_loop.simps)
        (auto simp: virt_to_phys_utrans [OF ok wf] range_mapped_all_def intro!: exI [of _ 0])
  next
    case False
    then obtain pa where pa: "utrans ?m root va = Some pa" and len: "0 < len" by auto
    have n: "?n \<le> len" "unat va mod 4096 + ?n \<le> 4096" by (rule chunk_le)+
    have fst_chunk: "utrans ?m root (va + word_of_nat k) = Some (pa + word_of_nat k)" if "k < ?n" for k
      using utrans_in_page [of va k ?m root] that n(2) pa by simp
    let ?va1 = "va + word_of_nat ?n"
    have shift: "?va1 + word_of_nat j = va + word_of_nat (?n + j)" for j by (simp add: add.assoc)
    have all: "range_mapped_all ?m root va len \<longleftrightarrow> range_mapped_all ?m root ?va1 (len - ?n)"
      unfolding range_mapped_all_def shift using fst_chunk split_index [OF _ n(1)]
      by (metis less_diff_conv2 n(1) add.commute less_diff_conv option.distinct(1))
    have IH: "copy_in_loop root ?va1 (len - ?n) s = Some
      (if range_mapped_all ?m root ?va1 (len - ?n) then Inr (map (?g ?va1) [0..<len - ?n])
       else Inl ''uaccess: unmapped user address'')"
      using "1.IH" [of "Some pa" pa ?n] len pa ok wf by (simp add: virt_to_phys_utrans [OF ok wf])
    have "[0..<len] = [0..<?n] @ [?n..<?n + (len - ?n)]"
      using n(1) upt_add_eq_append [of 0 ?n "len - ?n"] by simp
    then have "map (?g va) [0..<len] = map (?g va) [0..<?n] @ map (?g va) [?n..<?n + (len - ?n)]"
      by (simp only: map_append)
    also have "map (?g va) [0..<?n] = load_bytes ?m pa ?n"
      by (simp add: load_bytes_def fst_chunk)
    also have "map (?g va) [?n..<?n + (len - ?n)] = map (?g ?va1) [0..<len - ?n]"
      unfolding shift by (rule nth_equalityI) simp_all
    finally have split: "map (?g va) [0..<len] = load_bytes ?m pa ?n @ map (?g ?va1) [0..<len - ?n]" .
    have step: "copy_in_loop root va len s = do { r \<leftarrow> copy_in_loop root ?va1 (len - ?n) s;
        Some (case r of Inl e \<Rightarrow> Inl e | Inr bs \<Rightarrow> Inr (load_bytes ?m pa ?n @ bs)) }"
      using len pa by (subst copy_in_loop.simps) (simp add: virt_to_phys_utrans [OF ok wf] Let_def)
    show ?thesis unfolding step IH split all by simp
  qed
qed

section \<open>Properties\<close>

text \<open>The range stays inside the user window.\<close>

definition in_window :: "usize \<Rightarrow> nat \<Rightarrow> bool" where
  "in_window uva len \<longleftrightarrow> 0x40000000 \<le> unat uva \<and> unat uva + len \<le> 0x80000000"

lemma check_range_iff:
  assumes "len < 2 ^ 64"
  shows "check_range uva (word_of_nat len) = Inr () \<longleftrightarrow> in_window uva len"
proof -
  have "unat (uva + word_of_nat len) = unat uva + len" if "unat uva + len < 2 ^ 64"
    using that by (rule unat_add_no_wrap)
  with assms show ?thesis
    by (auto simp: check_range_def checked_add_def in_window_def word_less_nat_alt)
qed

lemma copy_out_spec:
  assumes "machine_ok s" and "tree_wf (phys s) root (free_pages s)" and "length src < 2 ^ 64"
    and "off_tables (phys s) root uva (length src)"
  obtains r m' where "copy_out root uva src s = Some (r, s\<lparr>phys := m'\<rparr>)"
    and "\<forall>x. in_window uva (length src) \<and> x \<in> range_bytes (phys s) root uva (length src) \<or> m' x = phys s x"
    and "r = Inr () \<longleftrightarrow> in_window uva (length src) \<and> range_mapped_all (phys s) root uva (length src)"
    and "r = Inr () \<and> range_inj (phys s) root uva (length src) \<longrightarrow>
      (\<forall>k < length src. \<forall>pa. utrans (phys s) root (uva + word_of_nat k) = Some pa \<longrightarrow> m' pa = src ! k)"
proof (cases "check_range uva (word_of_nat (length src))")
  case (Inl e)
  then have "\<not> in_window uva (length src)" using check_range_iff [OF assms(3), of uva] by auto
  moreover have "copy_out root uva src s = Some (Inl e, s\<lparr>phys := phys s\<rparr>)"
    using Inl by (simp add: copy_out_def)
  ultimately show thesis by (intro that [of "Inl e" "phys s"]) simp_all
next
  case (Inr u)
  then have "in_window uva (length src)" using check_range_iff [OF assms(3), of uva] by simp
  moreover obtain r m' where "copy_out_loop root uva src s = Some (r, s\<lparr>phys := m'\<rparr>)"
    "\<forall>x. x \<notin> range_bytes (phys s) root uva (length src) \<longrightarrow> m' x = phys s x"
    "r = (if range_mapped_all (phys s) root uva (length src) then Inr () else Inl ''uaccess: unmapped user address'')"
    "r = Inr () \<and> range_inj (phys s) root uva (length src) \<longrightarrow>
      (\<forall>k < length src. \<forall>pa. utrans (phys s) root (uva + word_of_nat k) = Some pa \<longrightarrow> m' pa = src ! k)"
    using copy_out_loop_spec [OF assms(1,2,4)] by blast
  ultimately show thesis using Inr by (intro that [of r m']) (auto simp: copy_out_def)
qed

text \<open>
  C18: a copy into a process never panics, succeeds exactly when the whole range lies in the
  user window and is mapped, and writes no byte but those the range translates to: whatever
  pointer the process passes, bytes outside its user mappings keep their value.
\<close>

theorem uaccess_copy_out_confined:
  assumes "machine_ok s" and "tree_wf (phys s) root (free_pages s)" and "length src < 2 ^ 64"
    and "off_tables (phys s) root uva (length src)"
  shows "\<exists>r s'. copy_out root uva src s = Some (r, s') \<and> frames s' = frames s \<and>
    (r = Inr () \<longleftrightarrow> in_window uva (length src) \<and> range_mapped_all (phys s) root uva (length src)) \<and>
    (\<forall>x. in_window uva (length src) \<and> x \<in> range_bytes (phys s) root uva (length src) \<or> phys s' x = phys s x)"
proof -
  obtain r m' where "copy_out root uva src s = Some (r, s\<lparr>phys := m'\<rparr>)"
    "\<forall>x. in_window uva (length src) \<and> x \<in> range_bytes (phys s) root uva (length src) \<or> m' x = phys s x"
    "r = Inr () \<longleftrightarrow> in_window uva (length src) \<and> range_mapped_all (phys s) root uva (length src)"
    by (rule copy_out_spec [OF assms])
  then show ?thesis by (intro exI [of _ r] exI [of _ "s\<lparr>phys := m'\<rparr>"]) simp
qed

text \<open>
  C19: what \<open>copy_out\<close> has stored, \<open>copy_in\<close> reads back: over a range inside the window whose
  bytes are mapped one-to-one, off the root's own tables.
\<close>

theorem uaccess_roundtrip:
  assumes "machine_ok s" and "tree_wf (phys s) root (free_pages s)" and "length src < 2 ^ 64"
    and off: "off_tables (phys s) root uva (length src)" and inj: "range_inj (phys s) root uva (length src)"
    and win: "in_window uva (length src)" and mapped: "range_mapped_all (phys s) root uva (length src)"
  shows "\<exists>s'. copy_out root uva src s = Some (Inr (), s') \<and>
    copy_in root uva (length src) s' = Some (Inr src)"
proof -
  obtain r m' where c: "copy_out root uva src s = Some (r, s\<lparr>phys := m'\<rparr>)"
    "\<forall>x. in_window uva (length src) \<and> x \<in> range_bytes (phys s) root uva (length src) \<or> m' x = phys s x"
    "r = Inr () \<longleftrightarrow> in_window uva (length src) \<and> range_mapped_all (phys s) root uva (length src)"
    "r = Inr () \<and> range_inj (phys s) root uva (length src) \<longrightarrow>
      (\<forall>k < length src. \<forall>pa. utrans (phys s) root (uva + word_of_nat k) = Some pa \<longrightarrow> m' pa = src ! k)"
    by (rule copy_out_spec [OF assms(1-4)])
  have r: "r = Inr ()" using c(3) win mapped by simp
  have changed: "frame_of x \<notin> table_frames (phys s) root" if "m' x \<noteq> phys s x" for x
    using that c(2) off unfolding range_bytes_def off_tables_def by blast
  have wf': "tree_wf m' root (free_pages s)" and tr: "utrans m' root v = utrans (phys s) root v" for v
    using store_off_tables [OF assms(2), of m'] changed by blast+
  have bytes: "map (\<lambda>k. m' (the (utrans m' root (uva + word_of_nat k)))) [0..<length src] = src"
    using c(4) r inj mapped by (intro nth_equalityI) (fastforce simp: tr range_mapped_all_def)+
  have "range_mapped_all m' root uva (length src)" using mapped by (simp add: range_mapped_all_def tr)
  moreover have "copy_in_loop root uva (length src) (s\<lparr>phys := m'\<rparr>) = Some
    (if range_mapped_all m' root uva (length src)
     then Inr (map (\<lambda>k. m' (the (utrans m' root (uva + word_of_nat k)))) [0..<length src])
     else Inl ''uaccess: unmapped user address'')"
    using copy_in_loop_spec [of "s\<lparr>phys := m'\<rparr>" root uva "length src"] assms(1) wf' by simp
  ultimately have "copy_in root uva (length src) (s\<lparr>phys := m'\<rparr>) = Some (Inr src)"
    using check_range_iff [OF assms(3), of uva] win by (simp add: copy_in_def bytes)
  with c(1) r show ?thesis by blast
qed

section \<open>Witnesses on a root with one user page\<close>

lemma one_page_node:
  assumes "tpath q"
  shows "node one_page_mem 0x80000000 q =
    (if q = [] then Some 0x80000000 else if q = [1] then Some 0x80200000
     else if q = [1, 0] then Some 0x80201000 else None)"
proof -
  consider "q = []" | i where "q = [i]" "i < 512" | i j where "q = [i, j]" "i < 512" "j < 512"
  proof -
    have "length q = 0 \<or> length q = 1 \<or> length q = 2" using assms unfolding tpath_def by linarith
    then show thesis using assms that by (auto simp: tpath_def length_Suc_conv numeral_2_eq_2)
  qed
  then show ?thesis by cases (auto simp: one_page_entries one_page_aligned)
qed

lemma one_page_tree: "tree_wf (phys one_page_machine) 0x80000000 (free_pages one_page_machine)"
proof -
  have ok: "0x80200 \<notin> free_pages one_page_machine" "0x80201 \<notin> free_pages one_page_machine"
    using one_page_reclaimable by (auto simp: reclaimable_def one_page_machine_def one_page_list)
  have "machine_ok one_page_machine" "first_frame (frames one_page_machine) \<noteq> 0"
    using one_page_reclaimable one_page_frames by (auto simp: reclaimable_def)
  then have root: "0x80000 \<notin> free_pages one_page_machine"
    by (auto simp: machine_ok_def alloc_wf_def free_pages_def subset_iff)
  show ?thesis
    unfolding tree_wf_def
  proof (intro conjI allI impI)
    show "page_aligned 0x80000000" by (rule one_page_aligned)
    show "frame_of t \<notin> free_pages one_page_machine"
      if "tpath p \<and> node (phys one_page_machine) 0x80000000 p = Some t" for p t
      using that one_page_node [of p] ok root
      by (auto simp: one_page_machine_def frame_of_def split: if_splits)
    show "p = q" if "tpath p \<and> tpath q \<and> node (phys one_page_machine) 0x80000000 p = Some t \<and>
        node (phys one_page_machine) 0x80000000 q = Some t" for p q t
      using that one_page_node [of p] one_page_node [of q] by (auto simp: one_page_machine_def split: if_splits)
    fix p i t assume a: "tpath (p @ [i]) \<and> node (phys one_page_machine) 0x80000000 p = Some t \<and>
        pte_valid (pte (phys one_page_machine) t i)"
    then have "tpath p" "length p \<le> 1" "i < 512" by (auto simp: tpath_def)
    with a one_page_node [of p] show "\<not> pte_leaf (pte (phys one_page_machine) t i)"
      by (auto simp: one_page_machine_def one_page_entries split: if_splits)
  qed
qed

lemma one_page_utrans: "k < 16 \<Longrightarrow> utrans one_page_mem 0x80000000 (0x40005010 + word_of_nat k) = Some (0x80202010 + word_of_nat k)"
proof -
  assume "k < 16"
  then have "utrans one_page_mem 0x80000000 (0x40005010 + word_of_nat k) =
      map_option (\<lambda>pa. pa + word_of_nat k) (utrans one_page_mem 0x80000000 0x40005010)"
    by (intro utrans_in_page) simp
  moreover have "pte_at one_page_mem 0x80000000 0x40005010 = leaf_entry 0x80202000 0x16"
  proof -
    have "node one_page_mem 0x80000000 (vpath 0x40005010) = Some 0x80201000"
      by (subst one_page_node) (simp_all add: vpath_def vpn_def tpath_def)
    moreover have "vpn 0x40005010 0 = 5" by (simp add: vpn_def)
    ultimately show ?thesis by (simp add: pte_at_def one_page_entries)
  qed
  moreover have "pte_pa (leaf_entry 0x80202000 0x16) = 0x80202000"
    by (rule leaf_entry_pa) (simp_all add: one_page_aligned)
  ultimately show ?thesis
    by (simp add: utrans_def)
qed

lemma one_page_range:
  "off_tables one_page_mem 0x80000000 0x40005010 3" "range_mapped_all one_page_mem 0x80000000 0x40005010 3"
  "range_inj one_page_mem 0x80000000 0x40005010 3" "in_window 0x40005010 3"
proof -
  have "frame_of (0x80202010 + word_of_nat k) = 0x80202" if "k < 3" for k
    using that frame_of_add [of "0x80202000" "16 + k"] one_page_aligned(4) by (simp add: frame_of_def)
  then show "off_tables one_page_mem 0x80000000 0x40005010 3"
    by (auto simp: off_tables_def one_page_utrans table_frames_def one_page_node frame_of_def split: if_splits)
  show "range_mapped_all one_page_mem 0x80000000 0x40005010 3"
    by (simp add: range_mapped_all_def one_page_utrans)
  show "range_inj one_page_mem 0x80000000 0x40005010 3"
    by (auto simp: range_inj_def one_page_utrans word_of_nat_inject_less)
  show "in_window 0x40005010 3" by (simp add: in_window_def)
qed

lemma one_page_ok: "machine_ok one_page_machine"
  using one_page_reclaimable by (simp add: reclaimable_def)

theorem uaccess_copy_out_confined_witness:
  "\<exists>s'. copy_out 0x80000000 0x40005010 [1, 2, 3] one_page_machine = Some (Inr (), s') \<and>
     phys s' 0x80202013 = 0"
proof -
  have "(0x80202010 + word_of_nat k :: usize) \<noteq> 0x80202013" if "k < 3" for k
    using that by (auto simp: numeral_3_eq_3 less_Suc_eq)
  then have "0x80202013 \<notin> range_bytes one_page_mem 0x80000000 0x40005010 3"
    by (auto simp: range_bytes_def one_page_utrans)
  moreover have "one_page_mem 0x80202013 = 0"
    by (simp add: one_page_mem_def entry_store_outside one_page_aligned frame_of_def)
  moreover have eqs: "phys one_page_machine = one_page_mem" "length [1, 2, 3 :: u8] = 3"
    by (simp_all add: one_page_machine_def)
  ultimately show ?thesis
    using uaccess_copy_out_confined [OF one_page_ok one_page_tree, of "[1, 2, 3]" "0x40005010", unfolded eqs] one_page_range
    by auto
qed

theorem uaccess_roundtrip_witness:
  "\<exists>s'. copy_out 0x80000000 0x40005010 [1, 2, 3] one_page_machine = Some (Inr (), s') \<and>
     copy_in 0x80000000 0x40005010 3 s' = Some (Inr [1, 2, 3])"
proof -
  have eqs: "phys one_page_machine = one_page_mem" "length [1, 2, 3 :: u8] = 3"
    by (simp_all add: one_page_machine_def)
  show ?thesis
    using uaccess_roundtrip [OF one_page_ok one_page_tree, of "[1, 2, 3]" "0x40005010", unfolded eqs] one_page_range
    by simp
qed

end
