(* ===== verification/Elf.thy ===== *)
theory Elf
  imports Uaccess
begin

unbundle bit_operations_syntax

text \<open>
  \<open>kernel/elf.rs\<close>: the program loader. The image is its byte list together with the address \<open>img\<close> it lies at,
  since the segment copy goes through a raw pointer that the bounds check does not protect when
  \<open>offset + filesz\<close> wraps. Offsets are \<open>usize\<close> words, so the checks wrap as the code's do; an index out of
  the image is a panic.
\<close>

section \<open>The loader\<close>

definition ELF_MAGIC :: "u8 list" where [simp]: "ELF_MAGIC = [0x7f, 0x45, 0x4c, 0x46]"
definition CLASS_64 :: u8 where [simp]: "CLASS_64 = 2"
definition MACHINE_RISCV :: u16 where [simp]: "MACHINE_RISCV = 243"
definition ET_EXEC :: u16 where [simp]: "ET_EXEC = 2"
definition PT_LOAD :: u32 where [simp]: "PT_LOAD = 1"
definition PF_X :: u32 where [simp]: "PF_X = 1"
definition PF_W :: u32 where [simp]: "PF_W = 2"

record LoadedElf =
  elf_entry :: usize
  elf_brk :: usize

text \<open>Indexing the image: \<open>None\<close> is the panic.\<close>

definition index_at :: "u8 list \<Rightarrow> usize \<Rightarrow> u8 run" where
  "index_at b off = (if unat off < length b then Some (b ! unat off) else None)"

definition read_u16 :: "u8 list \<Rightarrow> usize \<Rightarrow> u16 run" where
  "read_u16 b off = do { x \<leftarrow> index_at b off; y \<leftarrow> index_at b (off + 1); Some (from_le_bytes [x, y]) }"

definition read_u32 :: "u8 list \<Rightarrow> usize \<Rightarrow> u32 run" where
  "read_u32 b off =
     do { x \<leftarrow> index_at b off; y \<leftarrow> index_at b (off + 1); z \<leftarrow> index_at b (off + 2); w \<leftarrow> index_at b (off + 3);
          Some (from_le_bytes [x, y, z, w]) }"

definition read_u64 :: "u8 list \<Rightarrow> usize \<Rightarrow> u64 run" where
  "read_u64 b off =
     (if off \<le> off + 8 \<and> unat (off + 8) \<le> length b then Some (from_le_bytes (take 8 (drop (unat off) b))) else None)"

text \<open>The bytes behind \<open>image.as_ptr().add(off)\<close>: those of the image, and beyond it whatever memory holds.\<close>

definition image_bytes :: "u8 list \<Rightarrow> usize \<Rightarrow> pmem \<Rightarrow> usize \<Rightarrow> nat \<Rightarrow> u8 list" where
  "image_bytes prog img m off n =
     map (\<lambda>k. let j = off + word_of_nat k in if unat j < length prog then prog ! unat j else m (img + j)) [0..<n]"

record segment =
  seg_flags :: u32
  seg_offset :: usize
  seg_vaddr :: usize
  seg_filesz :: usize
  seg_memsz :: usize

definition segment_flags :: "u32 \<Rightarrow> u64" where
  "segment_flags flags =
     (let f = PTE_U OR PTE_R;
          f = (if flags AND PF_W \<noteq> 0 then f OR PTE_W else f)
      in if flags AND PF_X \<noteq> 0 then f OR PTE_X else f)"

text \<open>The page loop of a segment.\<close>

partial_function (option) load_pages :: "u8 list \<Rightarrow> usize \<Rightarrow> usize \<Rightarrow> segment \<Rightarrow> usize \<Rightarrow> usize \<Rightarrow> 'a machine_scheme \<Rightarrow>
    (unit result \<times> 'a machine_scheme) run" where
  "load_pages prog img root sg va end_va s =
     (if va < end_va then
        (case page_alloc 1 s of
           (None, s) \<Rightarrow> Some (Inl ''elf: out of memory'', s)
         | (Some frame, s) \<Rightarrow>
             (let off = va - seg_vaddr sg;
                  n = min (unat PAGE_SIZE) (unat (seg_filesz sg - off));
                  s = (if off < seg_filesz sg
                       then s\<lparr>phys := store_bytes (phys s) frame (image_bytes prog img (phys s) (seg_offset sg + off) n)\<rparr>
                       else s)
              in do { (r, s) \<leftarrow> PageTable_map root va frame (segment_flags (seg_flags sg)) s;
                      (case r of Inl e \<Rightarrow> Some (Inl e, s)
                       | Inr _ \<Rightarrow> load_pages prog img root sg (va + PAGE_SIZE) end_va s) }))
      else Some (Inr (), s))"

text \<open>One program header: \<open>Inr None\<close> for a header that is not \<open>PT_LOAD\<close>, else the end of the segment.\<close>

definition read_segment :: "u8 list \<Rightarrow> usize \<Rightarrow> segment option run" where
  "read_segment prog ph =
     do { ty \<leftarrow> read_u32 prog ph;
          if ty \<noteq> PT_LOAD then Some None
          else do { flags \<leftarrow> read_u32 prog (ph + 4);
                    offset \<leftarrow> read_u64 prog (ph + 8);
                    vaddr \<leftarrow> read_u64 prog (ph + 16);
                    filesz \<leftarrow> read_u64 prog (ph + 32);
                    memsz \<leftarrow> read_u64 prog (ph + 40);
                    Some (Some \<lparr>seg_flags = flags, seg_offset = offset, seg_vaddr = vaddr,
                      seg_filesz = filesz, seg_memsz = memsz\<rparr>) } }"

definition segment_end :: "segment \<Rightarrow> usize" where
  "segment_end sg = page_up (seg_vaddr sg + seg_memsz sg)"

definition check_segment :: "u8 list \<Rightarrow> segment \<Rightarrow> unit result" where
  "check_segment prog sg =
     (if seg_filesz sg > seg_memsz sg \<or> unat (seg_offset sg + seg_filesz sg) > length prog then
        Inl ''elf: malformed segment''
      else if unat (seg_vaddr sg) mod unat PAGE_SIZE \<noteq> 0 then
        Inl ''elf: unaligned segment (link with -zmax-page-size=4096)''
      else Inr ())"

fun load_headers :: "u8 list \<Rightarrow> usize \<Rightarrow> usize \<Rightarrow> usize list \<Rightarrow> usize \<Rightarrow> 'a machine_scheme \<Rightarrow>
    (usize result \<times> 'a machine_scheme) run" where
  "load_headers prog img root [] brk s = Some (Inr brk, s)"
| "load_headers prog img root (ph # phs) brk s =
     (if unat (ph + 56) > length prog then Some (Inl ''elf: truncated program headers'', s)
      else do { h \<leftarrow> read_segment prog ph;
                (case h of
                   None \<Rightarrow> load_headers prog img root phs brk s
                 | Some sg \<Rightarrow>
                     (case check_segment prog sg of
                        Inl e \<Rightarrow> Some (Inl e, s)
                      | Inr _ \<Rightarrow>
                          do { (r, s) \<leftarrow> load_pages prog img root sg (page_down (seg_vaddr sg)) (segment_end sg) s;
                               (case r of Inl e \<Rightarrow> Some (Inl e, s)
                                | Inr _ \<Rightarrow> load_headers prog img root phs (max brk (segment_end sg)) s) })) })"

definition elf_load :: "u8 list \<Rightarrow> usize \<Rightarrow> usize \<Rightarrow> 'a machine_scheme \<Rightarrow> (LoadedElf result \<times> 'a machine_scheme) run" where
  "elf_load prog img root s =
     (if length prog < 64 \<or> take 4 prog \<noteq> ELF_MAGIC then Some (Inl ''elf: bad magic'', s)
      else if prog ! 4 \<noteq> CLASS_64 then Some (Inl ''elf: not ELF64'', s)
      else do { machine \<leftarrow> read_u16 prog 18;
                if machine \<noteq> MACHINE_RISCV then Some (Inl ''elf: not RISC-V'', s)
                else do { etype \<leftarrow> read_u16 prog 16;
                if etype \<noteq> ET_EXEC then Some (Inl ''elf: not an EXEC image (PIE unsupported)'', s)
                else do { ent \<leftarrow> read_u64 prog 24;
                          phoff \<leftarrow> read_u64 prog 32;
                          phentsize \<leftarrow> read_u16 prog 54;
                          phnum \<leftarrow> read_u16 prog 56;
                          (r, s) \<leftarrow> load_headers prog img root
                            (map (\<lambda>i. phoff + word_of_nat i * ucast phentsize) [0..<unat phnum]) 0 s;
                          Some (case r of
                            Inl e \<Rightarrow> (Inl e, s)
                          | Inr brk \<Rightarrow>
                              if brk = 0 then (Inl ''elf: no loadable segments'', s)
                              else (Inr \<lparr>elf_entry = ent, elf_brk = brk\<rparr>, s)) } } })"

end
