(* ===== verification/Minix3.thy ===== *)
theory Minix3
  imports Strings
begin

unbundle bit_operations_syntax

text \<open>
  \<open>kernel/fs/minix3.rs\<close>: the read-only Minix3 driver. The block device is a parameter, the function that
  reads a number of bytes at a sector (\<open>blk::read_sectors\<close>). A read returns the bytes it put into the
  caller's buffer. The lemmas show that the zone-by-zone read is a plain slice of the file's contents,
  and that path resolution walks the components one by one.
\<close>

section \<open>On-disk structures\<close>

type_synonym blkdev = "u64 \<Rightarrow> nat \<Rightarrow> u8 list result"

definition BLOCK_SIZE :: nat where [simp]: "BLOCK_SIZE = 1024"
definition MAGIC_V3 :: u16 where [simp]: "MAGIC_V3 = 0x4d5a"
definition INODE_SIZE :: nat where [simp]: "INODE_SIZE = 64"
definition ROOT_INO :: u32 where [simp]: "ROOT_INO = 1"
definition DIRENT_SIZE :: nat where [simp]: "DIRENT_SIZE = 64"
definition ZONES_PER_BLOCK :: nat where [simp]: "ZONES_PER_BLOCK = 256"
definition S_IFDIR :: u16 where [simp]: "S_IFDIR = 0x4000"
definition S_IFREG :: u16 where [simp]: "S_IFREG = 0x8000"
definition S_IFMT :: u16 where [simp]: "S_IFMT = 0xf000"

record Inode =
  i_ino :: u32
  i_mode :: u16
  i_nlinks :: u16
  i_size :: u32
  i_zones :: "u32 list"

definition is_dir :: "Inode \<Rightarrow> bool" where "is_dir i \<longleftrightarrow> i_mode i AND S_IFMT = S_IFDIR"
definition is_file :: "Inode \<Rightarrow> bool" where "is_file i \<longleftrightarrow> i_mode i AND S_IFMT = S_IFREG"

record MinixFs =
  imap_blocks :: u16
  zmap_blocks :: u16
  ninodes :: u32
  fs_zones :: u32

definition read_block :: "blkdev \<Rightarrow> u32 \<Rightarrow> u8 list result" where
  "read_block dev block = dev (ucast block * 2) BLOCK_SIZE"

definition le16 :: "u8 list \<Rightarrow> nat \<Rightarrow> u16" where "le16 b off = from_le_bytes (take 2 (drop off b))"
definition le32 :: "u8 list \<Rightarrow> nat \<Rightarrow> u32" where "le32 b off = from_le_bytes (take 4 (drop off b))"

definition MinixFs_mount :: "blkdev \<Rightarrow> MinixFs result" where
  "MinixFs_mount dev =
     do_result (read_block dev 1) (\<lambda>sb.
       if le16 sb 24 \<noteq> MAGIC_V3 then Inl ''minix3: bad superblock magic''
       else if unat (le16 sb 28) \<noteq> BLOCK_SIZE then Inl ''minix3: unsupported block size''
       else Inr \<lparr>imap_blocks = le16 sb 6, zmap_blocks = le16 sb 8, ninodes = le32 sb 0, fs_zones = le32 sb 20\<rparr>)"

definition inode_table_block :: "MinixFs \<Rightarrow> u32" where
  "inode_table_block fs = 2 + ucast (imap_blocks fs) + ucast (zmap_blocks fs)"

definition MinixFs_inode :: "blkdev \<Rightarrow> MinixFs \<Rightarrow> u32 \<Rightarrow> Inode result" where
  "MinixFs_inode dev fs ino =
     (if ino = 0 \<or> ino > ninodes fs then Inl ''minix3: inode out of range''
      else (let index = unat (ino - 1);
                block = inode_table_block fs + word_of_nat (index div (BLOCK_SIZE div INODE_SIZE));
                off = index mod (BLOCK_SIZE div INODE_SIZE) * INODE_SIZE
            in do_result (read_block dev block) (\<lambda>buf.
                 Inr \<lparr>i_ino = ino, i_mode = le16 buf off, i_nlinks = le16 buf (off + 2), i_size = le32 buf (off + 8),
                   i_zones = map (\<lambda>i. le32 buf (off + 24 + i * 4)) [0..<10]\<rparr>)))"

definition file_zone :: "blkdev \<Rightarrow> Inode \<Rightarrow> nat \<Rightarrow> u32 result" where
  "file_zone dev inode n =
     (if n < 7 then Inr (i_zones inode ! n)
      else (let indirect = n - 7 in
            if indirect < ZONES_PER_BLOCK then
              (if i_zones inode ! 7 = 0 then Inr 0
               else do_result (read_block dev (i_zones inode ! 7)) (\<lambda>buf. Inr (le32 buf (indirect * 4))))
            else Inl ''minix3: file too large (double-indirect unsupported)''))"

section \<open>Reading\<close>

text \<open>
  The loop of \<open>read_at\<close>: \<open>pos\<close> is \<open>offset + done\<close> and \<open>left\<close> is \<open>want - done\<close>; the result is what the loop
  still adds to the buffer.
\<close>

function read_at_loop :: "blkdev \<Rightarrow> Inode \<Rightarrow> nat \<Rightarrow> nat \<Rightarrow> u8 list result" where
  "read_at_loop dev inode pos left =
     (if left = 0 then Inr []
      else do_result (file_zone dev inode (pos div BLOCK_SIZE)) (\<lambda>zone.
        let in_block = pos mod BLOCK_SIZE; n = min (BLOCK_SIZE - in_block) left in
        do_result (if zone = 0 then Inr (replicate n 0)
                   else do_result (read_block dev zone) (\<lambda>block. Inr (take n (drop in_block block)))) (\<lambda>bytes.
        do_result (read_at_loop dev inode (pos + n) (left - n)) (\<lambda>rest. Inr (bytes @ rest)))))"
  by pat_completeness auto
termination
  by (relation "measure (\<lambda>(dev, inode, pos, left). left)") (auto simp: min_def)

declare read_at_loop.simps [simp del]

definition MinixFs_read_at :: "blkdev \<Rightarrow> Inode \<Rightarrow> nat \<Rightarrow> nat \<Rightarrow> u8 list result" where
  "MinixFs_read_at dev inode offset len =
     (let sz = unat (i_size inode) in
      if offset \<ge> sz then Inr []
      else read_at_loop dev inode offset (min len (sz - offset)))"

definition MinixFs_read_file :: "blkdev \<Rightarrow> Inode \<Rightarrow> u8 list result" where
  "MinixFs_read_file dev inode = MinixFs_read_at dev inode 0 (unat (i_size inode))"

section \<open>Directories and paths\<close>

text \<open>\<open>readdir\<close>: the calls of the closure, in order, as a list of names and inode numbers.\<close>

function readdir_loop :: "blkdev \<Rightarrow> Inode \<Rightarrow> nat \<Rightarrow> (u8 list \<times> u32) list result" where
  "readdir_loop dev dir offset =
     (if offset + DIRENT_SIZE \<le> unat (i_size dir) then
        do_result (MinixFs_read_at dev dir offset DIRENT_SIZE) (\<lambda>e.
          if length e < DIRENT_SIZE then Inr []
          else (let ino = le32 e 0;
                    name_end = (case position (\<lambda>b. b = 0) (drop 4 e) of None \<Rightarrow> 60 | Some k \<Rightarrow> k);
                    name = take name_end (drop 4 e);
                    calls = (if ino \<noteq> 0 \<and> utf8_valid name then [(name, ino)] else [])
                in do_result (readdir_loop dev dir (offset + DIRENT_SIZE)) (\<lambda>rest. Inr (calls @ rest))))
      else Inr [])"
  by pat_completeness auto
termination
  by (relation "measure (\<lambda>(dev, dir, offset). unat (i_size dir) - offset)") auto

declare readdir_loop.simps [simp del]

definition MinixFs_readdir :: "blkdev \<Rightarrow> Inode \<Rightarrow> (u8 list \<times> u32) list result" where
  "MinixFs_readdir dev dir =
     (if \<not> is_dir dir then Inl ''minix3: not a directory'' else readdir_loop dev dir 0)"

text \<open>The closure of \<open>dir_lookup\<close> overwrites \<open>found\<close>, so the last entry of the name wins.\<close>

definition dir_lookup :: "blkdev \<Rightarrow> Inode \<Rightarrow> u8 list \<Rightarrow> u32 option result" where
  "dir_lookup dev dir name =
     do_result (MinixFs_readdir dev dir) (\<lambda>es.
       Inr (fold (\<lambda>(entry_name, ino) found. if entry_name = name then Some ino else found) es None))"

text \<open>\<open>str::split\<close> on a byte, and the components \<open>lookup\<close> keeps of a path.\<close>

fun split_on :: "u8 \<Rightarrow> u8 list \<Rightarrow> u8 list list" where
  "split_on c [] = [[]]"
| "split_on c (b # bs) = (if b = c then [] # split_on c bs else (case split_on c bs of
     w # ws \<Rightarrow> (b # w) # ws | [] \<Rightarrow> [[b]]))"

definition path_comps :: "u8 list \<Rightarrow> u8 list list" where
  "path_comps path = filter (\<lambda>c. c \<noteq> [] \<and> c \<noteq> [46]) (split_on 47 path)"

fun walk_path :: "blkdev \<Rightarrow> MinixFs \<Rightarrow> u8 list list \<Rightarrow> Inode \<Rightarrow> Inode option result" where
  "walk_path dev fs [] inode = Inr (Some inode)"
| "walk_path dev fs (c # comps) inode =
     (if \<not> is_dir inode then Inr None
      else do_result (dir_lookup dev inode c) (\<lambda>r.
        case r of None \<Rightarrow> Inr None
        | Some ino \<Rightarrow> do_result (MinixFs_inode dev fs ino) (walk_path dev fs comps)))"

definition MinixFs_lookup :: "blkdev \<Rightarrow> MinixFs \<Rightarrow> u8 list \<Rightarrow> Inode option result" where
  "MinixFs_lookup dev fs path =
     do_result (MinixFs_inode dev fs ROOT_INO) (walk_path dev fs (path_comps path))"

definition fs_stats :: "MinixFs \<Rightarrow> u32 \<times> u32" where
  "fs_stats fs = (ninodes fs, fs_zones fs)"


section \<open>The contents of a file\<close>

text \<open>What the driver relies on of the block device: a successful read fills the buffer.\<close>

definition blk_fills :: "blkdev \<Rightarrow> bool" where
  "blk_fills dev \<longleftrightarrow> (\<forall>sector n bs. dev sector n = Inr bs \<longrightarrow> length bs = n)"

definition zone_bytes :: "blkdev \<Rightarrow> Inode \<Rightarrow> nat \<Rightarrow> u8 list result" where
  "zone_bytes dev inode k =
     do_result (file_zone dev inode k) (\<lambda>z. if z = 0 then Inr (replicate BLOCK_SIZE 0) else read_block dev z)"

text \<open>The abstract file: byte \<open>p\<close> is byte \<open>p mod 1024\<close> of zone \<open>p div 1024\<close>.\<close>

definition file_byte :: "blkdev \<Rightarrow> Inode \<Rightarrow> nat \<Rightarrow> u8" where
  "file_byte dev inode p = (case zone_bytes dev inode (p div BLOCK_SIZE) of Inr bs \<Rightarrow> bs ! (p mod BLOCK_SIZE) | Inl _ \<Rightarrow> 0)"

definition file_data :: "blkdev \<Rightarrow> Inode \<Rightarrow> u8 list" where
  "file_data dev inode = map (file_byte dev inode) [0..<unat (i_size inode)]"

definition readable :: "blkdev \<Rightarrow> Inode \<Rightarrow> bool" where
  "readable dev inode \<longleftrightarrow> (\<forall>p < unat (i_size inode). \<exists>bs. zone_bytes dev inode (p div BLOCK_SIZE) = Inr bs)"

lemma zone_bytes_length: "blk_fills dev \<Longrightarrow> zone_bytes dev inode k = Inr bs \<Longrightarrow> length bs = 1024"
  by (auto simp: zone_bytes_def do_result_Inr blk_fills_def read_block_def split: if_splits)

lemma div_in_block: "k < 1024 - p mod 1024 \<Longrightarrow> (p + k) div 1024 = p div 1024 \<and> (p + k) mod 1024 = p mod 1024 + (k :: nat)"
proof -
  assume k: "k < 1024 - p mod 1024"
  have "p + k = p div 1024 * 1024 + (p mod 1024 + k)" by simp
  then have "(p + k) div 1024 = p div 1024 + (p mod 1024 + k) div 1024" "(p + k) mod 1024 = (p mod 1024 + k) mod 1024"
    by (metis div_mult_self3 mult.commute zero_neq_numeral, metis mod_mult_self3)
  with k show ?thesis by simp
qed

text \<open>One turn of the loop reads the bytes of the file up to the end of the zone.\<close>

lemma read_zone_part:
  assumes "blk_fills dev" and z: "zone_bytes dev inode (p div 1024) = Inr bs" and n: "n \<le> 1024 - p mod 1024"
  shows "do_result (file_zone dev inode (p div 1024)) (\<lambda>zone.
      do_result (if zone = 0 then Inr (replicate n 0)
        else do_result (read_block dev zone) (\<lambda>block. Inr (take n (drop (p mod 1024) block)))) f) =
    f (map (file_byte dev inode) [p..<p + n])"
proof -
  obtain zone where zone: "file_zone dev inode (p div 1024) = Inr zone"
    using z by (auto simp: zone_bytes_def do_result_Inr)
  then have bs: "(if zone = 0 then Inr (replicate 1024 0) else read_block dev zone) = Inr bs"
    using z by (auto simp: zone_bytes_def split: if_splits)
  have len: "length bs = 1024" by (rule zone_bytes_length [OF assms(1) z])
  have "take n (drop (p mod 1024) bs) = map (file_byte dev inode) [p..<p + n]"
    using n z len div_in_block [of _ p] by (intro nth_equalityI) (auto simp: file_byte_def)
  moreover have "zone = 0 \<Longrightarrow> take n (drop (p mod 1024) bs) = replicate n 0" using bs n by (auto simp: drop_replicate)
  ultimately show ?thesis using zone bs by (auto split: if_splits)
qed

lemma read_at_loop_bytes:
  assumes "blk_fills dev"
  shows "\<forall>p. pos \<le> p \<and> p < pos + left \<longrightarrow> (\<exists>bs. zone_bytes dev inode (p div 1024) = Inr bs) \<Longrightarrow>
    read_at_loop dev inode pos left = Inr (map (file_byte dev inode) [pos..<pos + left])"
proof (induction left arbitrary: pos rule: less_induct)
  case (less left)
  show ?case
  proof (cases "left = 0")
    case True
    then show ?thesis by (simp add: read_at_loop.simps)
  next
    case False
    define n where "n = min (1024 - pos mod 1024) left"
    have n: "0 < n" "n \<le> left" "n \<le> 1024 - pos mod 1024" using False by (auto simp: n_def)
    obtain bs where z: "zone_bytes dev inode (pos div 1024) = Inr bs" using less.prems False by auto
    have "read_at_loop dev inode (pos + n) (left - n) = Inr (map (file_byte dev inode) [pos + n..<pos + left])"
      using less.IH [of "left - n" "pos + n"] less.prems n by simp
    moreover have "[pos..<pos + left] = [pos..<pos + n] @ [pos + n..<pos + left]"
      using n upt_add_eq_append [of pos "pos + n" "left - n"] by simp
    ultimately show ?thesis
      using False read_zone_part [OF assms z n(3)]
      unfolding read_at_loop.simps [of dev inode pos left] Let_def BLOCK_SIZE_def n_def [symmetric]
      by simp
  qed
qed

lemma read_at_slice:
  assumes "blk_fills dev" and "readable dev inode"
  shows "MinixFs_read_at dev inode offset len = Inr (take len (drop offset (file_data dev inode)))"
proof (cases "offset < unat (i_size inode)")
  case True
  let ?left = "min len (unat (i_size inode) - offset)"
  have "read_at_loop dev inode offset ?left = Inr (map (file_byte dev inode) [offset..<offset + ?left])"
    using assms(2) True by (intro read_at_loop_bytes [OF assms(1)]) (auto simp: readable_def)
  moreover have "take len (drop offset [0..<unat (i_size inode)]) = [offset..<offset + ?left]"
    using True by (cases "len \<le> unat (i_size inode) - offset") (simp_all add: min_def)
  ultimately show ?thesis using True by (simp add: MinixFs_read_at_def file_data_def take_map drop_map)
qed (simp add: MinixFs_read_at_def file_data_def)


section \<open>The size limit\<close>

lemma file_zone_limit: "263 \<le> k \<Longrightarrow> file_zone dev inode k = Inl ''minix3: file too large (double-indirect unsupported)''"
  by (auto simp: file_zone_def Let_def)

lemma zone_bytes_total:
  assumes "\<forall>sector n. \<exists>bs. dev sector n = Inr bs" and "k < 263"
  shows "\<exists>bs. zone_bytes dev inode k = Inr bs"
proof -
  have rd: "\<exists>bs. read_block dev z = Inr bs" for z using assms(1) by (simp add: read_block_def)
  obtain ind where "read_block dev (i_zones inode ! 7) = Inr ind" using rd by blast
  then have "\<exists>z. file_zone dev inode k = Inr z" using assms(2) by (auto simp: file_zone_def Let_def)
  then obtain z where "file_zone dev inode k = Inr z" by blast
  with rd [of z] show ?thesis by (auto simp: zone_bytes_def)
qed

lemma read_at_loop_stops:
  "read_at_loop dev inode pos left = Inr bs \<Longrightarrow> pos \<le> p \<Longrightarrow> p < pos + left \<Longrightarrow>
   \<exists>z. file_zone dev inode (p div 1024) = Inr z"
proof (induction left arbitrary: pos bs rule: less_induct)
  case (less left)
  define n where "n = min (1024 - pos mod 1024) left"
  from less.prems have "left \<noteq> 0" by auto
  then have n: "0 < n" "n \<le> left" by (auto simp: n_def)
  from less.prems(1) \<open>left \<noteq> 0\<close> obtain z rest where z: "file_zone dev inode (pos div 1024) = Inr z"
    and rest: "read_at_loop dev inode (pos + n) (left - n) = Inr rest"
    by (subst (asm) read_at_loop.simps) (auto simp: do_result_Inr Let_def n_def)
  show ?case
  proof (cases "p < pos + n")
    case True
    then have "p div 1024 = pos div 1024" using less.prems(2) div_in_block [of "p - pos" pos] by (simp add: n_def)
    with z show ?thesis by auto
  next
    case False
    with less.IH [OF _ rest] less.prems n show ?thesis by simp
  qed
qed


section \<open>Path resolution\<close>

lemma split_on_not_Nil [simp]: "split_on c bs \<noteq> []"
  by (cases bs) (auto split: list.splits)

lemma split_on_append: "split_on c (p @ c # q) = split_on c p @ split_on c q"
  by (induction p) (auto split: list.splits)

lemma path_comps_append: "path_comps (p @ 47 # q) = path_comps p @ path_comps q"
  by (simp add: path_comps_def split_on_append)

lemma walk_path_append:
  "walk_path dev fs (xs @ ys) i =
     do_result (walk_path dev fs xs i) (\<lambda>r. case r of None \<Rightarrow> Inr None | Some j \<Rightarrow> walk_path dev fs ys j)"
proof (induction xs arbitrary: i)
  case (Cons c xs)
  then show ?case by (auto simp: do_result_assoc split: option.splits intro!: do_result_cong)
qed simp

text \<open>
  C36: path resolution is compositional: the lookup of \<open>p/q\<close> is the walk along \<open>q\<close> from the inode \<open>p\<close> names,
  for every split of a path at a slash, errors and missing components included; so repeated slashes
  and dots change nothing.
\<close>

theorem minix_lookup_compositional:
  "MinixFs_lookup dev fs (p @ 47 # q) =
     do_result (MinixFs_lookup dev fs p) (\<lambda>r.
       case r of None \<Rightarrow> Inr None | Some i \<Rightarrow> walk_path dev fs (path_comps q) i) \<and>
   MinixFs_lookup dev fs (p @ 47 # 47 # q) = MinixFs_lookup dev fs (p @ 47 # q) \<and>
   MinixFs_lookup dev fs (p @ 47 # 46 # 47 # q) = MinixFs_lookup dev fs (p @ 47 # q)"
proof -
  have "path_comps (p @ 47 # 47 # q) = path_comps (p @ 47 # q)"
    using path_comps_append [of "p @ [47]" q] path_comps_append [of p "[]"] path_comps_append [of p q]
    by (simp add: path_comps_def)
  moreover have "path_comps (p @ 47 # 46 # 47 # q) = path_comps (p @ 47 # q)"
    using path_comps_append [of "p @ [47, 46]" q] path_comps_append [of p "[46]"] path_comps_append [of p q]
    by (simp add: path_comps_def)
  moreover have "walk_path dev fs (path_comps p @ path_comps q) = (\<lambda>i. do_result (walk_path dev fs (path_comps p) i)
      (\<lambda>r. case r of None \<Rightarrow> Inr None | Some j \<Rightarrow> walk_path dev fs (path_comps q) j))"
    by (rule ext) (rule walk_path_append)
  ultimately show ?thesis
    by (simp add: MinixFs_lookup_def path_comps_append do_result_assoc)
qed

text \<open>A device whose every byte is its distance from the start of the read.\<close>

definition demo_blk :: blkdev where
  "demo_blk sector n = Inr (map word_of_nat [0..<n])"

definition demo_inode :: Inode where
  "demo_inode = \<lparr>i_ino = 2, i_mode = 0x81a4, i_nlinks = 1, i_size = 1500, i_zones = [9, 0, 0, 0, 0, 0, 0, 0, 0, 0]\<rparr>"

lemma demo_blk_fills: "blk_fills demo_blk" and demo_blk_total: "\<forall>sector n. \<exists>bs. demo_blk sector n = Inr bs"
  by (auto simp: blk_fills_def demo_blk_def)

lemma demo_readable: "readable demo_blk demo_inode"
  unfolding readable_def by (intro allI impI zone_bytes_total [OF demo_blk_total]) (simp add: demo_inode_def)



end
