(* ===== verification/Vfs.thy ===== *)
theory Vfs
  imports Minix3
begin

text \<open>
  \<open>kernel/fs/mod.rs\<close> and \<open>ramfs.rs\<close>: the facade over the mounted root and the embedded program images.
  The images are build products, so they are a parameter; \<open>ROOT\<close> is the mounted file system, \<open>None\<close>
  before \<open>mount_root\<close>.
\<close>

record ramfs =
  INIT_ELF :: "u8 list"
  HELLO_ELF :: "u8 list"

definition FILES :: "ramfs \<Rightarrow> (u8 list \<times> u8 list) list" where
  "FILES r = [(str_bytes ''init'', INIT_ELF r), (str_bytes ''/bin/init'', INIT_ELF r),
     (str_bytes ''hello'', HELLO_ELF r), (str_bytes ''/bin/hello'', HELLO_ELF r)]"

definition ramfs_lookup :: "ramfs \<Rightarrow> u8 list \<Rightarrow> u8 list option" where
  "ramfs_lookup r name = map_option snd (List.find (\<lambda>e. fst e = name) (FILES r))"

text \<open>\<open>mount_root\<close>, given whether the block driver found a device.\<close>

definition mount_root :: "blkdev \<Rightarrow> bool \<Rightarrow> MinixFs option \<Rightarrow> bool \<times> MinixFs option" where
  "mount_root dev blk_init root =
     (if \<not> blk_init then (False, root)
      else (case MinixFs_mount dev of Inr fs \<Rightarrow> (True, Some fs) | Inl _ \<Rightarrow> (False, root)))"

definition with_root :: "MinixFs option \<Rightarrow> (MinixFs \<Rightarrow> 'a result) \<Rightarrow> 'a result" where
  "with_root root f = (case root of Some fs \<Rightarrow> f fs | None \<Rightarrow> Inl ''vfs: no root filesystem mounted'')"

definition fs_lookup :: "blkdev \<Rightarrow> MinixFs option \<Rightarrow> u8 list \<Rightarrow> Inode option result" where
  "fs_lookup dev root path = with_root root (\<lambda>fs. MinixFs_lookup dev fs path)"

definition fs_read_at :: "blkdev \<Rightarrow> MinixFs option \<Rightarrow> Inode \<Rightarrow> nat \<Rightarrow> nat \<Rightarrow> u8 list result" where
  "fs_read_at dev root inode offset len = with_root root (\<lambda>fs. MinixFs_read_at dev inode offset len)"

definition fs_read_file :: "blkdev \<Rightarrow> MinixFs option \<Rightarrow> Inode \<Rightarrow> u8 list result" where
  "fs_read_file dev root inode = with_root root (\<lambda>fs. MinixFs_read_file dev inode)"

definition fs_readdir :: "blkdev \<Rightarrow> MinixFs option \<Rightarrow> Inode \<Rightarrow> (u8 list \<times> u32) list result" where
  "fs_readdir dev root inode = with_root root (\<lambda>fs. MinixFs_readdir dev inode)"

definition fs_inode :: "blkdev \<Rightarrow> MinixFs option \<Rightarrow> u32 \<Rightarrow> Inode result" where
  "fs_inode dev root ino = with_root root (\<lambda>fs. MinixFs_inode dev fs ino)"

definition load_program :: "blkdev \<Rightarrow> MinixFs option \<Rightarrow> ramfs \<Rightarrow> u8 list \<Rightarrow> u8 list option" where
  "load_program dev root r path =
     (case fs_lookup dev root path of
        Inr (Some inode) \<Rightarrow>
          (if is_file inode then
             (case fs_read_file dev root inode of Inr bytes \<Rightarrow> Some bytes | Inl _ \<Rightarrow> ramfs_lookup r path)
           else ramfs_lookup r path)
      | _ \<Rightarrow> ramfs_lookup r path)"

text \<open>Without a disk, or when the disk does not have the file, the embedded images serve exactly their four names.\<close>

lemma load_program_no_root: "load_program dev None r path = ramfs_lookup r path"
  by (simp add: load_program_def fs_lookup_def with_root_def)

lemma ramfs_lookup_names:
  "ramfs_lookup r name =
     (if name = str_bytes ''init'' \<or> name = str_bytes ''/bin/init'' then Some (INIT_ELF r)
      else if name = str_bytes ''hello'' \<or> name = str_bytes ''/bin/hello'' then Some (HELLO_ELF r) else None)"
  by (auto simp: ramfs_lookup_def FILES_def)

text \<open>A regular file the disk can read shadows the embedded image of the same name.\<close>

lemma load_program_disk:
  assumes "fs_lookup dev (Some fs) path = Inr (Some inode)" and "is_file inode"
    and "blk_fills dev" and "readable dev inode"
  shows "load_program dev (Some fs) r path = Some (file_data dev inode)"
  using assms read_at_slice [OF assms(3,4)]
  by (simp add: load_program_def fs_read_file_def with_root_def MinixFs_read_file_def file_data_def)

end
