(* ===== verification/Fifo.thy ===== *)
theory Fifo
  imports Prelude
begin

text \<open>
  The contract of a bounded first-in first-out buffer that drops what does not fit. The kernel
  has two: the console's receive ring (\<open>uart.rs\<close>) and the backlog of a UDP socket
  (\<open>net/socket.rs\<close>). Their theories interpret the locale on their own operations.
\<close>

locale bounded_fifo =
  fixes items :: "'s \<Rightarrow> 'a list"
    and push :: "'a \<Rightarrow> 's \<Rightarrow> 's"
    and pop :: "'s \<Rightarrow> 'a option \<times> 's"
    and cap :: nat
    and ok :: "'s \<Rightarrow> bool"
  assumes push_ok: "ok s \<Longrightarrow> ok (push x s)"
    and push_items: "ok s \<Longrightarrow> items (push x s) = (if length (items s) < cap then items s @ [x] else items s)"
    and pop_ok: "ok s \<Longrightarrow> ok (snd (pop s))"
    and pop_items: "ok s \<Longrightarrow> fst (pop s) = (case items s of [] \<Rightarrow> None | x # _ \<Rightarrow> Some x) \<and>
      items (snd (pop s)) = tl (items s)"
    and items_bound: "ok s \<Longrightarrow> length (items s) \<le> cap"
begin

text \<open>What a sequence of pushes leaves behind: as much of the input as fits.\<close>

lemma pushes_items:
  "ok s \<Longrightarrow> ok (fold push xs s) \<and> items (fold push xs s) = items s @ take (cap - length (items s)) xs"
proof (induction xs arbitrary: s)
  case Nil
  then show ?case by simp
next
  case (Cons x xs)
  have ok': "ok (push x s)" by (rule push_ok [OF Cons.prems])
  show ?case
  proof (cases "length (items s) < cap")
    case True
    then obtain d where d: "cap - length (items s) = Suc d" by (metis Suc_diff_Suc)
    have "items (push x s) = items s @ [x]" using True push_items [OF Cons.prems] by simp
    moreover have "cap - Suc (length (items s)) = d" using d by simp
    ultimately show ?thesis using Cons.IH [OF ok'] d by simp
  next
    case False
    then have "items (push x s) = items s" using push_items [OF Cons.prems] by simp
    with Cons.IH [OF ok'] False show ?thesis by simp
  qed
qed

text \<open>Popping \<open>n\<close> times.\<close>

fun pops :: "nat \<Rightarrow> 's \<Rightarrow> 'a option list \<times> 's" where
  "pops 0 s = ([], s)"
| "pops (Suc n) s = (let (r, s') = pop s; (rs, s'') = pops n s' in (r # rs, s''))"

lemma pops_items:
  "ok s \<Longrightarrow> n \<le> length (items s) \<Longrightarrow>
   fst (pops n s) = map Some (take n (items s)) \<and> items (snd (pops n s)) = drop n (items s)"
proof (induction n arbitrary: s)
  case 0
  then show ?case by simp
next
  case (Suc n)
  then obtain x xs where xs: "items s = x # xs" by (cases "items s") auto
  note P = pop_items [OF Suc.prems(1)] pop_ok [OF Suc.prems(1)]
  have "items (snd (pop s)) = xs" using P(1) xs by simp
  with Suc.IH [OF P(2)] Suc.prems(2) xs P(1) show ?case
    by (auto simp: Let_def split: prod.splits)
qed

text \<open>First in, first out: the items come back in order, behind those already waiting.\<close>

lemma fifo_order:
  assumes "ok s" and "length (items s) + length xs \<le> cap"
  shows "fst (pops (length (items s) + length xs) (fold push xs s)) = map Some (items s @ xs)"
proof -
  have "ok (fold push xs s)" "items (fold push xs s) = items s @ xs"
    using pushes_items [OF assms(1), of xs] assms(2) by simp_all
  with pops_items [of "fold push xs s" "length (items s) + length xs"] show ?thesis by simp
qed

end

end
