(* ===== verification/Uart.thy ===== *)
theory Uart
  imports Fifo
begin

text \<open>
  \<open>kernel/uart.rs\<close>: the NS16550A driver and the console's receive ring. The device is a parameter: a bus
  with a volatile read and a volatile write on a device state of its own. Code that polls the device may
  spin for ever, so it is a \<open>partial_function\<close> whose \<open>None\<close> is not returning.
\<close>

section \<open>The driver\<close>

definition UART_BASE :: usize where [simp]: "UART_BASE = 0x10000000"
definition RBR :: usize where [simp]: "RBR = 0"
definition THR :: usize where [simp]: "THR = 0"
definition IER :: usize where [simp]: "IER = 1"
definition FCR :: usize where [simp]: "FCR = 2"
definition LCR :: usize where [simp]: "LCR = 3"
definition LSR :: usize where [simp]: "LSR = 5"
definition LSR_RX_READY :: u8 where [simp]: "LSR_RX_READY = 1"
definition LSR_TX_IDLE :: u8 where [simp]: "LSR_TX_IDLE = 32"
definition IER_RX_ENABLE :: u8 where [simp]: "IER_RX_ENABLE = 1"

record 'd bus =
  read_volatile :: "usize \<Rightarrow> 'd \<Rightarrow> u8 \<times> 'd"
  write_volatile :: "usize \<Rightarrow> u8 \<Rightarrow> 'd \<Rightarrow> 'd"

definition uart_read :: "'d bus \<Rightarrow> usize \<Rightarrow> 'd \<Rightarrow> u8 \<times> 'd" where
  "uart_read b offs = read_volatile b (UART_BASE + offs)"

definition uart_write :: "'d bus \<Rightarrow> usize \<Rightarrow> u8 \<Rightarrow> 'd \<Rightarrow> 'd" where
  "uart_write b offs v = write_volatile b (UART_BASE + offs) v"

definition uart_init :: "'d bus \<Rightarrow> 'd \<Rightarrow> 'd" where
  "uart_init b d =
     (let d = uart_write b IER 0x00 d; d = uart_write b LCR 0x80 d; d = uart_write b 0 0x03 d;
          d = uart_write b 1 0x00 d; d = uart_write b LCR 0x03 d
      in uart_write b FCR 0x07 d)"

definition enable_rx_interrupt :: "'d bus \<Rightarrow> 'd \<Rightarrow> 'd" where
  "enable_rx_interrupt b d = uart_write b IER IER_RX_ENABLE d"

partial_function (option) uart_put :: "'d bus \<Rightarrow> u8 \<Rightarrow> 'd \<Rightarrow> 'd option" where
  "uart_put b byte d =
     (case uart_read b LSR d of
        (v, d) \<Rightarrow> if v AND LSR_TX_IDLE = 0 then uart_put b byte d else Some (uart_write b THR byte d))"

definition uart_get :: "'d bus \<Rightarrow> 'd \<Rightarrow> u8 option \<times> 'd" where
  "uart_get b d =
     (case uart_read b LSR d of
        (v, d) \<Rightarrow> if v AND LSR_RX_READY \<noteq> 0 then (case uart_read b RBR d of (x, d) \<Rightarrow> (Some x, d)) else (None, d))"

text \<open>The loops of \<open>write_bytes\<close> and of \<open>write_str\<close>: a line feed goes out as CR LF.\<close>

fun write_bytes :: "'d bus \<Rightarrow> u8 list \<Rightarrow> 'd \<Rightarrow> 'd option" where
  "write_bytes b [] d = Some d"
| "write_bytes b (byte # bytes) d =
     do { d \<leftarrow> (if byte = 10 then uart_put b 13 d else Some d);
          d \<leftarrow> uart_put b byte d;
          write_bytes b bytes d }"

fun write_str :: "'d bus \<Rightarrow> u8 list \<Rightarrow> 'd \<Rightarrow> 'd option" where
  "write_str b [] d = Some d"
| "write_str b (byte # bytes) d =
     do { d \<leftarrow> (if byte = 10 then uart_put b 13 d else Some d);
          d \<leftarrow> uart_put b byte d;
          write_str b bytes d }"

section \<open>The receive ring\<close>

definition RX_BUF_SIZE :: nat where [simp]: "RX_BUF_SIZE = 256"

record RxRing =
  rx_buf :: "u8 list"
  rx_head :: nat
  rx_tail :: nat

definition RX_BUF :: RxRing where
  "RX_BUF = \<lparr>rx_buf = replicate RX_BUF_SIZE 0, rx_head = 0, rx_tail = 0\<rparr>"

text \<open>The body of the interrupt loop that buffers one byte; the flag says that it was kept.\<close>

definition rx_push :: "u8 \<Rightarrow> RxRing \<Rightarrow> bool \<times> RxRing" where
  "rx_push byte rx =
     (let nxt = (rx_head rx + 1) mod RX_BUF_SIZE in
      if nxt \<noteq> rx_tail rx
      then (True, rx\<lparr>rx_buf := (rx_buf rx)[rx_head rx := byte], rx_head := nxt\<rparr>)
      else (False, rx))"

partial_function (option) drain_rx :: "'d bus \<Rightarrow> bool \<Rightarrow> RxRing \<Rightarrow> 'd \<Rightarrow> (bool \<times> RxRing \<times> 'd) option" where
  "drain_rx b got rx d =
     (case uart_get b d of
        (None, d) \<Rightarrow> Some (got, rx, d)
      | (Some byte, d) \<Rightarrow>
          (let byte = (if byte = 13 then 10 else byte) in
           do { d \<leftarrow> (if byte = 10 then uart_put b 13 d else Some d);
                d \<leftarrow> uart_put b byte d;
                (case rx_push byte rx of (kept, rx) \<Rightarrow> drain_rx b (got \<or> kept) rx d) }))"

definition read_byte :: "RxRing \<Rightarrow> u8 option \<times> RxRing" where
  "read_byte rx =
     (if rx_head rx = rx_tail rx then (None, rx)
      else (Some (rx_buf rx ! rx_tail rx), rx\<lparr>rx_tail := (rx_tail rx + 1) mod RX_BUF_SIZE\<rparr>))"

section \<open>The ring is a bounded queue\<close>

definition ring_ok :: "RxRing \<Rightarrow> bool" where
  "ring_ok rx \<longleftrightarrow> length (rx_buf rx) = 256 \<and> rx_head rx < 256 \<and> rx_tail rx < 256"

definition ring_len :: "RxRing \<Rightarrow> nat" where
  "ring_len rx = (rx_head rx + 256 - rx_tail rx) mod 256"

definition ring_items :: "RxRing \<Rightarrow> u8 list" where
  "ring_items rx = map (\<lambda>k. rx_buf rx ! ((rx_tail rx + k) mod 256)) [0..<ring_len rx]"

lemma ring_len_cases:
  assumes "ring_ok rx"
  shows "ring_len rx = (if rx_tail rx \<le> rx_head rx then rx_head rx - rx_tail rx else rx_head rx + 256 - rx_tail rx)"
proof (cases "rx_tail rx \<le> rx_head rx")
  case True
  then have "rx_head rx + 256 - rx_tail rx = (rx_head rx - rx_tail rx) + 256" by simp
  then have "ring_len rx = (rx_head rx - rx_tail rx) mod 256" by (simp only: ring_len_def mod_add_self2)
  moreover have "rx_head rx - rx_tail rx < 256" using assms by (simp add: ring_ok_def less_imp_diff_less)
  ultimately show ?thesis using True by simp
next
  case False
  then show ?thesis using assms by (simp add: ring_len_def ring_ok_def)
qed

lemma ring_full_iff:
  "ring_ok rx \<Longrightarrow> (rx_head rx + 1) mod 256 = rx_tail rx \<longleftrightarrow> ring_len rx = 255"
  by (auto simp: ring_len_cases ring_ok_def mod_if)

lemma ring_head_at:
  assumes "ring_ok rx" shows "rx_head rx = (rx_tail rx + ring_len rx) mod 256"
  using assms by (auto simp: ring_len_cases ring_ok_def mod_if)

lemma ring_slot_free:
  assumes "ring_ok rx" and "k < ring_len rx" shows "(rx_tail rx + k) mod 256 \<noteq> rx_head rx"
proof -
  have b: "rx_head rx < 256" "rx_tail rx < 256" using assms(1) by (simp_all add: ring_ok_def)
  show ?thesis
  proof (cases "rx_tail rx + k < 256")
    case True
    with assms b show ?thesis by (auto simp: ring_len_cases split: if_splits)
  next
    case False
    have k: "k < 256" using assms b by (auto simp: ring_len_cases split: if_splits)
    have "(rx_tail rx + k) mod 256 = rx_tail rx + k - 256" using False k b by (simp add: mod_if)
    with assms b False k show ?thesis by (auto simp: ring_len_cases split: if_splits)
  qed
qed

lemma rx_push_items:
  assumes ok: "ring_ok rx"
  shows "ring_ok (snd (rx_push x rx))"
    and "ring_items (snd (rx_push x rx)) = (if length (ring_items rx) < 255 then ring_items rx @ [x] else ring_items rx)"
    and "fst (rx_push x rx) \<longleftrightarrow> length (ring_items rx) < 255"
proof -
  have lt: "ring_len rx < 256" by (simp add: ring_len_def)
  show "ring_ok (snd (rx_push x rx))" using ok by (auto simp: ring_ok_def rx_push_def Let_def)
  show "fst (rx_push x rx) \<longleftrightarrow> length (ring_items rx) < 255"
    using ring_full_iff [OF ok] lt by (auto simp: rx_push_def Let_def ring_items_def)
  show "ring_items (snd (rx_push x rx)) = (if length (ring_items rx) < 255 then ring_items rx @ [x] else ring_items rx)"
  proof (cases "ring_len rx < 255")
    case True
    let ?r = "rx\<lparr>rx_buf := (rx_buf rx)[rx_head rx := x], rx_head := (rx_head rx + 1) mod 256\<rparr>"
    have push: "snd (rx_push x rx) = ?r" using True ring_full_iff [OF ok] by (auto simp: rx_push_def Let_def)
    have "ring_ok ?r" using ok by (simp add: ring_ok_def)
    then have "ring_len ?r = Suc (ring_len rx)"
      using True ok by (auto simp: ring_len_cases ring_ok_def mod_if split: if_splits)
    moreover have "(rx_buf rx)[rx_head rx := x] ! ((rx_tail rx + ring_len rx) mod 256) = x"
      using ok ring_head_at [OF ok] by (simp add: ring_ok_def)
    moreover have "(rx_buf rx)[rx_head rx := x] ! ((rx_tail rx + k) mod 256) = rx_buf rx ! ((rx_tail rx + k) mod 256)"
      if "k < ring_len rx" for k
      using ring_slot_free [OF ok that] by simp
    ultimately show ?thesis using True by (simp add: push ring_items_def)
  next
    case False
    then show ?thesis using ring_full_iff [OF ok] lt by (simp add: rx_push_def Let_def ring_items_def)
  qed
qed

lemma read_byte_items:
  assumes ok: "ring_ok rx"
  shows "fst (read_byte rx) = (case ring_items rx of [] \<Rightarrow> None | x # _ \<Rightarrow> Some x)"
    and "ring_items (snd (read_byte rx)) = tl (ring_items rx)"
    and "ring_ok (snd (read_byte rx))"
proof -
  have ends: "rx_head rx = rx_tail rx \<longleftrightarrow> ring_len rx = 0"
    using ok by (auto simp: ring_len_cases ring_ok_def)
  show "ring_ok (snd (read_byte rx))" using ok by (auto simp: ring_ok_def read_byte_def)
  show "fst (read_byte rx) = (case ring_items rx of [] \<Rightarrow> None | x # _ \<Rightarrow> Some x)"
    using ends ok by (cases "ring_len rx") (auto simp: read_byte_def ring_items_def ring_ok_def map_upt_Suc simp del: upt_Suc)
  show "ring_items (snd (read_byte rx)) = tl (ring_items rx)"
  proof (cases "ring_len rx")
    case 0
    with ends show ?thesis by (simp add: read_byte_def ring_items_def)
  next
    case (Suc n)
    let ?r = "rx\<lparr>rx_tail := (rx_tail rx + 1) mod 256\<rparr>"
    have "ring_ok ?r" using ok by (simp add: ring_ok_def)
    then have "ring_len ?r = n"
      using Suc ok by (auto simp: ring_len_cases ring_ok_def mod_if split: if_splits)
    moreover have "((rx_tail rx + 1) mod 256 + k) mod 256 = (rx_tail rx + Suc k) mod 256" for k
      by (simp add: mod_add_left_eq)
    ultimately show ?thesis using Suc ends by (simp add: read_byte_def ring_items_def map_upt_Suc del: upt_Suc)
  qed
qed

interpretation ring: bounded_fifo ring_items "\<lambda>x rx. snd (rx_push x rx)" read_byte 255 ring_ok
proof
  fix rx assume ok: "ring_ok rx"
  show "length (ring_items rx) \<le> 255"
    using mod_less_divisor [of 256 "rx_head rx + 256 - rx_tail rx"]
    unfolding ring_items_def ring_len_def by simp
qed (simp_all add: rx_push_items read_byte_items)

lemma RX_BUF_ok: "ring_ok RX_BUF" and RX_BUF_items: "ring_items RX_BUF = []"
  by (simp_all add: RX_BUF_def ring_ok_def ring_items_def ring_len_def)


text \<open>Reading the console \<open>n\<close> times.\<close>

fun read_bytes :: "nat \<Rightarrow> RxRing \<Rightarrow> u8 option list" where
  "read_bytes 0 rx = []"
| "read_bytes (Suc n) rx = fst (read_byte rx) # read_bytes n (snd (read_byte rx))"

lemma read_bytes_pops: "read_bytes n rx = fst (ring.pops n rx)"
  by (induction n arbitrary: rx) (auto simp: Let_def split: prod.splits)

section \<open>The device contract\<close>

text \<open>
  What the driver relies on of an NS16550A whose line is quiet while it is served: the line status
  says whether a received byte waits and whether the transmitter is idle, a busy transmitter becomes
  idle after finitely many polls, reading the receive buffer takes the oldest byte, and writing the
  holding register sends one. \<open>pend\<close>, \<open>sent\<close> and \<open>busy\<close> read the device state.
\<close>

definition ns16550 :: "'d bus \<Rightarrow> ('d \<Rightarrow> u8 list) \<Rightarrow> ('d \<Rightarrow> u8 list) \<Rightarrow> ('d \<Rightarrow> nat) \<Rightarrow> bool" where
  "ns16550 b pend sent busy \<longleftrightarrow>
     (\<forall>d v d'. read_volatile b (UART_BASE + LSR) d = (v, d') \<longrightarrow>
        (v AND LSR_RX_READY \<noteq> 0 \<longleftrightarrow> pend d \<noteq> []) \<and> (v AND LSR_TX_IDLE \<noteq> 0 \<longleftrightarrow> busy d = 0) \<and>
        pend d' = pend d \<and> sent d' = sent d \<and> busy d' = busy d - 1) \<and>
     (\<forall>d v d'. read_volatile b (UART_BASE + RBR) d = (v, d') \<and> pend d \<noteq> [] \<longrightarrow>
        v = hd (pend d) \<and> pend d' = tl (pend d) \<and> sent d' = sent d) \<and>
     (\<forall>d x. pend (write_volatile b (UART_BASE + THR) x d) = pend d \<and>
        sent (write_volatile b (UART_BASE + THR) x d) = sent d @ [x])"

lemma ns16550_lsr:
  "ns16550 b pend sent busy \<Longrightarrow> read_volatile b (UART_BASE + LSR) d = (v, d') \<Longrightarrow>
   (v AND LSR_RX_READY \<noteq> 0 \<longleftrightarrow> pend d \<noteq> []) \<and> (v AND LSR_TX_IDLE \<noteq> 0 \<longleftrightarrow> busy d = 0) \<and>
   pend d' = pend d \<and> sent d' = sent d \<and> busy d' = busy d - 1"
  unfolding ns16550_def by blast

lemma uart_put_sends:
  assumes hw: "ns16550 b pend sent busy"
  shows "\<exists>d'. uart_put b x d = Some d' \<and> pend d' = pend d \<and> sent d' = sent d @ [x]"
proof (induction "busy d" arbitrary: d)
  case 0
  obtain v d1 where r: "read_volatile b (UART_BASE + LSR) d = (v, d1)" by (metis surj_pair)
  then have "v AND 32 \<noteq> 0" "pend d1 = pend d" "sent d1 = sent d" using ns16550_lsr [OF hw r] 0 by auto
  with r hw show ?case by (subst uart_put.simps) (auto simp: ns16550_def uart_read_def uart_write_def)
next
  case (Suc n)
  obtain v d1 where r: "read_volatile b (UART_BASE + LSR) d = (v, d1)" by (metis surj_pair)
  then have v: "v AND 32 = 0" and d1: "pend d1 = pend d" "sent d1 = sent d" "n = busy d1"
    using ns16550_lsr [OF hw r] Suc(2) by auto
  then show ?case using Suc(1) [OF d1(3)] r d1 by (subst uart_put.simps) (simp add: uart_read_def)
qed

lemma uart_get_takes:
  assumes "ns16550 b pend sent busy"
  shows "pend d = [] \<Longrightarrow> \<exists>d'. uart_get b d = (None, d') \<and> pend d' = [] \<and> sent d' = sent d"
    and "pend d = x # xs \<Longrightarrow> \<exists>d'. uart_get b d = (Some x, d') \<and> pend d' = xs \<and> sent d' = sent d"
proof -
  obtain v d1 where r: "read_volatile b (UART_BASE + LSR) d = (v, d1)" by (metis surj_pair)
  have v: "v AND 1 \<noteq> 0 \<longleftrightarrow> pend d \<noteq> []" "pend d1 = pend d" "sent d1 = sent d"
    using ns16550_lsr [OF assms r] by auto
  obtain w d2 where r2: "read_volatile b (UART_BASE + RBR) d1 = (w, d2)" by (metis surj_pair)
  then have w: "pend d1 \<noteq> [] \<Longrightarrow> w = hd (pend d1) \<and> pend d2 = tl (pend d1) \<and> sent d2 = sent d1"
    using assms by (auto simp: ns16550_def)
  show "\<exists>d'. uart_get b d = (None, d') \<and> pend d' = [] \<and> sent d' = sent d" if "pend d = []"
    using that v r by (simp add: uart_get_def uart_read_def)
  show "\<exists>d'. uart_get b d = (Some x, d') \<and> pend d' = xs \<and> sent d' = sent d" if "pend d = x # xs"
    using that v r r2 w by (simp add: uart_get_def uart_read_def)
qed

text \<open>What the console does to the bytes it receives, and what it sends for a byte.\<close>

definition cr_to_nl :: "u8 \<Rightarrow> u8" where "cr_to_nl x = (if x = 13 then 10 else x)"
definition crlf :: "u8 \<Rightarrow> u8 list" where "crlf x = (if x = 10 then [13, 10] else [x])"

lemma put_crlf:
  assumes hw: "ns16550 b pend sent busy"
  shows "\<exists>d'. do { d \<leftarrow> (if x = 10 then uart_put b 13 d else Some d); uart_put b x d } = Some d' \<and>
    pend d' = pend d \<and> sent d' = sent d @ crlf x"
proof -
  obtain d1 where 1: "(if x = 10 then uart_put b 13 d else Some d) = Some d1" "pend d1 = pend d"
    "sent d1 = sent d @ (if x = 10 then [13] else [])"
    using uart_put_sends [OF hw, of 13 d] by (cases "x = 10") auto
  obtain d2 where "uart_put b x d1 = Some d2" "pend d2 = pend d1" "sent d2 = sent d1 @ [x]"
    using uart_put_sends [OF hw, of x d1] by blast
  with 1 show ?thesis by (simp add: crlf_def)
qed

text \<open>Both writers send their text with every line feed as CR LF, however long the transmitter is busy.\<close>

lemma write_bytes_sends:
  assumes hw: "ns16550 b pend sent busy"
  shows "\<exists>d'. write_bytes b bytes d = Some d' \<and> pend d' = pend d \<and> sent d' = sent d @ concat (map crlf bytes)"
proof (induction bytes arbitrary: d)
  case (Cons x bytes)
  obtain d1 where "do { d \<leftarrow> (if x = 10 then uart_put b 13 d else Some d); uart_put b x d } = Some d1"
    and d1: "pend d1 = pend d" "sent d1 = sent d @ crlf x" using put_crlf [OF hw, of x d] by blast
  then have "write_bytes b (x # bytes) d = write_bytes b bytes d1"
    by (auto simp: bind_eq_Some_conv split: if_splits)
  then show ?case using Cons.IH [of d1] d1 by simp
qed simp

lemma write_str_bytes: "write_str b bytes = write_bytes b bytes"
  by (induction bytes; rule ext) simp_all

lemma drain_rx_result:
  assumes hw: "ns16550 b pend sent busy"
  shows "ring_ok rx \<Longrightarrow> \<exists>got' rx' d'. drain_rx b got rx d = Some (got', rx', d') \<and>
    pend d' = [] \<and> sent d' = sent d @ concat (map (crlf \<circ> cr_to_nl) (pend d)) \<and>
    rx' = fold (\<lambda>x rx. snd (rx_push x rx)) (map cr_to_nl (pend d)) rx \<and>
    (got' \<longleftrightarrow> got \<or> pend d \<noteq> [] \<and> length (ring_items rx) < 255)"
proof (induction "pend d" arbitrary: d rx got)
  case Nil
  then obtain d' where "uart_get b d = (None, d')" "pend d' = []" "sent d' = sent d"
    using uart_get_takes(1) [OF hw, of d] by auto
  then show ?case using Nil by (subst drain_rx.simps) simp
next
  case (Cons x xs)
  let ?x = "cr_to_nl x" and ?rx = "snd (rx_push (cr_to_nl x) rx)"
  obtain d1 where g: "uart_get b d = (Some x, d1)" "pend d1 = xs" "sent d1 = sent d"
    using uart_get_takes(2) [OF hw] Cons(2) by metis
  obtain d2 where p: "do { d \<leftarrow> (if ?x = 10 then uart_put b 13 d1 else Some d1); uart_put b ?x d } = Some d2"
    "pend d2 = pend d1" "sent d2 = sent d1 @ crlf ?x"
    using put_crlf [OF hw, of ?x d1] by blast
  note items = rx_push_items [OF Cons.prems]
  have step: "drain_rx b got rx d = drain_rx b (got \<or> fst (rx_push ?x rx)) ?rx d2"
    using g(1) p(1) by (subst drain_rx.simps) (auto simp: Let_def cr_to_nl_def split: prod.splits bind_splits)
  have "xs = pend d2" using g p by simp
  from Cons(1) [OF this items(1) [of ?x], of "got \<or> fst (rx_push ?x rx)"] obtain got' rx' d' where r:
    "drain_rx b (got \<or> fst (rx_push ?x rx)) ?rx d2 = Some (got', rx', d')" "pend d' = []"
    "sent d' = sent d2 @ concat (map (crlf \<circ> cr_to_nl) xs)"
    "rx' = fold (\<lambda>x rx. snd (rx_push x rx)) (map cr_to_nl xs) ?rx"
    "got' \<longleftrightarrow> (got \<or> fst (rx_push ?x rx)) \<or> xs \<noteq> [] \<and> length (ring_items ?rx) < 255"
    using \<open>xs = pend d2\<close> by auto
  have "length (ring_items ?rx) < 255 \<Longrightarrow> length (ring_items rx) < 255" using items(2) [of ?x] by (auto split: if_splits)
  with r step g p Cons(2) [symmetric] items(3) [of ?x] show ?case by auto
qed

text \<open>
  C30: serving the UART interrupt terminates and takes every waiting byte: each is buffered in order
  (a CR as a LF) as long as the 255 places of the ring last, echoed as the terminal expects it (a LF
  as CR LF), and the flag that wakes the console's reader is set exactly if a byte was kept.
\<close>

theorem uart_drain_complete:
  assumes "ns16550 b pend sent busy" and "ring_ok rx"
  shows "\<exists>got rx' d'. drain_rx b False rx d = Some (got, rx', d') \<and> pend d' = [] \<and> ring_ok rx' \<and>
    ring_items rx' = ring_items rx @ take (255 - length (ring_items rx)) (map cr_to_nl (pend d)) \<and>
    sent d' = sent d @ concat (map (crlf \<circ> cr_to_nl) (pend d)) \<and>
    (got \<longleftrightarrow> ring_items rx' \<noteq> ring_items rx)"
proof -
  note P = ring.pushes_items [OF assms(2), of "map cr_to_nl (pend d)"]
  from drain_rx_result [OF assms, of False d] P show ?thesis by fastforce
qed

text \<open>
  C31: the console's ring delivers the bytes it kept in the order of their arrival.
\<close>

theorem uart_ring_order:
  assumes "ring_ok rx" and "length (ring_items rx) + length xs \<le> 255"
  shows "read_bytes (length (ring_items rx) + length xs) (fold (\<lambda>x rx. snd (rx_push x rx)) xs rx) =
    map Some (ring_items rx @ xs)"
  unfolding read_bytes_pops by (rule ring.fifo_order [OF assms])

text \<open>A device that meets the contract: the waiting bytes, the bytes sent, and how long the transmitter stays busy.\<close>

definition demo_bus :: "(u8 list \<times> u8 list \<times> nat) bus" where
  "demo_bus = \<lparr>read_volatile = (\<lambda>a (p, s, n).
       if a = UART_BASE + LSR then ((if p \<noteq> [] then 1 else 0) OR (if n = 0 then 32 else 0), (p, s, n - 1))
       else (hd p, (tl p, s, n))),
     write_volatile = (\<lambda>a x (p, s, n). if a = UART_BASE then (p, s @ [x], 2) else (p, s, n))\<rparr>"

lemma demo_bus_16550: "ns16550 demo_bus fst (\<lambda>d. fst (snd d)) (\<lambda>d. snd (snd d))"
  by (auto simp: ns16550_def demo_bus_def)

theorem uart_drain_complete_witness:
  "\<exists>got rx' d'. drain_rx demo_bus False RX_BUF ([104, 105, 13], [], 3) = Some (got, rx', d') \<and>
    ring_items rx' = [104, 105, 10] \<and> fst (snd d') = [104, 105, 13, 10]"
  using uart_drain_complete [OF demo_bus_16550 RX_BUF_ok, of "([104, 105, 13], [], 3)"]
  by (auto simp: RX_BUF_items cr_to_nl_def crlf_def)

theorem uart_ring_order_witness:
  "read_bytes 2 (fold (\<lambda>x rx. snd (rx_push x rx)) [7, 8] RX_BUF) = [Some 7, Some 8]"
  using uart_ring_order [OF RX_BUF_ok, of "[7, 8]"]
  by (simp add: RX_BUF_items numeral_2_eq_2 del: fold_simps read_bytes.simps)

end
