(* ===== verification/Nce.thy ===== *)
theory Nce
  imports Strings Phys_Mem
begin

text \<open>
  \<open>kernel/nce/\<close>: the table of neural compute elements and their power state machine
  (\<open>mod.rs\<close>, \<open>power.rs\<close>). The table is a list, as the vector of the source. A doorbell write to a
  hardware slot goes through a parameter that acts on the device's own state.
\<close>

section \<open>Power states\<close>

datatype PowerState = Idle | Active | Turbo

fun as_str :: "PowerState \<Rightarrow> string" where
  "as_str Idle = ''idle''"
| "as_str Active = ''active''"
| "as_str Turbo = ''turbo''"

definition PowerState_parse :: "u8 list \<Rightarrow> PowerState option" where
  "PowerState_parse s =
     (let t = trim s in
      if t = str_bytes ''idle'' then Some Idle
      else if t = str_bytes ''active'' then Some Active
      else if t = str_bytes ''turbo'' then Some Turbo
      else None)"

fun can_transition :: "PowerState \<Rightarrow> PowerState \<Rightarrow> bool" where
  "can_transition Idle Active = True"
| "can_transition Active Turbo = True"
| "can_transition Active Idle = True"
| "can_transition Turbo Active = True"
| "can_transition Turbo Idle = True"
| "can_transition _ _ = False"

definition REG_POWER :: usize where [simp]: "REG_POWER = 0"

fun doorbell_value :: "PowerState \<Rightarrow> u32" where
  "doorbell_value Idle = 0"
| "doorbell_value Active = 1"
| "doorbell_value Turbo = 2"

section \<open>The table\<close>

record NceDescriptor =
  nce_slot :: nat
  mmio_base :: usize
  mem_base :: usize
  mem_size :: usize

record Nce =
  nce_desc :: NceDescriptor
  nce_state :: PowerState
  hardware :: bool

definition EMULATED_SLOTS :: nat where [simp]: "EMULATED_SLOTS = 2"
definition EMULATED_MMIO_BASE :: usize where [simp]: "EMULATED_MMIO_BASE = 0x60000000"
definition EMULATED_MEM_BASE :: usize where [simp]: "EMULATED_MEM_BASE = 0x61000000"
definition EMULATED_MEM_SIZE :: usize where [simp]: "EMULATED_MEM_SIZE = 0x100000"

text \<open>\<open>blob.windows(n).any(|w| w == pat)\<close>.\<close>

definition any_window :: "u8 list \<Rightarrow> u8 list \<Rightarrow> bool" where
  "any_window pat blob \<longleftrightarrow>
     list_ex (\<lambda>k. take (length pat) (drop k blob) = pat) [0..<length blob + 1 - length pat]"

definition dtb_has_nce_nodes :: "pmem \<Rightarrow> usize \<Rightarrow> bool" where
  "dtb_has_nce_nodes m dtb =
     (if dtb = 0 then False
      else (let magic = from_be_bytes (load_bytes m dtb 4) :: u32;
                tot = unat (from_be_bytes (load_bytes m (dtb + 4) 4) :: u32) in
            if magic \<noteq> 0xd00dfeed \<or> tot = 0 \<or> tot > 4 * 1024 * 1024 then False
            else any_window (str_bytes ''lightrail,nce'') (load_bytes m dtb tot)))"

definition emulated_nce :: "nat \<Rightarrow> Nce" where
  "emulated_nce slot = \<lparr>nce_desc = \<lparr>nce_slot = slot, mmio_base = EMULATED_MMIO_BASE + word_of_nat slot * 0x1000,
      mem_base = EMULATED_MEM_BASE + word_of_nat slot * EMULATED_MEM_SIZE, mem_size = EMULATED_MEM_SIZE\<rparr>,
    nce_state = Idle, hardware = False\<rparr>"

text \<open>\<open>init\<close>: the flag is the outcome of the device-tree scan, which the source only logs.\<close>

definition nce_init :: "pmem \<Rightarrow> usize \<Rightarrow> Nce list \<Rightarrow> bool \<times> Nce list" where
  "nce_init m dtb nces =
     (dtb_has_nce_nodes m dtb, if nces = [] then map emulated_nce [0..<EMULATED_SLOTS] else nces)"

definition nce_count :: "Nce list \<Rightarrow> nat" where "nce_count nces = length nces"

definition describe :: "Nce list \<Rightarrow> nat \<Rightarrow> string option" where
  "describe nces slot =
     (if slot < length nces then
        (let nce = nces ! slot; d = nce_desc nce in
         Some (''nce'' @ fmt_dec (nce_slot d) @ '': state='' @ as_str (nce_state nce) @
           '' mmio='' @ fmt_hex (unat (mmio_base d)) @ '' mem='' @ fmt_hex (unat (mem_base d)) @ ''+'' @
           fmt_hex (unat (mem_size d)) @ '' '' @ (if hardware nce then ''hw'' else ''emulated'') @ ''\<newline>''))
      else None)"

definition set_power :: "(usize \<Rightarrow> u32 \<Rightarrow> 'd \<Rightarrow> 'd) \<Rightarrow> nat \<Rightarrow> PowerState \<Rightarrow> Nce list \<Rightarrow> 'd \<Rightarrow>
    unit result \<times> Nce list \<times> 'd" where
  "set_power wr slot nxt nces d =
     (if slot < length nces then
        (let nce = nces ! slot in
         if nce_state nce = nxt then (Inr (), nces, d)
         else if \<not> can_transition (nce_state nce) nxt then (Inl ''nce: invalid power transition'', nces, d)
         else (let d = (if hardware nce then wr (mmio_base (nce_desc nce) + REG_POWER) (doorbell_value nxt) d else d)
               in (Inr (), nces[slot := nce\<lparr>nce_state := nxt\<rparr>], d)))
      else (Inl ''nce: no such slot'', nces, d))"

section \<open>Properties\<close>

text \<open>
  Hardware slots have register windows of their own, and the register holds the doorbell value of
  the state. \<open>reg\<close> reads a register of the device state.
\<close>

definition nce_sync :: "('d \<Rightarrow> usize \<Rightarrow> u32) \<Rightarrow> Nce list \<Rightarrow> 'd \<Rightarrow> bool" where
  "nce_sync reg nces d \<longleftrightarrow>
     (\<forall>i < length nces. hardware (nces ! i) \<longrightarrow>
        reg d (mmio_base (nce_desc (nces ! i)) + REG_POWER) = doorbell_value (nce_state (nces ! i)) \<and>
        (\<forall>j < length nces. j \<noteq> i \<and> hardware (nces ! j) \<longrightarrow>
           mmio_base (nce_desc (nces ! j)) \<noteq> mmio_base (nce_desc (nces ! i))))"

definition registers :: "(usize \<Rightarrow> u32 \<Rightarrow> 'd \<Rightarrow> 'd) \<Rightarrow> ('d \<Rightarrow> usize \<Rightarrow> u32) \<Rightarrow> bool" where
  "registers wr reg \<longleftrightarrow> (\<forall>a v d x. reg (wr a v d) x = (if x = a then v else reg d x))"

definition nce_states :: "Nce list \<Rightarrow> PowerState list" where
  "nce_states nces = map nce_state nces"

text \<open>The requests a sequence of \<open>set_power\<close> calls makes.\<close>

fun set_powers :: "(usize \<Rightarrow> u32 \<Rightarrow> 'd \<Rightarrow> 'd) \<Rightarrow> (nat \<times> PowerState) list \<Rightarrow> Nce list \<Rightarrow> 'd \<Rightarrow> Nce list \<times> 'd" where
  "set_powers wr [] nces d = (nces, d)"
| "set_powers wr ((slot, p) # rs) nces d = (case set_power wr slot p nces d of (_, nces, d) \<Rightarrow> set_powers wr rs nces d)"

lemma set_power_sync:
  assumes regs: "registers wr reg" and sync: "nce_sync reg nces d" and r: "set_power wr slot p nces d = (r, nces', d')"
  shows "nce_sync reg nces' d'"
proof (cases "nces' = nces \<and> d' = d")
  case False
  let ?n = "nces ! slot"
  from False r have slot: "slot < length nces"
    and n': "nces' = nces[slot := ?n\<lparr>nce_state := p\<rparr>]"
    and d': "d' = (if hardware ?n then wr (mmio_base (nce_desc ?n) + REG_POWER) (doorbell_value p) d else d)"
    by (auto simp: set_power_def Let_def split: if_splits)
  have hw: "hardware (nces' ! i) = hardware (nces ! i)" "nce_desc (nces' ! i) = nce_desc (nces ! i)" for i
    using slot n' by (cases "i = slot"; simp)+
  show ?thesis
    unfolding nce_sync_def
  proof (intro allI impI conjI)
    fix i assume i: "i < length nces'" "hardware (nces' ! i)"
    then have i': "i < length nces" "hardware (nces ! i)" using n' hw by simp_all
    then show "reg d' (mmio_base (nce_desc (nces' ! i)) + REG_POWER) = doorbell_value (nce_state (nces' ! i))"
      using sync slot regs unfolding hw n' d'
      by (cases "i = slot") (auto simp: nce_sync_def registers_def)
    fix j assume "j < length nces'" "j \<noteq> i \<and> hardware (nces' ! j)"
    then show "mmio_base (nce_desc (nces' ! j)) \<noteq> mmio_base (nce_desc (nces' ! i))"
      using sync i' hw unfolding nce_sync_def by (simp add: n')
  qed
qed (use sync in simp)

text \<open>
  C33: the state the kernel keeps and the hardware never diverge: whatever power transitions are
  requested, each hardware slot's power register holds the doorbell value of its recorded state.
\<close>

theorem nce_doorbell_in_sync:
  assumes "registers wr reg" and "nce_sync reg nces d" and "set_powers wr requests nces d = (nces', d')"
  shows "nce_sync reg nces' d'"
  using assms(2,3)
proof (induction requests arbitrary: nces d)
  case (Cons r rs)
  obtain slot p where "r = (slot, p)" by (cases r)
  with Cons.prems obtain x n1 d1 where "set_power wr slot p nces d = (x, n1, d1)"
    "set_powers wr rs n1 d1 = (nces', d')" by (auto split: prod.splits)
  with Cons.IH set_power_sync [OF assms(1) Cons.prems(1)] show ?case by blast
qed simp

text \<open>
  C34: a power request succeeds exactly if the slot exists and the state machine allows the step; turbo is
  only entered from active, idle is reachable from every state in one request, and every state from
  every other in at most two. A refused request changes nothing.
\<close>

theorem nce_set_power_steps:
  assumes "set_power wr slot p nces d = (r, nces', d')"
  shows "(r = Inr () \<longleftrightarrow> slot < length nces \<and> (nce_states nces ! slot = p \<or> can_transition (nce_states nces ! slot) p)) \<and>
    (r = Inr () \<longrightarrow> nce_states nces' = (nce_states nces)[slot := p]) \<and>
    (r \<noteq> Inr () \<longrightarrow> nces' = nces \<and> d' = d) \<and>
    (can_transition s Turbo \<longleftrightarrow> s = Active) \<and> (s \<noteq> Idle \<longrightarrow> can_transition s Idle) \<and>
    (s \<noteq> q \<longrightarrow> can_transition s q \<or> can_transition s Active \<and> can_transition Active q)"
proof (cases "slot < length nces")
  case True
  then have "nce_states nces ! slot = nce_state (nces ! slot)" by (simp add: nce_states_def)
  moreover have "(nce_states nces)[slot := nce_state (nces ! slot)] = nce_states nces"
    using True by (simp add: nce_states_def flip: map_update)
  ultimately show ?thesis
    using assms True by (cases s; cases q) (auto simp: set_power_def Let_def nce_states_def map_update split: if_splits)
qed (use assms in \<open>cases s; cases q; auto simp: set_power_def\<close>)

text \<open>
  The names that descriptions print are the names that requests accept, with any ASCII white space
  around them.
\<close>

lemma nce_state_name_roundtrip:
  assumes "\<forall>a \<in> set pre. ws1 a" and "\<forall>a \<in> set post. ws1 a"
  shows "PowerState_parse (pre @ str_bytes (as_str p) @ post) = Some p"
proof -
  have "ws_head (str_bytes (as_str p) @ post) = 0" "ws_tail (rev (str_bytes (as_str p))) = 0"
    by (cases p; simp add: str_bytes_def ws1_def ws2_def ws3_def)+
  from trim_ascii [OF assms this] show ?thesis
    by (cases p) (simp_all add: PowerState_parse_def str_bytes_def)
qed

text \<open>A hardware slot over a register file.\<close>

definition demo_nces :: "Nce list" where
  "demo_nces = [(emulated_nce 0)\<lparr>hardware := True\<rparr>, emulated_nce 1]"

theorem nce_doorbell_in_sync_witness:
  "nce_sync (\<lambda>d a. d a) (fst (set_powers (\<lambda>a v d. d(a := v)) [(0, Active), (0, Turbo), (1, Turbo)] demo_nces (\<lambda>_. 0)))
     (snd (set_powers (\<lambda>a v d. d(a := v)) [(0, Active), (0, Turbo), (1, Turbo)] demo_nces (\<lambda>_. 0)))"
proof (rule nce_doorbell_in_sync [OF _ _ surjective_pairing])
  show "registers (\<lambda>a v d. d(a := v)) (\<lambda>d a. d a)" by (simp add: registers_def)
  show "nce_sync (\<lambda>d a. d a) demo_nces (\<lambda>_. 0)"
    by (auto simp: nce_sync_def demo_nces_def emulated_nce_def less_Suc_eq numeral_2_eq_2)
qed

theorem nce_set_power_steps_witness:
  "fst (set_power (\<lambda>a v d. d(a := v)) 1 Turbo demo_nces (\<lambda>_. 0)) \<noteq> Inr ()"
proof -
  obtain r nces' d' where e: "set_power (\<lambda>a v d. d(a := v)) 1 Turbo demo_nces (\<lambda>_. 0) = (r, nces', d')"
    by (metis prod_cases3)
  from nce_set_power_steps [OF e, THEN conjunct1] have "r \<noteq> Inr ()"
    by (simp add: nce_states_def demo_nces_def emulated_nce_def)
  with e show ?thesis by simp
qed

end
