(* ===== verification/Net_Codec.thy ===== *)
theory Net_Codec
  imports Prelude
begin

unbundle bit_operations_syntax

text \<open>
  \<open>kernel/net/{ethernet,arp,ipv4,icmp,udp}.rs\<close>: the packet builders and parsers and the
  internet checksum. Packets are byte lists; MAC and IP addresses are the byte lists of length
  6 and 4 that the source's arrays are. The locale \<open>codec\<close> states what a builder and its
  parser owe each other; it is interpreted on each of the five pairs. The checksum is shown
  to be the one's-complement sum, and every header the builders produce to verify.
\<close>

section \<open>Ethernet\<close>

definition ETHERTYPE_IPV4 :: u16 where [simp]: "ETHERTYPE_IPV4 = 0x0800"
definition ETHERTYPE_ARP :: u16 where [simp]: "ETHERTYPE_ARP = 0x0806"
definition BROADCAST :: "u8 list" where [simp]: "BROADCAST = replicate 6 0xff"
definition ETH_HDR_LEN :: nat where [simp]: "ETH_HDR_LEN = 14"

record Frame =
  eth_dst :: "u8 list"
  eth_src :: "u8 list"
  eth_type :: u16
  eth_payload :: "u8 list"

definition ethernet_build :: "u8 list \<Rightarrow> u8 list \<Rightarrow> u16 \<Rightarrow> u8 list \<Rightarrow> u8 list" where
  "ethernet_build dst src ethertype payload = dst @ src @ to_be_bytes 2 ethertype @ payload"

text \<open>A Rust slice \<open>xs[i..j]\<close> and the two-byte big-endian field at \<open>i\<close>.\<close>

definition slice :: "'a list \<Rightarrow> nat \<Rightarrow> nat \<Rightarrow> 'a list" where
  "slice xs i j = take (j - i) (drop i xs)"

definition be16 :: "u8 list \<Rightarrow> nat \<Rightarrow> u16" where
  "be16 xs i = from_be_bytes [xs ! i, xs ! (i + 1)]"

definition ethernet_parse :: "u8 list \<Rightarrow> Frame option" where
  "ethernet_parse frame =
     (if length frame < ETH_HDR_LEN then None
      else Some \<lparr>eth_dst = slice frame 0 6, eth_src = slice frame 6 12, eth_type = be16 frame 12,
                 eth_payload = drop ETH_HDR_LEN frame\<rparr>)"

section \<open>ARP\<close>

definition OP_REQUEST :: u16 where [simp]: "OP_REQUEST = 1"
definition OP_REPLY :: u16 where [simp]: "OP_REPLY = 2"
definition HTYPE_ETHERNET :: u16 where [simp]: "HTYPE_ETHERNET = 1"
definition PTYPE_IPV4 :: u16 where [simp]: "PTYPE_IPV4 = 0x0800"

record Arp =
  arp_op :: u16
  sender_mac :: "u8 list"
  sender_ip :: "u8 list"
  target_ip :: "u8 list"

definition arp_build :: "u16 \<Rightarrow> u8 list \<Rightarrow> u8 list \<Rightarrow> u8 list \<Rightarrow> u8 list \<Rightarrow> u8 list" where
  "arp_build op smac sip tmac tip =
     to_be_bytes 2 HTYPE_ETHERNET @ to_be_bytes 2 PTYPE_IPV4 @ [6, 4] @ to_be_bytes 2 op @
     smac @ sip @ tmac @ tip"

definition arp_parse :: "u8 list \<Rightarrow> Arp option" where
  "arp_parse payload =
     (if length payload < 28 then None
      else if be16 payload 0 \<noteq> HTYPE_ETHERNET \<or> be16 payload 2 \<noteq> PTYPE_IPV4 then None
      else Some \<lparr>arp_op = be16 payload 6, sender_mac = slice payload 8 14,
                 sender_ip = slice payload 14 18, target_ip = slice payload 24 28\<rparr>)"

section \<open>IPv4\<close>

definition PROTO_ICMP :: u8 where [simp]: "PROTO_ICMP = 1"
definition PROTO_UDP :: u8 where [simp]: "PROTO_UDP = 17"
definition IPV4_HDR_LEN :: nat where [simp]: "IPV4_HDR_LEN = 20"

text \<open>The two loops of \<open>checksum\<close>: the sum of the 16-bit words, then the folding of the carries.\<close>

fun sum_words :: "u8 list \<Rightarrow> u32 \<Rightarrow> u32" where
  "sum_words (a # b # ds) s = sum_words ds (s + ucast (from_be_bytes [a, b] :: u16))"
| "sum_words [a] s = s + push_bit 8 (ucast a)"
| "sum_words [] s = s"

function fold_carries :: "u32 \<Rightarrow> u32" where
  "fold_carries s = (if drop_bit 16 s \<noteq> 0 then fold_carries ((s AND 0xffff) + drop_bit 16 s) else s)"
  by pat_completeness auto

lemma unat_fold_step:
  "unat ((s AND 0xffff) + drop_bit 16 s :: u32) = unat s mod 65536 + unat s div 65536"
proof -
  have "s AND 0xffff = take_bit 16 s" by (simp add: take_bit_eq_mask mask_eq_exp_minus_1)
  then have "unat (s AND 0xffff) = unat s mod 65536"
    by (simp only: unsigned_take_bit_eq) (simp add: take_bit_eq_mod)
  moreover have "unat (drop_bit 16 s) = unat s div 65536" by (simp add: drop_bit_eq_div unat_div)
  moreover have "unat s < 2 ^ 32" using unsigned_less [of s] by simp
  then have "unat s div 65536 < 65536" by (simp add: div_less_iff_less_mult)
  moreover have "unat s mod 65536 < 65536" by simp
  ultimately show ?thesis by (simp add: unat_word_ariths)
qed

lemma unat_drop_16: "drop_bit 16 (s :: u32) \<noteq> 0 \<longleftrightarrow> 65536 \<le> unat s"
proof -
  have "drop_bit 16 s \<noteq> 0 \<longleftrightarrow> unat (drop_bit 16 s) \<noteq> 0" by (simp add: unsigned_eq_0_iff)
  also have "\<dots> \<longleftrightarrow> 65536 \<le> unat s" by (simp add: drop_bit_eq_div unat_div) linarith
  finally show ?thesis .
qed

termination fold_carries
proof (relation "measure unat")
  fix s :: u32 assume "drop_bit 16 s \<noteq> 0"
  then have "65536 \<le> unat s" by (simp add: unat_drop_16)
  then have "0 < unat s div 65536" by simp
  then have "unat s mod 65536 + unat s div 65536 < unat s"
    using div_mult_mod_eq [of "unat s" 65536] by linarith
  then show "((s AND 0xffff) + drop_bit 16 s, s) \<in> measure unat"
    by (simp add: unat_fold_step)
qed simp

declare fold_carries.simps [simp del]

definition checksum :: "u8 list \<Rightarrow> u16" where
  "checksum data = NOT (ucast (fold_carries (sum_words data 0)))"

text \<open>The header of \<open>build\<close> with the two checksum bytes as given.\<close>

definition ipv4_header :: "u8 list \<Rightarrow> u8 list \<Rightarrow> u8 \<Rightarrow> u16 \<Rightarrow> u16 \<Rightarrow> u8 list \<Rightarrow> u8 list" where
  "ipv4_header src dst proto total_len ident csum =
     [0x45, 0x00] @ to_be_bytes 2 total_len @ to_be_bytes 2 ident @ to_be_bytes 2 (0x4000 :: u16) @
     [64, proto] @ csum @ src @ dst"

definition ipv4_build :: "u8 list \<Rightarrow> u8 list \<Rightarrow> u8 \<Rightarrow> u8 list \<Rightarrow> u16 \<Rightarrow> u8 list" where
  "ipv4_build src dst proto payload ident =
     (let total_len = word_of_nat (IPV4_HDR_LEN + length payload);
          csum = checksum (ipv4_header src dst proto total_len ident [0, 0])
      in ipv4_header src dst proto total_len ident (to_be_bytes 2 csum) @ payload)"

record Ipv4 =
  ip_src :: "u8 list"
  ip_dst :: "u8 list"
  ip_proto :: u8
  ip_payload :: "u8 list"

definition ipv4_parse :: "u8 list \<Rightarrow> Ipv4 option" where
  "ipv4_parse pkt =
     (if length pkt < IPV4_HDR_LEN \<or> drop_bit 4 (pkt ! 0) \<noteq> 4 then None
      else (let ihl = unat (pkt ! 0 AND 0x0f) * 4 in
        if ihl < IPV4_HDR_LEN \<or> length pkt < ihl then None
        else (let total_len = unat (be16 pkt 2); end_pos = min total_len (length pkt) in
          if end_pos < ihl then None
          else Some \<lparr>ip_src = slice pkt 12 16, ip_dst = slice pkt 16 20, ip_proto = pkt ! 9,
                     ip_payload = slice pkt ihl end_pos\<rparr>)))"

section \<open>ICMP\<close>

definition TYPE_ECHO_REQUEST :: u8 where [simp]: "TYPE_ECHO_REQUEST = 8"
definition TYPE_ECHO_REPLY :: u8 where [simp]: "TYPE_ECHO_REPLY = 0"

definition icmp_message :: "u8 \<Rightarrow> u16 \<Rightarrow> u16 \<Rightarrow> u8 list \<Rightarrow> u8 list \<Rightarrow> u8 list" where
  "icmp_message msg_type ident sq payload csum =
     [msg_type, 0] @ csum @ to_be_bytes 2 ident @ to_be_bytes 2 sq @ payload"

definition icmp_build :: "u8 \<Rightarrow> u16 \<Rightarrow> u16 \<Rightarrow> u8 list \<Rightarrow> u8 list" where
  "icmp_build msg_type ident sq payload =
     icmp_message msg_type ident sq payload
       (to_be_bytes 2 (checksum (icmp_message msg_type ident sq payload [0, 0])))"

record Icmp =
  icmp_type :: u8
  icmp_id :: u16
  icmp_seq :: u16
  icmp_payload :: "u8 list"

definition icmp_parse :: "u8 list \<Rightarrow> Icmp option" where
  "icmp_parse d =
     (if length d < 8 then None
      else Some \<lparr>icmp_type = d ! 0, icmp_id = be16 d 4, icmp_seq = be16 d 6, icmp_payload = drop 8 d\<rparr>)"

section \<open>UDP\<close>

definition UDP_HDR_LEN :: nat where [simp]: "UDP_HDR_LEN = 8"

definition udp_datagram :: "u16 \<Rightarrow> u16 \<Rightarrow> u16 \<Rightarrow> u8 list \<Rightarrow> u8 list \<Rightarrow> u8 list" where
  "udp_datagram src_port dst_port len payload csum =
     to_be_bytes 2 src_port @ to_be_bytes 2 dst_port @ to_be_bytes 2 len @ csum @ payload"

definition udp_pseudo :: "u8 list \<Rightarrow> u8 list \<Rightarrow> u16 \<Rightarrow> u8 list" where
  "udp_pseudo sip dip len = sip @ dip @ [0, PROTO_UDP] @ to_be_bytes 2 len"

definition udp_build :: "u8 list \<Rightarrow> u8 list \<Rightarrow> u16 \<Rightarrow> u16 \<Rightarrow> u8 list \<Rightarrow> u8 list" where
  "udp_build sip dip src_port dst_port payload =
     (let len = word_of_nat (UDP_HDR_LEN + length payload);
          buf = udp_pseudo sip dip len @ udp_datagram src_port dst_port len payload [0, 0];
          csum = checksum buf;
          csum = (if csum = 0 then 0xffff else csum)
      in udp_datagram src_port dst_port len payload (to_be_bytes 2 csum))"

record Udp =
  udp_src_port :: u16
  udp_dst_port :: u16
  udp_payload :: "u8 list"

text \<open>\<open>clamp(lo, hi)\<close> panics when \<open>lo > hi\<close>; the length check before it excludes that.\<close>

definition udp_parse :: "u8 list \<Rightarrow> Udp option" where
  "udp_parse d =
     (if length d < UDP_HDR_LEN then None
      else (let len = unat (be16 d 4); end_pos = max UDP_HDR_LEN (min len (length d)) in
        Some \<lparr>udp_src_port = be16 d 0, udp_dst_port = be16 d 2, udp_payload = slice d UDP_HDR_LEN end_pos\<rparr>))"

section \<open>The checksum is the one's-complement sum\<close>

fun nsum :: "u8 list \<Rightarrow> nat" where
  "nsum (a # b # ds) = 256 * unat a + unat b + nsum ds"
| "nsum [a] = 256 * unat a"
| "nsum [] = 0"

lemma unat_u8_less: "unat (a :: u8) < 256"
  using unsigned_less [of a] by simp

lemma unat_be_pair: "unat (from_be_bytes [a, b] :: u16) = 256 * unat a + unat b"
proof -
  have "(from_be_bytes [a, b] :: u16) = ucast b OR push_bit 8 (ucast a)"
    by (simp add: from_be_bytes_def)
  also have "\<dots> = ucast b + push_bit 8 (ucast a)"
    by (rule disjunctive_add_eq_or [symmetric], rule bit_word_eqI)
      (auto simp: bit_simps dest: bit_imp_le_length)
  also have "\<dots> = word_of_nat (256 * unat a + unat b)"
    by (simp add: push_bit_eq_mult unsigned_of_nat word_of_nat_eq_iff)
  finally have eq: "(from_be_bytes [a, b] :: u16) = word_of_nat (256 * unat a + unat b)" .
  have "256 * unat a + unat b < 65536" using unat_u8_less [of a] unat_u8_less [of b] by linarith
  then show ?thesis unfolding eq by (subst unat_of_nat) simp
qed

lemma to_be_2: "to_be_bytes 2 (w :: u16) = [ucast (drop_bit 8 w), ucast w]"
  by (simp add: to_be_bytes_def to_le_bytes_def numeral_2_eq_2)

lemma be_pair [simp]: "from_be_bytes [ucast (drop_bit 8 w), ucast w] = (w :: u16)"
  using from_to_be_u16 [of w] by (simp add: to_be_2)

lemma nsum_pair: "256 * unat (ucast (drop_bit 8 w) :: u8) + unat (ucast w :: u8) = unat (w :: u16)"
  using unat_be_pair [of "ucast (drop_bit 8 w)" "ucast w"] by simp

lemma nsum_append: "even (length xs) \<Longrightarrow> nsum (xs @ ys) = nsum xs + nsum ys"
  by (induction xs rule: nsum.induct) auto

lemma nsum_bound: "nsum ds \<le> 65535 * ((length ds + 1) div 2)"
proof (induction ds rule: nsum.induct)
  case (1 a b ds)
  have "(length (a # b # ds) + 1) div 2 = (length ds + 1) div 2 + 1" by simp
  with 1 unat_u8_less [of a] unat_u8_less [of b] show ?case by simp
next
  case (2 a)
  with unat_u8_less [of a] show ?case by simp
qed simp

lemma sum_words_nsum: "sum_words ds s = s + word_of_nat (nsum ds)"
proof (induction ds s rule: sum_words.induct)
  case (1 a b ds s)
  have "(ucast (from_be_bytes [a, b] :: u16) :: u32) = word_of_nat (256 * unat a + unat b)"
    unfolding unat_be_pair [symmetric] by simp
  with 1 show ?case by (simp add: algebra_simps)
next
  case (2 a s)
  have "push_bit 8 (ucast a :: u32) = word_of_nat (256 * unat a)" by (simp add: push_bit_eq_mult)
  then show ?case by simp
qed simp

text \<open>Folding the carries computes the residue modulo \<open>2^16 - 1\<close>, with 65535 for the positive multiples.\<close>

lemma fold_carries_spec:
  "unat (fold_carries s) \<le> 65535 \<and> unat (fold_carries s) mod 65535 = unat s mod 65535 \<and>
   (unat (fold_carries s) = 0 \<longleftrightarrow> unat s = 0)"
proof (induction s rule: fold_carries.induct)
  case (1 s)
  show ?case
  proof (cases "drop_bit 16 s \<noteq> 0")
    case True
    let ?t = "(s AND 0xffff) + drop_bit 16 s"
    have "65536 \<le> unat s" using True by (simp add: unat_drop_16)
    then have "0 < unat s div 65536" by simp
    then have "unat ?t \<noteq> 0" by (simp add: unat_fold_step)
    moreover have "unat ?t mod 65535 = unat s mod 65535"
    proof -
      have "unat s = unat ?t + 65535 * (unat s div 65536)"
        unfolding unat_fold_step using div_mult_mod_eq [of "unat s" 65536] by linarith
      then show ?thesis by (metis mod_mult_self2)
    qed
    moreover have "fold_carries s = fold_carries ?t" using True by (subst fold_carries.simps) simp
    ultimately show ?thesis using 1 [OF True] \<open>65536 \<le> unat s\<close> by simp
  next
    case False
    then have "fold_carries s = s" by (subst fold_carries.simps) simp
    with False unat_drop_16 [of s] show ?thesis by simp
  qed
qed

lemma unat_checksum:
  assumes "length ds < 2 ^ 16"
  shows "unat (checksum ds) + unat (fold_carries (word_of_nat (nsum ds))) = 65535"
    and "unat (word_of_nat (nsum ds) :: u32) = nsum ds"
proof -
  have "nsum ds \<le> 65535 * 32768" using nsum_bound [of ds] assms by (simp add: div_le_mono)
  then show n: "unat (word_of_nat (nsum ds) :: u32) = nsum ds" by (simp add: unat_of_nat)
  let ?f = "fold_carries (word_of_nat (nsum ds))"
  have "unat (ucast ?f :: u16) = unat ?f"
    using fold_carries_spec [of "word_of_nat (nsum ds)"] by (simp add: unsigned_ucast_eq take_bit_eq_mod)
  moreover have "unat (NOT w) + unat w = 65535" for w :: u16
  proof -
    have "NOT w = - 1 - w" by (simp add: not_eq_complement)
    moreover have "w \<le> - 1" by simp
    moreover have "unat (- 1 :: u16) = 65535" by (simp add: unsigned_minus_1_eq_mask mask_eq_exp_minus_1)
    ultimately show ?thesis by (simp add: unat_sub word_le_nat_alt)
  qed
  ultimately show "unat (checksum ds) + unat ?f = 65535"
    unfolding checksum_def sum_words_nsum add_0 by metis
qed

text \<open>The central fact: a message verifies when its sum is a positive multiple of 65535.\<close>

lemma checksum_zero_iff:
  assumes "length ds < 2 ^ 16"
  shows "checksum ds = 0 \<longleftrightarrow> nsum ds \<noteq> 0 \<and> nsum ds mod 65535 = 0"
proof -
  let ?f = "unat (fold_carries (word_of_nat (nsum ds)))"
  note spec = fold_carries_spec [of "word_of_nat (nsum ds)", unfolded unat_checksum(2) [OF assms]]
  have "checksum ds = 0 \<longleftrightarrow> unat (checksum ds) = 0" by (simp add: unsigned_eq_0_iff)
  also have "\<dots> \<longleftrightarrow> ?f = 65535" using unat_checksum(1) [OF assms] by linarith
  also have "\<dots> \<longleftrightarrow> nsum ds \<noteq> 0 \<and> nsum ds mod 65535 = 0"
  proof
    assume "?f = 65535"
    with spec show "nsum ds \<noteq> 0 \<and> nsum ds mod 65535 = 0" by simp
  next
    assume "nsum ds \<noteq> 0 \<and> nsum ds mod 65535 = 0"
    with spec have "?f \<noteq> 0" "?f mod 65535 = 0" "?f \<le> 65535" by auto
    then show "?f = 65535" by (cases "?f < 65535") auto
  qed
  finally show ?thesis .
qed

text \<open>Filling a zeroed even-offset checksum field in makes the whole verify.\<close>

lemma checksum_fill:
  assumes "even (length pre)" and len: "length pre + length post < 65534"
    and c: "c = checksum (pre @ [0, 0] @ post) \<or> checksum (pre @ [0, 0] @ post) = 0 \<and> c = 0xffff"
  shows "checksum (pre @ to_be_bytes 2 c @ post) = 0"
proof -
  let ?z = "pre @ [0, 0] @ post" and ?w = "pre @ to_be_bytes 2 c @ post"
  have lz: "length ?z < 2 ^ 16" and lw: "length ?w < 2 ^ 16" using len by simp_all
  let ?f = "unat (fold_carries (word_of_nat (nsum ?z)))"
  note spec = fold_carries_spec [of "word_of_nat (nsum ?z)", unfolded unat_checksum(2) [OF lz]]
  have "nsum ?w = nsum ?z + unat c"
    using assms(1) nsum_pair [of c] by (simp add: nsum_append to_be_2)
  moreover have "(nsum ?z + unat c) mod 65535 = 0 \<and> nsum ?z + unat c \<noteq> 0"
  proof (cases "c = checksum ?z")
    case True
    then have cf: "unat c + ?f = 65535" using unat_checksum(1) [OF lz] by simp
    have "(nsum ?z + unat c) mod 65535 = (?f + unat c) mod 65535"
      by (rule mod_add_cong [OF _ refl]) (use spec in simp)
    also have "\<dots> = 0" using cf by (simp add: add.commute)
    finally show ?thesis using cf spec by (cases "nsum ?z = 0") simp_all
  next
    case False
    with c have z: "checksum ?z = 0" "unat c = 65535" by auto
    then have "nsum ?z mod 65535 = 0" using checksum_zero_iff [OF lz] by blast
    then show ?thesis unfolding z(2) mod_add_self2 by simp
  qed
  ultimately show ?thesis using checksum_zero_iff [OF lw] by simp
qed

text \<open>
  The header checksum that the IPv4 builder writes verifies: the internet checksum of the
  finished header is 0, whatever the payload.
\<close>

lemma ipv4_build_header_verifies:
  assumes "length src = 4" and "length dst = 4"
  shows "checksum (take IPV4_HDR_LEN (ipv4_build src dst proto payload ident)) = 0"
proof -
  let ?t = "word_of_nat (20 + length payload) :: u16"
  let ?pre = "[0x45, 0x00] @ to_be_bytes 2 ?t @ to_be_bytes 2 ident @ to_be_bytes 2 (0x4000 :: u16) @ [64, proto]"
  have "ipv4_header src dst proto ?t ident c = ?pre @ c @ src @ dst" for c by (simp add: ipv4_header_def)
  moreover have "length (ipv4_header src dst proto ?t ident (to_be_bytes 2 c)) = 20" for c :: u16
    using assms by (simp add: ipv4_header_def)
  moreover have "checksum (?pre @ to_be_bytes 2 (checksum (?pre @ [0, 0] @ src @ dst)) @ src @ dst) = 0"
    using assms by (intro checksum_fill) simp_all
  ultimately show ?thesis by (simp add: ipv4_build_def Let_def)
qed

text \<open>
  A UDP datagram the builder produces verifies over its pseudo-header, and its checksum field is
  never 0, the value that means an absent checksum.
\<close>

lemma udp_build_verifies:
  assumes "length sip = 4" and "length dip = 4" and "length payload < 65500"
  shows "checksum (udp_pseudo sip dip (word_of_nat (UDP_HDR_LEN + length payload)) @
      udp_build sip dip src_port dst_port payload) = 0 \<and>
    be16 (udp_build sip dip src_port dst_port payload) 6 \<noteq> 0"
proof -
  let ?l = "word_of_nat (8 + length payload) :: u16"
  let ?pre = "udp_pseudo sip dip ?l @ to_be_bytes 2 src_port @ to_be_bytes 2 dst_port @ to_be_bytes 2 ?l"
  let ?c = "checksum (?pre @ [0, 0] @ payload)"
  define c' where "c' = (if ?c = 0 then 0xffff else ?c)"
  have build: "udp_build sip dip src_port dst_port payload =
      to_be_bytes 2 src_port @ to_be_bytes 2 dst_port @ to_be_bytes 2 ?l @ to_be_bytes 2 c' @ payload"
    by (simp add: udp_build_def Let_def udp_datagram_def c'_def)
  have "checksum (?pre @ to_be_bytes 2 c' @ payload) = 0"
    using assms by (intro checksum_fill) (auto simp: udp_pseudo_def c'_def)
  moreover have "c' \<noteq> 0" by (simp add: c'_def)
  then have "be16 (udp_build sip dip src_port dst_port payload) 6 \<noteq> 0"
    unfolding build by (simp add: be16_def to_be_2)
  ultimately show ?thesis by (simp add: build)
qed

text \<open>
  An ICMP message the builder produces verifies.
\<close>

lemma icmp_build_verifies:
  assumes "length payload < 65500"
  shows "checksum (icmp_build msg_type ident sq payload) = 0"
proof -
  let ?post = "to_be_bytes 2 ident @ to_be_bytes 2 sq @ payload"
  have "checksum ([msg_type, 0] @ to_be_bytes 2 (checksum ([msg_type, 0] @ [0, 0] @ ?post)) @ ?post) = 0"
    using assms by (intro checksum_fill) simp_all
  then show ?thesis by (simp add: icmp_build_def icmp_message_def)
qed



section \<open>Building and parsing are inverse\<close>

locale codec =
  fixes encode :: "'a \<Rightarrow> u8 list" and decode :: "u8 list \<Rightarrow> 'a option" and valid :: "'a \<Rightarrow> bool"
  assumes decode_encode: "valid x \<Longrightarrow> decode (encode x) = Some x"
begin

lemma encode_inject: "valid x \<Longrightarrow> valid y \<Longrightarrow> encode x = encode y \<longleftrightarrow> x = y"
  by (metis decode_encode option.inject)

lemma decode_rejects: "decode bs = None \<Longrightarrow> valid x \<Longrightarrow> encode x \<noteq> bs"
  by (auto simp: decode_encode)

end

lemma length4: "length xs = 4 \<longleftrightarrow> (\<exists>a b c d. xs = [a, b, c, d])"
  by (auto simp: numeral_eq_Suc length_Suc_conv)

lemma length6: "length xs = 6 \<longleftrightarrow> (\<exists>a b c d e f. xs = [a, b, c, d, e, f])"
  by (auto simp: numeral_eq_Suc length_Suc_conv)

definition frame_bytes :: "Frame \<Rightarrow> u8 list" where
  "frame_bytes f = ethernet_build (eth_dst f) (eth_src f) (eth_type f) (eth_payload f)"

definition frame_valid :: "Frame \<Rightarrow> bool" where
  "frame_valid f \<longleftrightarrow> length (eth_dst f) = 6 \<and> length (eth_src f) = 6"

lemmas packet_simps = slice_def be16_def to_be_2

interpretation eth: codec frame_bytes ethernet_parse frame_valid
proof
  fix f assume "frame_valid f"
  then obtain a1 a2 a3 a4 a5 a6 b1 b2 b3 b4 b5 b6 where
    "eth_dst f = [a1, a2, a3, a4, a5, a6]" "eth_src f = [b1, b2, b3, b4, b5, b6]"
    by (auto simp: frame_valid_def length6)
  then show "ethernet_parse (frame_bytes f) = Some f"
    by (simp add: frame_bytes_def ethernet_parse_def ethernet_build_def packet_simps)
qed

definition arp_bytes :: "u8 list \<Rightarrow> Arp \<Rightarrow> u8 list" where
  "arp_bytes tmac a = arp_build (arp_op a) (sender_mac a) (sender_ip a) tmac (target_ip a)"

definition arp_valid :: "u8 list \<Rightarrow> Arp \<Rightarrow> bool" where
  "arp_valid tmac a \<longleftrightarrow> length tmac = 6 \<and> length (sender_mac a) = 6 \<and> length (sender_ip a) = 4 \<and> length (target_ip a) = 4"

interpretation arp: codec "arp_bytes tmac" arp_parse "arp_valid tmac" for tmac
proof
  fix a assume "arp_valid tmac a"
  then obtain m1 m2 m3 m4 m5 m6 n1 n2 n3 n4 n5 n6 i1 i2 i3 i4 j1 j2 j3 j4 where
    "sender_mac a = [m1, m2, m3, m4, m5, m6]" "tmac = [n1, n2, n3, n4, n5, n6]"
    "sender_ip a = [i1, i2, i3, i4]" "target_ip a = [j1, j2, j3, j4]"
    by (auto simp: arp_valid_def length6 length4)
  then show "arp_parse (arp_bytes tmac a) = Some a"
    by (simp add: arp_bytes_def arp_parse_def arp_build_def packet_simps) (simp add: from_be_bytes_def)
qed

definition ipv4_bytes :: "u16 \<Rightarrow> Ipv4 \<Rightarrow> u8 list" where
  "ipv4_bytes ident p = ipv4_build (ip_src p) (ip_dst p) (ip_proto p) (ip_payload p) ident"

definition ipv4_valid :: "Ipv4 \<Rightarrow> bool" where
  "ipv4_valid p \<longleftrightarrow> length (ip_src p) = 4 \<and> length (ip_dst p) = 4 \<and> 20 + length (ip_payload p) < 2 ^ 16"

lemma unat_u16_of_nat: "n < 2 ^ 16 \<Longrightarrow> unat (word_of_nat n :: u16) = n"
  by (simp add: unat_of_nat)

interpretation ip: codec "ipv4_bytes ident" ipv4_parse ipv4_valid for ident
proof
  fix p assume v: "ipv4_valid p"
  then obtain a1 a2 a3 a4 b1 b2 b3 b4 where
    ips: "ip_src p = [a1, a2, a3, a4]" "ip_dst p = [b1, b2, b3, b4]"
    by (auto simp: ipv4_valid_def length4)
  define t where "t = (word_of_nat (20 + length (ip_payload p)) :: u16)"
  define c where "c = checksum (ipv4_header (ip_src p) (ip_dst p) (ip_proto p) t ident [0, 0])"
  have t: "unat t = 20 + length (ip_payload p)" using v unfolding t_def by (intro unat_u16_of_nat) (simp add: ipv4_valid_def)
  have "ipv4_bytes ident p = ipv4_header (ip_src p) (ip_dst p) (ip_proto p) t ident (to_be_bytes 2 c) @ ip_payload p"
    by (simp add: ipv4_bytes_def ipv4_build_def Let_def c_def t_def)
  then show "ipv4_parse (ipv4_bytes ident p) = Some p"
    using ips t by (simp add: ipv4_parse_def ipv4_header_def packet_simps Let_def)
qed

definition icmp_bytes :: "Icmp \<Rightarrow> u8 list" where
  "icmp_bytes m = icmp_build (icmp_type m) (icmp_id m) (icmp_seq m) (icmp_payload m)"

interpretation icmp: codec icmp_bytes icmp_parse "\<lambda>_. True"
  by unfold_locales (simp add: icmp_bytes_def icmp_build_def icmp_message_def icmp_parse_def packet_simps)

definition udp_bytes :: "u8 list \<Rightarrow> u8 list \<Rightarrow> Udp \<Rightarrow> u8 list" where
  "udp_bytes sip dip d = udp_build sip dip (udp_src_port d) (udp_dst_port d) (udp_payload d)"

definition udp_valid :: "Udp \<Rightarrow> bool" where
  "udp_valid d \<longleftrightarrow> 8 + length (udp_payload d) < 2 ^ 16"

interpretation udp: codec "udp_bytes sip dip" udp_parse udp_valid for sip dip
proof
  fix d assume v: "udp_valid d"
  define t where "t = (word_of_nat (8 + length (udp_payload d)) :: u16)"
  have t: "unat t = 8 + length (udp_payload d)"
    using v unfolding t_def by (intro unat_u16_of_nat) (simp add: udp_valid_def)
  obtain c :: u16 where "udp_bytes sip dip d = udp_datagram (udp_src_port d) (udp_dst_port d) t (udp_payload d) (to_be_bytes 2 c)"
    unfolding udp_bytes_def udp_build_def Let_def t_def UDP_HDR_LEN_def by blast
  then show "udp_parse (udp_bytes sip dip d) = Some d"
    using t by (simp add: udp_parse_def udp_datagram_def packet_simps Let_def)
qed

end
