(* ===== verification/Socket.thy ===== *)
theory Socket
  imports Fifo
begin

text \<open>
  \<open>kernel/net/socket.rs\<close>: the table of UDP sockets with their receive queues. The invariant
  \<open>sock_wf\<close> says that bound sockets have different ports, that the backlogs are bounded and that the
  ephemeral cursor stays in its range; every operation keeps it. The search for an ephemeral
  port always finds one that nobody uses, and delivery and receipt are first in, first out.
\<close>

section \<open>The table\<close>

definition MAX_SOCKETS :: nat where [simp]: "MAX_SOCKETS = 32"
definition MAX_BACKLOG :: nat where [simp]: "MAX_BACKLOG = 16"
definition EPHEMERAL_BASE :: u16 where [simp]: "EPHEMERAL_BASE = 49152"

record Datagram =
  dg_src_ip :: "u8 list"
  dg_src_port :: u16
  dg_data :: "u8 list"

record UdpSocket =
  sk_port :: u16
  sk_rx :: "Datagram list"

record SocketTable =
  sk_slots :: "UdpSocket option list"
  next_ephemeral :: u16

definition TABLE :: SocketTable where
  "TABLE = \<lparr>sk_slots = replicate MAX_SOCKETS None, next_ephemeral = EPHEMERAL_BASE\<rparr>"

definition socket_alloc :: "SocketTable \<Rightarrow> nat option \<times> SocketTable" where
  "socket_alloc t =
     (case position (\<lambda>s. s = None) (sk_slots t) of
        None \<Rightarrow> (None, t)
      | Some idx \<Rightarrow> (Some idx, t\<lparr>sk_slots := (sk_slots t)[idx := Some \<lparr>sk_port = 0, sk_rx = []\<rparr>]\<rparr>))"

definition socket_free :: "nat \<Rightarrow> SocketTable \<Rightarrow> SocketTable" where
  "socket_free idx t = (if idx < length (sk_slots t) then t\<lparr>sk_slots := (sk_slots t)[idx := None]\<rparr> else t)"

definition port_in_use :: "SocketTable \<Rightarrow> u16 \<Rightarrow> bool" where
  "port_in_use t port \<longleftrightarrow> list_ex (\<lambda>s. case s of None \<Rightarrow> False | Some k \<Rightarrow> sk_port k = port) (sk_slots t)"

text \<open>The successor of a port in the ephemeral range; both uses of it in \<open>bind\<close>.\<close>

definition next_port :: "u16 \<Rightarrow> u16" where
  "next_port p = (if p \<ge> 0xffff - 1 then EPHEMERAL_BASE else p + 1)"

fun ephemeral_search :: "SocketTable \<Rightarrow> nat \<Rightarrow> u16 \<Rightarrow> u16" where
  "ephemeral_search t 0 p = p"
| "ephemeral_search t (Suc k) p = (if \<not> port_in_use t p then p else ephemeral_search t k (next_port p))"

text \<open>\<open>slots.get_mut(idx)?.as_mut()?\<close>: the socket at an index, if there is one.\<close>

definition socket_at :: "SocketTable \<Rightarrow> nat \<Rightarrow> UdpSocket option" where
  "socket_at t idx = (if idx < length (sk_slots t) then sk_slots t ! idx else None)"

definition socket_bind :: "nat \<Rightarrow> u16 \<Rightarrow> SocketTable \<Rightarrow> u16 option \<times> SocketTable" where
  "socket_bind idx port t =
     (let r = (if port = 0 then
                 (let p = ephemeral_search t (unat (0xffff - EPHEMERAL_BASE)) (next_ephemeral t)
                  in Some (p, t\<lparr>next_ephemeral := next_port p\<rparr>))
               else if port_in_use t port then None
               else Some (port, t))
      in case r of
           None \<Rightarrow> (None, t)
         | Some (chosen, t) \<Rightarrow>
             (case socket_at t idx of
                None \<Rightarrow> (None, t)
              | Some sock \<Rightarrow>
                  (Some chosen, t\<lparr>sk_slots := (sk_slots t)[idx := Some (sock\<lparr>sk_port := chosen\<rparr>)]\<rparr>)))"

definition local_port :: "nat \<Rightarrow> SocketTable \<Rightarrow> u16" where
  "local_port idx t = (case socket_at t idx of None \<Rightarrow> 0 | Some s \<Rightarrow> sk_port s)"

text \<open>The loop of \<open>deliver\<close> over the occupied slots: the first socket with the port takes the datagram.\<close>

fun deliver_slots :: "u16 \<Rightarrow> Datagram \<Rightarrow> UdpSocket option list \<Rightarrow> UdpSocket option list" where
  "deliver_slots dst_port d [] = []"
| "deliver_slots dst_port d (None # ss) = None # deliver_slots dst_port d ss"
| "deliver_slots dst_port d (Some sock # ss) =
     (if sk_port sock = dst_port
      then (if length (sk_rx sock) < MAX_BACKLOG then Some (sock\<lparr>sk_rx := sk_rx sock @ [d]\<rparr>) else Some sock) # ss
      else Some sock # deliver_slots dst_port d ss)"

definition socket_deliver :: "u16 \<Rightarrow> u8 list \<Rightarrow> u16 \<Rightarrow> u8 list \<Rightarrow> SocketTable \<Rightarrow> SocketTable" where
  "socket_deliver dst_port src_ip src_port bs t =
     t\<lparr>sk_slots := deliver_slots dst_port \<lparr>dg_src_ip = src_ip, dg_src_port = src_port, dg_data = bs\<rparr> (sk_slots t)\<rparr>"

definition socket_recv :: "nat \<Rightarrow> SocketTable \<Rightarrow> Datagram option \<times> SocketTable" where
  "socket_recv idx t =
     (case socket_at t idx of
        None \<Rightarrow> (None, t)
      | Some sock \<Rightarrow>
          (case sk_rx sock of
             [] \<Rightarrow> (None, t)
           | d # ds \<Rightarrow> (Some d, t\<lparr>sk_slots := (sk_slots t)[idx := Some (sock\<lparr>sk_rx := ds\<rparr>)]\<rparr>)))"

section \<open>The ephemeral search\<close>

definition eph_range :: "u16 \<Rightarrow> bool" where
  "eph_range p \<longleftrightarrow> 49152 \<le> unat p \<and> unat p \<le> 65534"

text \<open>The offset of a port in the ephemeral range; \<open>next_port\<close> adds one modulo its size.\<close>

definition eph_off :: "u16 \<Rightarrow> nat" where "eph_off p = unat p - 49152"

lemma next_port_range: "eph_range p \<Longrightarrow> eph_range (next_port p)"
  and eph_off_next: "eph_range p \<Longrightarrow> eph_off (next_port p) = (eph_off p + 1) mod 16383"
proof -
  assume r: "eph_range p"
  have "eph_range (next_port p) \<and> eph_off (next_port p) = (eph_off p + 1) mod 16383"
  proof (cases "p \<ge> 0xffff - 1")
    case True
    then have "unat p = 65534" using r by (simp add: eph_range_def word_le_nat_alt)
    with True show ?thesis by (simp add: next_port_def eph_range_def eph_off_def)
  next
    case False
    then have "unat p < 65534" by (simp add: word_le_nat_alt)
    moreover from this have "unat (p + 1) = unat p + 1" by (simp add: unat_word_ariths)
    ultimately show ?thesis using False r by (simp add: next_port_def eph_range_def eph_off_def)
  qed
  then show "eph_range (next_port p)" and "eph_off (next_port p) = (eph_off p + 1) mod 16383" by simp_all
qed

definition ports :: "SocketTable \<Rightarrow> u16 set" where
  "ports t = {p. port_in_use t p}"

lemma port_in_use_iff: "port_in_use t p \<longleftrightarrow> (\<exists>k. Some k \<in> set (sk_slots t) \<and> sk_port k = p)"
  by (force simp: port_in_use_def list_ex_iff split: option.splits)

lemma card_ports: "card (ports t) \<le> length (sk_slots t)" "finite (ports t)"
proof -
  have sub: "ports t \<subseteq> (\<lambda>s. case s of None \<Rightarrow> 0 | Some k \<Rightarrow> sk_port k) ` set (sk_slots t)"
    by (force simp: ports_def port_in_use_iff)
  then have "card (ports t) \<le> card (set (sk_slots t))" by (meson List.finite_set card_image_le card_mono finite_imageI order_trans)
  then show "card (ports t) \<le> length (sk_slots t)" using card_length order_trans by blast
  show "finite (ports t)" using sub by (rule finite_subset) simp
qed

lemma ephemeral_search_result:
  assumes "eph_range p"
  shows "eph_range (ephemeral_search t n p)"
    and "port_in_use t (ephemeral_search t n p) \<Longrightarrow> \<forall>k < n. \<exists>q. eph_range q \<and> port_in_use t q \<and> eph_off q = (eph_off p + k) mod 16383"
proof -
  have "eph_range (ephemeral_search t n p) \<and> (port_in_use t (ephemeral_search t n p) \<longrightarrow>
      (\<forall>k < n. \<exists>q. eph_range q \<and> port_in_use t q \<and> eph_off q = (eph_off p + k) mod 16383))"
    using assms
  proof (induction n arbitrary: p)
    case 0
    then show ?case by simp
  next
    case (Suc n)
    show ?case
    proof (cases "port_in_use t p")
      case True
      have IH: "eph_range (ephemeral_search t n (next_port p))"
        "port_in_use t (ephemeral_search t n (next_port p)) \<Longrightarrow> k < n \<Longrightarrow>
          \<exists>q. eph_range q \<and> port_in_use t q \<and> eph_off q = (eph_off p + Suc k) mod 16383" for k
        using Suc.IH [OF next_port_range [OF Suc.prems]] eph_off_next [OF Suc.prems] by (auto simp: mod_simps)
      have "eph_off p < 16383" using Suc.prems by (auto simp: eph_off_def eph_range_def)
      then have zero: "\<exists>q. eph_range q \<and> port_in_use t q \<and> eph_off q = (eph_off p + 0) mod 16383"
        using True Suc.prems by auto
      have "\<exists>q. eph_range q \<and> port_in_use t q \<and> eph_off q = (eph_off p + k) mod 16383"
        if "port_in_use t (ephemeral_search t n (next_port p))" "k < Suc n" for k
        using that IH(2) zero by (cases k) auto
      with True IH(1) show ?thesis by auto
    qed (use Suc.prems in simp)
  qed
  then show "eph_range (ephemeral_search t n p)"
    and "port_in_use t (ephemeral_search t n p) \<Longrightarrow> \<forall>k < n. \<exists>q. eph_range q \<and> port_in_use t q \<and> eph_off q = (eph_off p + k) mod 16383"
    by blast+
qed

lemma ephemeral_search_free:
  assumes "eph_range p" and "length (sk_slots t) = 32"
  shows "\<not> port_in_use t (ephemeral_search t 16383 p)"
proof
  assume "port_in_use t (ephemeral_search t 16383 p)"
  from ephemeral_search_result(2) [OF assms(1) this]
  have all: "\<exists>q. port_in_use t q \<and> eph_off q = (eph_off p + k) mod 16383" if "k < 16383" for k
    using that by blast
  have "{..<16383} \<subseteq> eph_off ` ports t"
  proof
    fix j :: nat assume "j \<in> {..<16383}"
    then have j: "j < 16383" by simp
    define k where "k = (j + 16383 - eph_off p mod 16383) mod 16383"
    have "(eph_off p + k) mod 16383 = (eph_off p mod 16383 + (j + 16383 - eph_off p mod 16383)) mod 16383"
      by (simp only: k_def mod_simps)
    also have "eph_off p mod 16383 + (j + 16383 - eph_off p mod 16383) = j + 16383" by simp
    finally have "(eph_off p + k) mod 16383 = j" using j by simp
    moreover have "k < 16383" by (simp add: k_def)
    ultimately show "j \<in> eph_off ` ports t" using all [of k] by (auto simp: ports_def intro: rev_image_eqI)
  qed
  then have "card {..<16383 :: nat} \<le> card (ports t)"
    by (meson card_image_le card_mono card_ports(2) finite_imageI order_trans)
  with card_ports(1) [of t] assms(2) show False by simp
qed

section \<open>The invariant\<close>

definition sock_wf :: "SocketTable \<Rightarrow> bool" where
  "sock_wf t \<longleftrightarrow> length (sk_slots t) = MAX_SOCKETS \<and> eph_range (next_ephemeral t) \<and>
     (\<forall>i j a b. socket_at t i = Some a \<and> socket_at t j = Some b \<and> sk_port a = sk_port b \<and> sk_port a \<noteq> 0 \<longrightarrow> i = j) \<and>
     (\<forall>i a. socket_at t i = Some a \<longrightarrow> length (sk_rx a) \<le> MAX_BACKLOG)"

lemma sock_wfD:
  assumes "sock_wf t"
  shows "length (sk_slots t) = 32" and "eph_range (next_ephemeral t)"
    and "socket_at t i = Some a \<Longrightarrow> socket_at t j = Some b \<Longrightarrow> sk_port a = sk_port b \<Longrightarrow> sk_port a \<noteq> 0 \<Longrightarrow> i = j"
    and "socket_at t i = Some a \<Longrightarrow> length (sk_rx a) \<le> 16"
  using assms unfolding sock_wf_def MAX_SOCKETS_def MAX_BACKLOG_def by blast+

lemma sock_wfI:
  assumes "length (sk_slots t) = 32" and "eph_range (next_ephemeral t)"
    and "\<And>i j a b. socket_at t i = Some a \<Longrightarrow> socket_at t j = Some b \<Longrightarrow> sk_port a = sk_port b \<Longrightarrow> sk_port a \<noteq> 0 \<Longrightarrow> i = j"
    and "\<And>i a. socket_at t i = Some a \<Longrightarrow> length (sk_rx a) \<le> 16"
  shows "sock_wf t"
  using assms unfolding sock_wf_def MAX_SOCKETS_def MAX_BACKLOG_def by blast

lemma socket_at_update:
  "i < length (sk_slots t) \<Longrightarrow> socket_at (t\<lparr>sk_slots := (sk_slots t)[i := v]\<rparr>) j = (if j = i then v else socket_at t j)"
  by (auto simp: socket_at_def)

lemma socket_at_ephemeral [simp]: "socket_at (t\<lparr>next_ephemeral := p\<rparr>) = socket_at t"
  by (simp add: socket_at_def fun_eq_iff)

lemma port_in_use_at: "port_in_use t p \<longleftrightarrow> (\<exists>i k. socket_at t i = Some k \<and> sk_port k = p)"
  unfolding port_in_use_iff socket_at_def by (auto simp: in_set_conv_nth split: if_splits)

lemma socket_at_Some: "socket_at t i = Some k \<Longrightarrow> i < length (sk_slots t)"
  by (simp add: socket_at_def split: if_splits)

lemma sock_wf_update:
  assumes wf: "sock_wf t" and i: "i < 32"
    and new: "\<And>k. v = Some k \<Longrightarrow> length (sk_rx k) \<le> 16 \<and>
      (sk_port k \<noteq> 0 \<longrightarrow> (\<forall>j a. j \<noteq> i \<and> socket_at t j = Some a \<longrightarrow> sk_port a \<noteq> sk_port k))"
  shows "sock_wf (t\<lparr>sk_slots := (sk_slots t)[i := v]\<rparr>)"
proof -
  note at = socket_at_update [of i t v, unfolded sock_wfD(1) [OF wf], OF i]
  have "j = l" if at': "socket_at (t\<lparr>sk_slots := (sk_slots t)[i := v]\<rparr>) j = Some a"
      "socket_at (t\<lparr>sk_slots := (sk_slots t)[i := v]\<rparr>) l = Some b" "sk_port a = sk_port b" "sk_port a \<noteq> 0" for j l a b
  proof -
    note eqs = at' [unfolded at]
    consider "j = i" "l = i" | "j = i" "l \<noteq> i" | "j \<noteq> i" "l = i" | "j \<noteq> i" "l \<noteq> i" by blast
    then show ?thesis
    proof cases
      case 4
      then show ?thesis using eqs sock_wfD(3) [OF wf, of j a l b] by simp
    qed (use eqs new in auto)
  qed
  moreover have "length (sk_rx a) \<le> 16" if "socket_at (t\<lparr>sk_slots := (sk_slots t)[i := v]\<rparr>) j = Some a" for j a
    using that new sock_wfD(4) [OF wf, of j a] unfolding at by (auto split: if_splits)
  ultimately show ?thesis
    using sock_wfD(1,2) [OF wf] by (intro sock_wfI) simp_all
qed

lemma socket_at_deliver:
  "socket_at (t\<lparr>sk_slots := deliver_slots p d (sk_slots t)\<rparr>) i =
     (case socket_at t i of
        None \<Rightarrow> None
      | Some k \<Rightarrow> Some (if sk_port k = p \<and> (\<forall>j < i. \<forall>a. socket_at t j = Some a \<longrightarrow> sk_port a \<noteq> p) \<and> length (sk_rx k) < 16
                        then k\<lparr>sk_rx := sk_rx k @ [d]\<rparr> else k))"
proof -
  have len: "length (deliver_slots p d ss) = length ss" for ss by (induction p d ss rule: deliver_slots.induct) auto
  have "i < length ss \<Longrightarrow> deliver_slots p d ss ! i = (case ss ! i of None \<Rightarrow> None
      | Some k \<Rightarrow> Some (if sk_port k = p \<and> (\<forall>j < i. \<forall>a. ss ! j = Some a \<longrightarrow> sk_port a \<noteq> p) \<and> length (sk_rx k) < 16
                        then k\<lparr>sk_rx := sk_rx k @ [d]\<rparr> else k))" for ss
  proof (induction p d ss arbitrary: i rule: deliver_slots.induct)
    case (2 p d ss)
    have "(\<forall>j < Suc n. \<forall>a. (None # ss) ! j = Some a \<longrightarrow> sk_port a \<noteq> p) \<longleftrightarrow> (\<forall>j < n. \<forall>a. ss ! j = Some a \<longrightarrow> sk_port a \<noteq> p)" for n
      by (auto simp: less_Suc_eq_0_disj)
    with 2 show ?case by (cases i) (auto split: option.splits)
  next
    case (3 p d s ss)
    have "(\<forall>j < Suc n. \<forall>a. (Some s # ss) ! j = Some a \<longrightarrow> sk_port a \<noteq> p) \<longleftrightarrow>
        sk_port s \<noteq> p \<and> (\<forall>j < n. \<forall>a. ss ! j = Some a \<longrightarrow> sk_port a \<noteq> p)" for n
      by (auto simp: less_Suc_eq_0_disj)
    with 3 show ?case by (cases i) (auto split: option.splits)
  qed simp
  then show ?thesis using len by (auto simp: socket_at_def split: option.splits)
qed

section \<open>Every operation keeps the invariant\<close>

lemma TABLE_wf: "sock_wf TABLE"
proof -
  have "socket_at TABLE i = None" for i by (simp add: TABLE_def socket_at_def)
  then show ?thesis by (simp add: sock_wf_def) (simp add: TABLE_def eph_range_def)
qed

lemma socket_alloc_wf: "sock_wf t \<Longrightarrow> sock_wf (snd (socket_alloc t))"
proof (cases "position (\<lambda>s. s = None) (sk_slots t)")
  case (Some idx)
  assume wf: "sock_wf t"
  have "idx < 32" using position_SomeD(1) [OF Some] sock_wfD(1) [OF wf] by simp
  then have "sock_wf (t\<lparr>sk_slots := (sk_slots t)[idx := Some \<lparr>sk_port = 0, sk_rx = []\<rparr>]\<rparr>)"
    by (intro sock_wf_update [OF wf]) auto
  with Some show ?thesis by (simp add: socket_alloc_def)
qed (simp add: socket_alloc_def)

lemma socket_free_wf: "sock_wf t \<Longrightarrow> sock_wf (socket_free idx t)"
  using sock_wf_update [of t idx None] by (simp add: socket_free_def sock_wfD(1))

lemma socket_bind_cases:
  assumes wf: "sock_wf t"
  obtains (conflict) "port \<noteq> 0" "port_in_use t port" "socket_bind idx port t = (None, t)"
  | (chosen) c t1 where "\<not> port_in_use t c" "c \<noteq> 0" "if port = 0 then eph_range c else c = port"
      "sock_wf t1" "socket_at t1 = socket_at t" "sk_slots t1 = sk_slots t"
      "socket_bind idx port t = (case socket_at t idx of None \<Rightarrow> (None, t1)
         | Some sock \<Rightarrow> (Some c, t1\<lparr>sk_slots := (sk_slots t1)[idx := Some (sock\<lparr>sk_port := c\<rparr>)]\<rparr>))"
proof (cases "port = 0")
  case True
  let ?c = "ephemeral_search t 16383 (next_ephemeral t)"
  let ?t = "t\<lparr>next_ephemeral := next_port ?c\<rparr>"
  have c: "eph_range ?c" "\<not> port_in_use t ?c"
    using ephemeral_search_result(1) [OF sock_wfD(2) [OF wf]] ephemeral_search_free [OF sock_wfD(2,1) [OF wf]] by auto
  have "unat (0xffff - EPHEMERAL_BASE) = 16383" by simp
  then have b: "socket_bind idx port t = (case socket_at t idx of None \<Rightarrow> (None, ?t)
      | Some sock \<Rightarrow> (Some ?c, ?t\<lparr>sk_slots := (sk_slots ?t)[idx := Some (sock\<lparr>sk_port := ?c\<rparr>)]\<rparr>))"
    unfolding socket_bind_def using True by (simp del: EPHEMERAL_BASE_def add: Let_def)
  have "sock_wf ?t" using wf next_port_range [OF c(1)] unfolding sock_wf_def by simp
  moreover have "?c \<noteq> 0" using c(1) by (auto simp: eph_range_def)
  ultimately show thesis using c True b by (intro chosen [of ?c ?t]) simp_all
next
  case False
  then show thesis
    using wf conflict chosen [of port t] by (cases "port_in_use t port") (simp_all add: socket_bind_def)
qed

lemma socket_bind_wf:
  assumes wf: "sock_wf t"
  shows "sock_wf (snd (socket_bind idx port t))"
proof (rule socket_bind_cases [OF wf, of port idx])
  fix c t1 assume c: "\<not> port_in_use t c" "c \<noteq> 0" "sock_wf t1" "socket_at t1 = socket_at t"
    "socket_bind idx port t = (case socket_at t idx of None \<Rightarrow> (None, t1)
         | Some sock \<Rightarrow> (Some c, t1\<lparr>sk_slots := (sk_slots t1)[idx := Some (sock\<lparr>sk_port := c\<rparr>)]\<rparr>))"
  show ?thesis
  proof (cases "socket_at t idx")
    case (Some sock)
    have "idx < 32" using socket_at_Some [OF Some] sock_wfD(1) [OF wf] by simp
    then have "sock_wf (t1\<lparr>sk_slots := (sk_slots t1)[idx := Some (sock\<lparr>sk_port := c\<rparr>)]\<rparr>)"
      using c(1,4) sock_wfD(4) [OF wf Some] by (intro sock_wf_update [OF c(3)]) (auto simp: port_in_use_at)
    with c(5) Some show ?thesis by simp
  qed (use c in simp)
qed (use wf in simp)

lemma socket_deliver_at:
  "socket_at (socket_deliver p ip sp bs t) i =
     (case socket_at t i of
        None \<Rightarrow> None
      | Some k \<Rightarrow> Some (if sk_port k = p \<and> (\<forall>j < i. \<forall>a. socket_at t j = Some a \<longrightarrow> sk_port a \<noteq> p) \<and> length (sk_rx k) < 16
                        then k\<lparr>sk_rx := sk_rx k @ [\<lparr>dg_src_ip = ip, dg_src_port = sp, dg_data = bs\<rparr>]\<rparr> else k))"
  by (simp only: socket_deliver_def socket_at_deliver)

lemma deliver_slots_length: "length (deliver_slots p d ss) = length ss"
  by (induction p d ss rule: deliver_slots.induct) auto

lemma socket_deliver_wf:
  assumes wf: "sock_wf t"
  shows "sock_wf (socket_deliver p ip sp bs t)"
proof -
  have port: "\<exists>k. socket_at t i = Some k \<and> sk_port a = sk_port k \<and> (sk_rx a = sk_rx k \<or> length (sk_rx a) \<le> 16)"
    if "socket_at (socket_deliver p ip sp bs t) i = Some a" for i a
    using that by (auto simp: socket_deliver_at split: option.splits if_splits)
  have "i = j" if "socket_at (socket_deliver p ip sp bs t) i = Some a" "socket_at (socket_deliver p ip sp bs t) j = Some b"
      "sk_port a = sk_port b" "sk_port a \<noteq> 0" for i j a b
    using port [OF that(1)] port [OF that(2)] that(3,4) sock_wfD(3) [OF wf] by metis
  moreover have "length (sk_rx a) \<le> 16" if "socket_at (socket_deliver p ip sp bs t) i = Some a" for i a
    using port [OF that] sock_wfD(4) [OF wf] by metis
  moreover have "length (sk_slots (socket_deliver p ip sp bs t)) = 32" "eph_range (next_ephemeral (socket_deliver p ip sp bs t))"
    using sock_wfD(1,2) [OF wf] by (simp_all add: socket_deliver_def deliver_slots_length)
  ultimately show ?thesis by (intro sock_wfI)
qed

lemma socket_recv_wf:
  assumes wf: "sock_wf t"
  shows "sock_wf (snd (socket_recv idx t))"
proof (cases "socket_at t idx")
  case (Some k)
  have idx: "idx < 32" using socket_at_Some [OF Some] sock_wfD(1) [OF wf] by simp
  show ?thesis
  proof (cases "sk_rx k")
    case (Cons d ds)
    then have "sock_wf (t\<lparr>sk_slots := (sk_slots t)[idx := Some (k\<lparr>sk_rx := ds\<rparr>)]\<rparr>)"
      using sock_wfD(4) [OF wf Some] sock_wfD(3) [OF wf Some]
      by (intro sock_wf_update [OF wf idx]) fastforce
    with Some Cons show ?thesis by (simp add: socket_recv_def)
  qed (use Some wf in \<open>simp add: socket_recv_def\<close>)
qed (use wf in \<open>simp add: socket_recv_def\<close>)

section \<open>Reachable tables\<close>

text \<open>Any sequence of calls from any number of processes, in any order.\<close>

inductive socket_step :: "SocketTable \<Rightarrow> SocketTable \<Rightarrow> bool" where
  step_alloc: "socket_step t (snd (socket_alloc t))"
| step_free: "socket_step t (socket_free idx t)"
| step_bind: "socket_step t (snd (socket_bind idx port t))"
| step_deliver: "socket_step t (socket_deliver dst_port src_ip src_port bs t)"
| step_recv: "socket_step t (snd (socket_recv idx t))"

inductive_cases socket_stepE: "socket_step t t'"

text \<open>
  C23: in every table that calls can produce from the initial one, no two sockets are bound to
  the same port, no backlog exceeds its cap, and there are 32 slots.
\<close>

theorem socket_reachable_wf:
  assumes "socket_step\<^sup>*\<^sup>* TABLE t"
  shows "sock_wf t"
  using assms
proof (induction rule: rtranclp_induct)
  case base
  show ?case by (rule TABLE_wf)
next
  case (step t t')
  from step.hyps(2) show ?case
    by (rule socket_stepE)
      (use step.IH in \<open>auto intro: socket_alloc_wf socket_free_wf socket_bind_wf socket_deliver_wf socket_recv_wf\<close>)
qed

theorem socket_reachable_wf_witness: "sock_wf (snd (socket_bind 0 5353 (snd (socket_alloc TABLE))))"
  by (rule socket_reachable_wf)
    (meson rtranclp.rtrancl_into_rtrancl rtranclp.rtrancl_refl step_alloc step_bind)

text \<open>
  C24: \<open>bind\<close>. It succeeds exactly when the socket exists and the port asked for is free; the port it
  reports is then the socket's, is one that no socket had, and for the request 0 lies in the
  ephemeral range; every other socket keeps its port and its queue.
\<close>

theorem socket_bind_correct:
  assumes wf: "sock_wf t"
  shows "case socket_bind idx port t of
      (None, t') \<Rightarrow> (socket_at t idx = None \<or> port \<noteq> 0 \<and> port_in_use t port) \<and> sk_slots t' = sk_slots t
    | (Some c, t') \<Rightarrow> socket_at t idx \<noteq> None \<and> \<not> port_in_use t c \<and>
        (if port = 0 then 49152 \<le> unat c else c = port) \<and> local_port idx t' = c \<and>
        map_option sk_rx (socket_at t' idx) = map_option sk_rx (socket_at t idx) \<and>
        (\<forall>i. i = idx \<or> socket_at t' i = socket_at t i)"
proof (rule socket_bind_cases [OF wf, of port idx])
  fix c t1 assume c: "\<not> port_in_use t c" "c \<noteq> 0" "if port = 0 then eph_range c else c = port" "sock_wf t1"
    "socket_at t1 = socket_at t" "sk_slots t1 = sk_slots t"
    "socket_bind idx port t = (case socket_at t idx of None \<Rightarrow> (None, t1)
         | Some sock \<Rightarrow> (Some c, t1\<lparr>sk_slots := (sk_slots t1)[idx := Some (sock\<lparr>sk_port := c\<rparr>)]\<rparr>))"
  show ?thesis
  proof (cases "socket_at t idx")
    case None
    with c show ?thesis by simp
  next
    case (Some sock)
    have "idx < length (sk_slots t1)" using socket_at_Some [OF Some] c(6) by simp
    note at = socket_at_update [OF this, of "Some (sock\<lparr>sk_port := c\<rparr>)", unfolded c(6)]
    from Some c show ?thesis
      by (simp add: local_port_def at) (auto simp: eph_range_def split: if_splits)
  qed
qed simp

theorem socket_bind_correct_witness:
  "\<exists>c t'. socket_bind 0 0 (snd (socket_alloc TABLE)) = (Some c, t') \<and> 49152 \<le> unat c"
proof -
  let ?t = "snd (socket_alloc TABLE)"
  have "socket_at ?t 0 \<noteq> None"
    by (simp add: socket_alloc_def TABLE_def socket_at_def numeral_eq_Suc)
  then show ?thesis
    using socket_bind_correct [OF socket_alloc_wf [OF TABLE_wf], of 0 0] by (auto split: prod.splits option.splits)
qed

section \<open>A bound socket is a bounded queue\<close>

definition backlog :: "nat \<Rightarrow> SocketTable \<Rightarrow> Datagram list" where
  "backlog idx t = (case socket_at t idx of None \<Rightarrow> [] | Some k \<Rightarrow> sk_rx k)"

definition owns_port :: "nat \<Rightarrow> u16 \<Rightarrow> SocketTable \<Rightarrow> bool" where
  "owns_port idx p t \<longleftrightarrow> p \<noteq> 0 \<and> sock_wf t \<and> (\<exists>k. socket_at t idx = Some k \<and> sk_port k = p)"

definition deliver_to :: "u16 \<Rightarrow> Datagram \<Rightarrow> SocketTable \<Rightarrow> SocketTable" where
  "deliver_to p d = socket_deliver p (dg_src_ip d) (dg_src_port d) (dg_data d)"

lemma owner_first:
  assumes "owns_port idx p t" and "j < idx" and "socket_at t j = Some a"
  shows "sk_port a \<noteq> p"
  using assms sock_wfD(3) [of t j a idx] by (auto simp: owns_port_def)

lemma deliver_to_owner:
  assumes own: "owns_port idx p t" and k: "socket_at t idx = Some k"
  shows "socket_at (deliver_to p d t) idx =
    Some (if length (sk_rx k) < 16 then k\<lparr>sk_rx := sk_rx k @ [d]\<rparr> else k)"
proof -
  have "sk_port k = p" using own k by (auto simp: owns_port_def)
  with k owner_first [OF own] show ?thesis by (auto simp: deliver_to_def socket_deliver_at)
qed

lemma deliver_to_others:
  assumes own: "owns_port idx p t" and "k \<noteq> idx"
  shows "socket_at (deliver_to p d t) k = socket_at t k"
proof (cases "socket_at t k")
  case (Some a)
  then have "sk_port a \<noteq> p" using assms sock_wfD(3) [of t k a idx] by (auto simp: owns_port_def)
  with Some show ?thesis by (simp add: deliver_to_def socket_deliver_at)
qed (simp add: deliver_to_def socket_deliver_at)

interpretation sockq: bounded_fifo "backlog idx" "deliver_to p" "socket_recv idx" MAX_BACKLOG "owns_port idx p" for idx p
proof
  fix t d assume own: "owns_port idx p t"
  then obtain k where k: "socket_at t idx = Some k" "sk_port k = p" and wf: "sock_wf t" "p \<noteq> 0"
    by (auto simp: owns_port_def)
  have idx: "idx < length (sk_slots t)" by (rule socket_at_Some [OF k(1)])
  show "owns_port idx p (deliver_to p d t)"
    using deliver_to_owner [OF own k(1), of d] k wf socket_deliver_wf [OF wf(1)]
    by (auto simp: owns_port_def deliver_to_def)
  show "backlog idx (deliver_to p d t) =
      (if length (backlog idx t) < MAX_BACKLOG then backlog idx t @ [d] else backlog idx t)"
    using deliver_to_owner [OF own k(1), of d] k by (simp add: backlog_def)
  show "length (backlog idx t) \<le> MAX_BACKLOG"
    using sock_wfD(4) [OF wf(1) k(1)] k by (simp add: backlog_def)
  show "owns_port idx p (snd (socket_recv idx t))"
    using socket_recv_wf [OF wf(1), of idx] k wf idx
    by (auto simp: owns_port_def socket_recv_def socket_at_update split: list.splits)
  show "fst (socket_recv idx t) = (case backlog idx t of [] \<Rightarrow> None | x # _ \<Rightarrow> Some x) \<and>
      backlog idx (snd (socket_recv idx t)) = tl (backlog idx t)"
    using k idx by (auto simp: backlog_def socket_recv_def socket_at_update split: list.splits)
qed

text \<open>Reading a socket \<open>n\<close> times.\<close>

fun recvs :: "nat \<Rightarrow> nat \<Rightarrow> SocketTable \<Rightarrow> Datagram option list" where
  "recvs idx 0 t = []"
| "recvs idx (Suc n) t = fst (socket_recv idx t) # recvs idx n (snd (socket_recv idx t))"

lemma recvs_pops: "recvs idx n t = fst (sockq.pops idx n t)"
  by (induction n arbitrary: t) (auto simp: Let_def split: prod.splits)

text \<open>
  C25: a socket bound to a port is a bounded first-in first-out queue: the datagrams delivered to the port
  are read from the socket in the order of their arrival, behind those already waiting, as long
  as they fit the backlog.
\<close>

theorem socket_fifo:
  assumes "owns_port idx p t" and "length (backlog idx t) + length ds \<le> MAX_BACKLOG"
  shows "recvs idx (length (backlog idx t) + length ds) (fold (deliver_to p) ds t) = map Some (backlog idx t @ ds)"
  unfolding recvs_pops by (rule sockq.fifo_order [OF assms])

text \<open>A fresh socket bound to port 53.\<close>

definition dns_table :: SocketTable where
  "dns_table = snd (socket_bind 0 53 (snd (socket_alloc TABLE)))"

lemma dns_table_owns: "owns_port 0 53 dns_table" and dns_table_backlog: "backlog 0 dns_table = []"
proof -
  let ?tab = "snd (socket_alloc TABLE)" and ?t = "snd (socket_bind 0 53 (snd (socket_alloc TABLE)))"
  have "position (\<lambda>s. s = None) (sk_slots TABLE) = Some 0" by (simp add: position_Some TABLE_def)
  then have t0: "?tab = TABLE\<lparr>sk_slots := (sk_slots TABLE)[0 := Some \<lparr>sk_port = 0, sk_rx = []\<rparr>]\<rparr>"
    by (simp add: socket_alloc_def)
  have at0: "socket_at ?tab i = (if i = 0 then Some \<lparr>sk_port = 0, sk_rx = []\<rparr> else None)" for i
    unfolding t0 by (subst socket_at_update) (simp_all add: TABLE_def socket_at_def)
  then have free: "\<not> port_in_use ?tab 53" by (simp add: port_in_use_at)
  have "0 < length (sk_slots ?tab)" unfolding t0 by (simp add: TABLE_def)
  note at = socket_at_update [OF this]
  have "socket_at ?t 0 = Some \<lparr>sk_port = 53, sk_rx = []\<rparr>"
    using free at0 [of 0] by (simp add: socket_bind_def at)
  moreover have "sock_wf ?t" by (intro socket_bind_wf socket_alloc_wf TABLE_wf)
  ultimately show "owns_port 0 53 dns_table" and "backlog 0 dns_table = []"
    by (simp_all add: owns_port_def backlog_def dns_table_def)
qed

theorem socket_fifo_witness:
  "\<forall>d1 d2. recvs 0 2 (fold (deliver_to 53) [d1, d2] dns_table) = [Some d1, Some d2]"
proof (intro allI)
  fix d1 d2
  show "recvs 0 2 (fold (deliver_to 53) [d1, d2] dns_table) = [Some d1, Some d2]"
    using socket_fifo [OF dns_table_owns, of "[d1, d2]"]
    by (simp add: dns_table_backlog numeral_2_eq_2 del: recvs.simps fold_simps)
qed

end
