(* ===== verification/Net_Iface.thy ===== *)
theory Net_Iface
  imports Net_Codec Socket
begin

text \<open>
  \<open>kernel/net/mod.rs\<close>: the interface and its frame handler. The state is the interface record
  (\<open>None\<close> until \<open>init\<close> has found a device), the IP identification counter and the socket table. The
  virtio-net driver below it is a parameter: what \<open>init\<close> and \<open>mac\<close> report, the frames \<open>poll_rx\<close> hands
  over, and the transmit function \<open>send\<close> on the driver's own state.
\<close>

section \<open>The interface\<close>

definition OUR_IP :: "u8 list" where [simp]: "OUR_IP = [10, 0, 2, 15]"
definition GATEWAY_IP :: "u8 list" where [simp]: "GATEWAY_IP = [10, 0, 2, 2]"
definition ARP_CACHE_LEN :: nat where [simp]: "ARP_CACHE_LEN = 8"

record Iface =
  if_mac :: "u8 list"
  if_ip :: "u8 list"
  if_gateway :: "u8 list"
  arp_cache :: "(u8 list \<times> u8 list) list"
  arp_len :: nat
  if_gateway_mac :: "u8 list option"
  if_ping_replies :: usize

record net =
  IFACE :: "Iface option"
  IP_IDENT :: u16
  sockets :: SocketTable

definition arp_insert :: "u8 list \<Rightarrow> u8 list \<Rightarrow> Iface \<Rightarrow> Iface" where
  "arp_insert ip mac i =
     (case position (\<lambda>e. fst e = ip) (take (arp_len i) (arp_cache i)) of
        Some k \<Rightarrow> i\<lparr>arp_cache := (arp_cache i)[k := (fst (arp_cache i ! k), mac)]\<rparr>
      | None \<Rightarrow>
          if arp_len i < ARP_CACHE_LEN
          then i\<lparr>arp_cache := (arp_cache i)[arp_len i := (ip, mac)], arp_len := arp_len i + 1\<rparr>
          else i)"

text \<open>\<open>init\<close>, given whether the driver found a device and the MAC it reports.\<close>

definition net_init :: "bool \<Rightarrow> u8 list option \<Rightarrow> net \<Rightarrow> bool \<times> net" where
  "net_init driver_init driver_mac s =
     (if \<not> driver_init then (False, s)
      else (case driver_mac of
        None \<Rightarrow> (False, s)
      | Some mac \<Rightarrow>
          (True, s\<lparr>IFACE := Some \<lparr>if_mac = mac, if_ip = OUR_IP, if_gateway = GATEWAY_IP,
             arp_cache = replicate ARP_CACHE_LEN (replicate 4 0, replicate 6 0), arp_len = 0,
             if_gateway_mac = None, if_ping_replies = 0\<rparr>\<rparr>)))"

text \<open>The ARP arm of \<open>handle_frame\<close>.\<close>

definition handle_arp :: "Iface \<Rightarrow> Frame \<Rightarrow> net \<Rightarrow> u8 list option \<times> net" where
  "handle_arp i eth s =
     (case arp_parse (eth_payload eth) of
        None \<Rightarrow> (None, s)
      | Some a \<Rightarrow>
          (let i = arp_insert (sender_ip a) (sender_mac a) i; s = s\<lparr>IFACE := Some i\<rparr> in
           if arp_op a = OP_REQUEST \<and> target_ip a = if_ip i then
             (let reply = arp_build OP_REPLY (if_mac i) (if_ip i) (sender_mac a) (sender_ip a)
              in (Some (ethernet_build (sender_mac a) (if_mac i) ETHERTYPE_ARP reply), s))
           else if arp_op a = OP_REPLY then
             (None, if sender_ip a = if_gateway i
                    then s\<lparr>IFACE := Some (i\<lparr>if_gateway_mac := Some (sender_mac a)\<rparr>)\<rparr> else s)
           else (None, s)))"

text \<open>The IPv4 arm of \<open>handle_frame\<close>.\<close>

definition handle_icmp :: "Iface \<Rightarrow> Frame \<Rightarrow> Ipv4 \<Rightarrow> net \<Rightarrow> u8 list option \<times> net" where
  "handle_icmp i eth pkt s =
     (case icmp_parse (ip_payload pkt) of
        None \<Rightarrow> (None, s)
      | Some msg \<Rightarrow>
          if icmp_type msg = TYPE_ECHO_REQUEST then
            (let reply = icmp_build TYPE_ECHO_REPLY (icmp_id msg) (icmp_seq msg) (icmp_payload msg);
                 ident = IP_IDENT s;
                 s = s\<lparr>IP_IDENT := ident + 1\<rparr>;
                 ip = ipv4_build (if_ip i) (ip_src pkt) PROTO_ICMP reply ident
             in (Some (ethernet_build (eth_src eth) (if_mac i) ETHERTYPE_IPV4 ip), s))
          else if icmp_type msg = TYPE_ECHO_REPLY then
            (None, if ip_src pkt = if_gateway i
                   then s\<lparr>IFACE := Some (i\<lparr>if_ping_replies := if_ping_replies i + 1\<rparr>)\<rparr> else s)
          else (None, s))"

definition handle_ipv4 :: "Iface \<Rightarrow> Frame \<Rightarrow> net \<Rightarrow> u8 list option \<times> net" where
  "handle_ipv4 i eth s =
     (case ipv4_parse (eth_payload eth) of
        None \<Rightarrow> (None, s)
      | Some pkt \<Rightarrow>
          if ip_dst pkt \<noteq> if_ip i then (None, s)
          else if ip_proto pkt = PROTO_ICMP then handle_icmp i eth pkt s
          else if ip_proto pkt = PROTO_UDP then
            (None, case udp_parse (ip_payload pkt) of
                     None \<Rightarrow> s
                   | Some d \<Rightarrow> s\<lparr>sockets := socket_deliver (udp_dst_port d) (ip_src pkt) (udp_src_port d)
                                              (udp_payload d) (sockets s)\<rparr>)
          else (None, s))"

definition handle_frame :: "u8 list \<Rightarrow> net \<Rightarrow> u8 list option \<times> net" where
  "handle_frame frame s =
     (case ethernet_parse frame of
        None \<Rightarrow> (None, s)
      | Some eth \<Rightarrow>
          (case IFACE s of
             None \<Rightarrow> (None, s)
           | Some i \<Rightarrow>
               if eth_type eth = ETHERTYPE_ARP then handle_arp i eth s
               else if eth_type eth = ETHERTYPE_IPV4 then handle_ipv4 i eth s
               else (None, s)))"

text \<open>\<open>poll\<close>: every frame the driver drained, in order; the replies go out through \<open>send\<close>.\<close>

fun net_poll :: "(u8 list \<Rightarrow> 'd \<Rightarrow> unit result \<times> 'd) \<Rightarrow> u8 list list \<Rightarrow> net \<Rightarrow> 'd \<Rightarrow> net \<times> 'd" where
  "net_poll send [] s d = (s, d)"
| "net_poll send (f # fs) s d =
     (case handle_frame f s of
        (None, s) \<Rightarrow> net_poll send fs s d
      | (Some reply, s) \<Rightarrow> net_poll send fs s (snd (send reply d)))"

definition arp_request_frame :: "u8 list \<Rightarrow> net \<Rightarrow> u8 list option" where
  "arp_request_frame target s =
     map_option (\<lambda>i. ethernet_build BROADCAST (if_mac i) ETHERTYPE_ARP
       (arp_build OP_REQUEST (if_mac i) (if_ip i) (replicate 6 0) target)) (IFACE s)"

definition send_arp_request :: "(u8 list \<Rightarrow> 'd \<Rightarrow> unit result \<times> 'd) \<Rightarrow> u8 list \<Rightarrow> net \<Rightarrow> 'd \<Rightarrow> 'd" where
  "send_arp_request send target s d =
     (case arp_request_frame target s of None \<Rightarrow> d | Some frame \<Rightarrow> snd (send frame d))"

definition send_ping :: "(u8 list \<Rightarrow> 'd \<Rightarrow> unit result \<times> 'd) \<Rightarrow> u8 list \<Rightarrow> u8 list \<Rightarrow> u16 \<Rightarrow> net \<Rightarrow> 'd \<Rightarrow> net \<times> 'd" where
  "send_ping send target target_mac sq s d =
     (case IFACE s of
        None \<Rightarrow> (s, d)
      | Some i \<Rightarrow>
          (let echo = icmp_build TYPE_ECHO_REQUEST 0x4c4f sq
                 [0x6c, 0x69, 0x67, 0x68, 0x74, 0x6f, 0x73, 0x2d, 0x70, 0x69, 0x6e, 0x67];
               ident = IP_IDENT s;
               pkt = ipv4_build (if_ip i) target PROTO_ICMP echo ident;
               frame = ethernet_build target_mac (if_mac i) ETHERTYPE_IPV4 pkt
           in (s\<lparr>IP_IDENT := ident + 1\<rparr>, snd (send frame d))))"

definition our_ip :: "net \<Rightarrow> u8 list option" where
  "our_ip s = map_option if_ip (IFACE s)"

definition send_udp :: "(u8 list \<Rightarrow> 'd \<Rightarrow> unit result \<times> 'd) \<Rightarrow> u8 list \<Rightarrow> u16 \<Rightarrow> u16 \<Rightarrow> u8 list \<Rightarrow>
    net \<Rightarrow> 'd \<Rightarrow> unit result \<times> net \<times> 'd" where
  "send_udp send dst_ip dst_port src_port payload s d =
     (case IFACE s of
        None \<Rightarrow> (Inl ''net: interface down'', s, d)
      | Some i \<Rightarrow>
          (case if_gateway_mac i of
             None \<Rightarrow> (Inl ''net: gateway not resolved'', s, d)
           | Some gw_mac \<Rightarrow>
               (let dgram = udp_build (if_ip i) dst_ip src_port dst_port payload;
                    ident = IP_IDENT s;
                    pkt = ipv4_build (if_ip i) dst_ip PROTO_UDP dgram ident;
                    frame = ethernet_build gw_mac (if_mac i) ETHERTYPE_IPV4 pkt;
                    (r, d) = send frame d
                in (r, s\<lparr>IP_IDENT := ident + 1\<rparr>, d))))"

definition gateway_mac :: "net \<Rightarrow> u8 list option" where
  "gateway_mac s = (case IFACE s of None \<Rightarrow> None | Some i \<Rightarrow> if_gateway_mac i)"

definition ping_replies :: "net \<Rightarrow> usize" where
  "ping_replies s = (case IFACE s of None \<Rightarrow> 0 | Some i \<Rightarrow> if_ping_replies i)"


section \<open>The ARP cache and the interface invariant\<close>

definition arp_entries :: "Iface \<Rightarrow> (u8 list \<times> u8 list) list" where
  "arp_entries i = take (arp_len i) (arp_cache i)"

definition iface_wf :: "Iface \<Rightarrow> bool" where
  "iface_wf i \<longleftrightarrow> length (if_mac i) = 6 \<and> length (if_ip i) = 4 \<and> length (if_gateway i) = 4 \<and>
     length (arp_cache i) = ARP_CACHE_LEN \<and> arp_len i \<le> ARP_CACHE_LEN \<and> distinct (map fst (arp_entries i)) \<and>
     (\<forall>m. if_gateway_mac i = Some m \<longrightarrow> length m = 6)"

definition net_wf :: "net \<Rightarrow> bool" where
  "net_wf s \<longleftrightarrow> (\<forall>i. IFACE s = Some i \<longrightarrow> iface_wf i) \<and> sock_wf (sockets s)"

lemma take_Suc_update: "n < length xs \<Longrightarrow> take (Suc n) (xs[n := x]) = take n xs @ [x]"
  by (simp add: take_Suc_conv_app_nth)

lemma map_of_append_new: "k \<notin> fst ` set al \<Longrightarrow> map_of (al @ [(k, v)]) = (map_of al)(k \<mapsto> v)"
  by (induction al) (auto simp: fun_eq_iff)

lemma map_of_update_at:
  "distinct (map fst al) \<Longrightarrow> j < length al \<Longrightarrow> fst (al ! j) = k \<Longrightarrow>
   map_of (al[j := (k, v)]) = (map_of al)(k \<mapsto> v)"
proof (induction al arbitrary: j)
  case Nil
  then show ?case by simp
next
  case (Cons e al)
  show ?case
  proof (cases j)
    case 0
    with Cons.prems show ?thesis by (cases e) auto
  next
    case (Suc j')
    then have "fst e \<noteq> k" using Cons.prems by (metis distinct.simps(2) length_Cons length_map list.simps(9) not_less_eq nth_Cons_Suc nth_map nth_mem)
    with Suc Cons.IH [of j'] Cons.prems show ?thesis by (cases e) (auto simp: fun_eq_iff)
  qed
qed

text \<open>What an insertion does to the entries in use.\<close>

lemma arp_insert_cases:
  assumes "iface_wf i"
  obtains (known) k where "k < length (arp_entries i)" "fst (arp_entries i ! k) = ip"
      "arp_entries (arp_insert ip mac i) = (arp_entries i)[k := (ip, mac)]"
      "arp_insert ip mac i = i\<lparr>arp_cache := (arp_cache i)[k := (ip, mac)]\<rparr>"
  | (room) "ip \<notin> fst ` set (arp_entries i)" "arp_len i < ARP_CACHE_LEN"
      "arp_entries (arp_insert ip mac i) = arp_entries i @ [(ip, mac)]"
      "arp_insert ip mac i = i\<lparr>arp_cache := (arp_cache i)[arp_len i := (ip, mac)], arp_len := arp_len i + 1\<rparr>"
  | (full) "ip \<notin> fst ` set (arp_entries i)" "\<not> arp_len i < ARP_CACHE_LEN" "arp_insert ip mac i = i"
proof -
  have wf: "length (arp_cache i) = 8" "arp_len i \<le> 8" using assms by (simp_all add: iface_wf_def)
  then have len: "length (arp_entries i) = arp_len i" by (simp add: arp_entries_def)
  show ?thesis
  proof (cases "position (\<lambda>e. fst e = ip) (arp_entries i)")
    case None
    then have new: "ip \<notin> fst ` set (arp_entries i)" by (force simp: position_None)
    show ?thesis
    proof (cases "arp_len i < 8")
      case True
      then have i': "arp_insert ip mac i =
          i\<lparr>arp_cache := (arp_cache i)[arp_len i := (ip, mac)], arp_len := arp_len i + 1\<rparr>"
        using None by (simp add: arp_insert_def arp_entries_def)
      then have "arp_entries (arp_insert ip mac i) = arp_entries i @ [(ip, mac)]"
        using True wf by (simp add: arp_entries_def take_Suc_update)
      with new True i' show ?thesis by (intro room) simp_all
    qed (use None new in \<open>intro full, simp_all add: arp_insert_def arp_entries_def\<close>)
  next
    case (Some k)
    then have k: "k < arp_len i" "fst (arp_entries i ! k) = ip" by (simp_all add: position_Some len)
    then have "arp_insert ip mac i = i\<lparr>arp_cache := (arp_cache i)[k := (ip, mac)]\<rparr>"
      using Some by (simp add: arp_insert_def arp_entries_def)
    with k wf len show ?thesis by (intro known) (simp_all add: arp_entries_def take_update_swap)
  qed
qed

text \<open>The cache as a map: an insertion updates a known address, adds a new one while there is room and
  is dropped otherwise.\<close>

lemma arp_insert_wf:
  assumes wf: "iface_wf i"
  shows "iface_wf (arp_insert ip mac i)"
proof (rule arp_insert_cases [OF wf, of ip mac])
  fix k assume k: "k < length (arp_entries i)" "fst (arp_entries i ! k) = ip"
    and e: "arp_entries (arp_insert ip mac i) = (arp_entries i)[k := (ip, mac)]"
    and i: "arp_insert ip mac i = i\<lparr>arp_cache := (arp_cache i)[k := (ip, mac)]\<rparr>"
  have "map fst (arp_entries (arp_insert ip mac i)) = map fst (arp_entries i)"
    using k unfolding e map_update by (metis fst_conv length_map list_update_id nth_map)
  with wf show ?thesis unfolding iface_wf_def by (simp add: i)
next
  assume "ip \<notin> fst ` set (arp_entries i)" "arp_len i < ARP_CACHE_LEN"
    and e: "arp_entries (arp_insert ip mac i) = arp_entries i @ [(ip, mac)]"
    and i: "arp_insert ip mac i = i\<lparr>arp_cache := (arp_cache i)[arp_len i := (ip, mac)], arp_len := arp_len i + 1\<rparr>"
  with wf show ?thesis unfolding iface_wf_def e by (simp add: i)
qed (use wf in simp)

lemma arp_insert_map:
  assumes wf: "iface_wf i"
  shows "map_of (arp_entries (arp_insert ip mac i)) =
      (if ip \<in> fst ` set (arp_entries i) \<or> arp_len i < ARP_CACHE_LEN
       then (map_of (arp_entries i))(ip \<mapsto> mac) else map_of (arp_entries i))"
proof (rule arp_insert_cases [OF wf, of ip mac])
  fix k assume k: "k < length (arp_entries i)" "fst (arp_entries i ! k) = ip"
    and e: "arp_entries (arp_insert ip mac i) = (arp_entries i)[k := (ip, mac)]"
  have "distinct (map fst (arp_entries i))" using wf by (simp add: iface_wf_def)
  moreover have "ip \<in> fst ` set (arp_entries i)" using k by (metis image_eqI nth_mem)
  ultimately show ?thesis unfolding e using k map_of_update_at by simp
qed (simp_all add: map_of_append_new del: map_of_append)

lemma arp_insert_fields [simp]:
  "if_mac (arp_insert ip mac i) = if_mac i" "if_ip (arp_insert ip mac i) = if_ip i"
  "if_gateway (arp_insert ip mac i) = if_gateway i" "if_gateway_mac (arp_insert ip mac i) = if_gateway_mac i"
  "if_ping_replies (arp_insert ip mac i) = if_ping_replies i"
  by (simp_all add: arp_insert_def split: option.splits)

text \<open>The parsers only produce addresses of the right width.\<close>

lemma arp_parse_lengths: "arp_parse bs = Some a \<Longrightarrow> length (sender_mac a) = 6 \<and> length (sender_ip a) = 4"
  by (auto simp: arp_parse_def slice_def Let_def split: if_splits)

lemma iface_wf_gateway [simp]: "iface_wf i \<Longrightarrow> length m = 6 \<Longrightarrow> iface_wf (i\<lparr>if_gateway_mac := Some m\<rparr>)"
  and iface_wf_replies [simp]: "iface_wf (i\<lparr>if_ping_replies := n\<rparr>) = iface_wf i"
  by (simp_all add: iface_wf_def arp_entries_def)

lemma handle_arp_wf:
  "net_wf s \<Longrightarrow> IFACE s = Some i \<Longrightarrow> net_wf (snd (handle_arp i eth s))"
  using arp_insert_wf [of i] arp_parse_lengths [of "eth_payload eth"]
  by (auto simp: net_wf_def handle_arp_def Let_def split: option.splits)

lemma handle_ipv4_wf:
  "net_wf s \<Longrightarrow> IFACE s = Some i \<Longrightarrow> net_wf (snd (handle_ipv4 i eth s))"
  by (auto simp: net_wf_def handle_ipv4_def handle_icmp_def Let_def socket_deliver_wf split: option.splits)

lemma handle_frame_wf: "net_wf s \<Longrightarrow> net_wf (snd (handle_frame frame s))"
  by (auto simp: handle_frame_def handle_arp_wf handle_ipv4_wf split: option.splits)

lemma net_poll_wf_ind: "net_wf s \<Longrightarrow> net_wf (fst (net_poll send fs s d))"
proof (induction send fs s d rule: net_poll.induct)
  case (2 send f fs s d)
  show ?case using 2 handle_frame_wf [of s f] by (cases "handle_frame f s") (auto split: option.splits)
qed simp


section \<open>Two machines on one link\<close>

text \<open>A transmit function that puts every frame on a list: the link between two machines.\<close>

definition on_link :: "u8 list \<Rightarrow> u8 list list \<Rightarrow> unit result \<times> u8 list list" where
  "on_link frame link = (Inr (), link @ [frame])"

lemma frame_parse_build [simp]:
  "length dst = 6 \<Longrightarrow> length src = 6 \<Longrightarrow> ethernet_parse (ethernet_build dst src ty pl) =
     Some \<lparr>eth_dst = dst, eth_src = src, eth_type = ty, eth_payload = pl\<rparr>"
  using eth.decode_encode [of "\<lparr>eth_dst = dst, eth_src = src, eth_type = ty, eth_payload = pl\<rparr>"]
  by (simp add: frame_bytes_def frame_valid_def)

lemma arp_parse_build [simp]:
  "length smac = 6 \<Longrightarrow> length sip = 4 \<Longrightarrow> length tmac = 6 \<Longrightarrow> length tip = 4 \<Longrightarrow>
   arp_parse (arp_build opn smac sip tmac tip) =
     Some \<lparr>arp_op = opn, sender_mac = smac, sender_ip = sip, target_ip = tip\<rparr>"
  using arp.decode_encode [of tmac "\<lparr>arp_op = opn, sender_mac = smac, sender_ip = sip, target_ip = tip\<rparr>"]
  by (simp add: arp_bytes_def arp_valid_def)

lemma ipv4_parse_build [simp]:
  "length src = 4 \<Longrightarrow> length dst = 4 \<Longrightarrow> length pl < 65516 \<Longrightarrow> ipv4_parse (ipv4_build src dst proto pl ident) =
     Some \<lparr>ip_src = src, ip_dst = dst, ip_proto = proto, ip_payload = pl\<rparr>"
  using ip.decode_encode [of "\<lparr>ip_src = src, ip_dst = dst, ip_proto = proto, ip_payload = pl\<rparr>" ident]
  by (simp add: ipv4_bytes_def ipv4_valid_def)

lemma icmp_parse_build [simp]:
  "icmp_parse (icmp_build ty ident sq pl) = Some \<lparr>icmp_type = ty, icmp_id = ident, icmp_seq = sq, icmp_payload = pl\<rparr>"
  using icmp.decode_encode [of "\<lparr>icmp_type = ty, icmp_id = ident, icmp_seq = sq, icmp_payload = pl\<rparr>"]
  by (simp add: icmp_bytes_def)

lemma udp_parse_build [simp]:
  "length pl < 65528 \<Longrightarrow> udp_parse (udp_build sip dip sp dp pl) =
     Some \<lparr>udp_src_port = sp, udp_dst_port = dp, udp_payload = pl\<rparr>"
  using udp.decode_encode [of "\<lparr>udp_src_port = sp, udp_dst_port = dp, udp_payload = pl\<rparr>" sip dip]
  by (simp add: udp_bytes_def udp_valid_def)

lemma icmp_build_length [simp]: "length (icmp_build ty ident sq pl) = 8 + length pl"
  by (simp add: icmp_build_def icmp_message_def)

lemma udp_build_length [simp]: "length (udp_build sip dip sp dp pl) = 8 + length pl"
  by (simp add: udp_build_def udp_datagram_def Let_def)

lemma net_wfD: "net_wf s \<Longrightarrow> IFACE s = Some i \<Longrightarrow> iface_wf i"
  and iface_wfD: "iface_wf i \<Longrightarrow> length (if_mac i) = 6 \<and> length (if_ip i) = 4 \<and> length (if_gateway i) = 4"
  and iface_wf_gw: "iface_wf i \<Longrightarrow> if_gateway_mac i = Some m \<Longrightarrow> length m = 6"
  by (simp_all add: net_wf_def iface_wf_def)

text \<open>
  C26: every frame, whatever its bytes, leaves the interface well formed: \<open>poll\<close> over any frames keeps
  the ARP cache within its eight entries with distinct addresses, the gateway MAC six bytes wide,
  and the socket table well formed.
\<close>

theorem net_poll_wf:
  assumes "net_wf s"
  shows "net_wf (fst (net_poll send frames s d))"
  by (rule net_poll_wf_ind [OF assms])

text \<open>
  C20: a UDP payload that one machine sends arrives unchanged at the socket the other machine has bound to
  the destination port, labelled with the sender's address and port, behind what was waiting there,
  and no other socket sees it.
\<close>

theorem net_udp_delivery:
  assumes "net_wf a" and "net_wf b" and "IFACE a = Some i" and "IFACE b = Some j"
    and "if_gateway_mac i \<noteq> None" and "length payload < 65508"
    and "owns_port idx dst_port (sockets b)" and "length (backlog idx (sockets b)) < MAX_BACKLOG"
    and "send_udp on_link (if_ip j) dst_port src_port payload a [] = (r, a', frames)"
  shows "r = Inr () \<and>
    backlog idx (sockets (fst (net_poll on_link frames b []))) = backlog idx (sockets b) @
      [\<lparr>dg_src_ip = if_ip i, dg_src_port = src_port, dg_data = payload\<rparr>] \<and>
    (\<forall>k. k \<noteq> idx \<longrightarrow> socket_at (sockets (fst (net_poll on_link frames b []))) k = socket_at (sockets b) k)"
proof -
  note wi = net_wfD [OF assms(1,3)] and wj = net_wfD [OF assms(2,4)]
  note L = iface_wfD [OF wi] iface_wfD [OF wj]
  obtain gw where gw: "if_gateway_mac i = Some gw" using assms(5) by blast
  note lgw = iface_wf_gw [OF wi gw]
  have r: "r = Inr ()" and fr: "frames = [ethernet_build gw (if_mac i) ETHERTYPE_IPV4 (ipv4_build (if_ip i) (if_ip j) PROTO_UDP
      (udp_build (if_ip i) (if_ip j) src_port dst_port payload) (IP_IDENT a))]"
    using assms(3,9) gw by (simp_all add: send_udp_def on_link_def Let_def)
  have s: "sockets (fst (net_poll on_link frames b [])) =
      deliver_to dst_port \<lparr>dg_src_ip = if_ip i, dg_src_port = src_port, dg_data = payload\<rparr> (sockets b)"
    using L lgw assms(4,6) unfolding fr
    by (simp add: handle_frame_def handle_ipv4_def on_link_def deliver_to_def)
  show ?thesis unfolding s
    using r sockq.push_items [OF assms(7)] assms(8) deliver_to_others [OF assms(7)] by simp
qed


section \<open>Witnesses\<close>

text \<open>The guest and its gateway, each with a fresh interface.\<close>

definition fresh_iface :: "u8 \<Rightarrow> u8 list \<Rightarrow> u8 list \<Rightarrow> Iface" where
  "fresh_iface m ip gw = \<lparr>if_mac = [0x52, 0x54, 0, 0x12, 0x34, m], if_ip = ip, if_gateway = gw,
     arp_cache = replicate ARP_CACHE_LEN (replicate 4 0, replicate 6 0), arp_len = 0,
     if_gateway_mac = Some [0x52, 0x54, 0, 0x12, 0x34, 2], if_ping_replies = 0\<rparr>"

definition guest_net :: net where
  "guest_net = \<lparr>IFACE = Some (fresh_iface 1 OUR_IP GATEWAY_IP), IP_IDENT = 1, sockets = TABLE\<rparr>"

definition gateway_net :: net where
  "gateway_net = \<lparr>IFACE = Some (fresh_iface 2 GATEWAY_IP GATEWAY_IP), IP_IDENT = 1, sockets = dns_table\<rparr>"

lemma fresh_iface_wf: "length ip = 4 \<Longrightarrow> length gw = 4 \<Longrightarrow> iface_wf (fresh_iface m ip gw)"
  by (simp add: iface_wf_def fresh_iface_def arp_entries_def)

lemma guest_net_wf: "net_wf guest_net"
  using fresh_iface_wf [of OUR_IP GATEWAY_IP 1] TABLE_wf by (simp add: net_wf_def guest_net_def)

lemma gateway_net_wf: "net_wf gateway_net"
  using fresh_iface_wf [of GATEWAY_IP GATEWAY_IP 2] dns_table_owns
  by (simp add: net_wf_def gateway_net_def owns_port_def)

theorem net_poll_wf_witness: "net_wf (fst (net_poll on_link [[1, 2, 3], replicate 60 0] guest_net []))"
  by (rule net_poll_wf [OF guest_net_wf])

theorem net_udp_delivery_witness:
  "backlog 0 (sockets (fst (net_poll on_link (snd (snd
     (send_udp on_link GATEWAY_IP 53 5000 [1, 2, 3] guest_net []))) gateway_net []))) =
   [\<lparr>dg_src_ip = OUR_IP, dg_src_port = 5000, dg_data = [1, 2, 3]\<rparr>]"
proof -
  obtain r a' frames where u: "send_udp on_link GATEWAY_IP 53 5000 [1, 2, 3] guest_net [] = (r, a', frames)"
    by (metis prod_cases3)
  with net_udp_delivery [OF guest_net_wf gateway_net_wf,
      of "fresh_iface 1 OUR_IP GATEWAY_IP" "fresh_iface 2 GATEWAY_IP GATEWAY_IP" "[1, 2, 3]" 0 53 5000 r a' frames]
  show ?thesis
    using dns_table_owns dns_table_backlog
    by (simp add: guest_net_def gateway_net_def fresh_iface_def)
qed

end
