(* ===== verification/Kernel_State.thy ===== *)
theory Kernel_State
  imports Elf Vfs Uart Nce Net_Iface
begin

text \<open>
  The state of the running kernel: the machine (memory and frame allocator) extended by the statics of the
  other modules, and the environment, a record of parameters for everything below or outside the kernel:
  linker symbols, the block device, the embedded program images, the memory-mapped devices and the
  network card. The device state \<open>'d\<close> belongs to the environment. \<open>TrapFrame\<close> is \<open>trap/context.rs\<close>;
  \<open>Process\<close> and its parts are the types of \<open>sched/process.rs\<close>.
\<close>

section \<open>Trap frames\<close>

record TrapFrame =
  regs :: "usize list"
  sepc :: usize
  sstatus :: usize
  kernel_sp :: usize

definition TrapFrame_zeroed :: TrapFrame where
  "TrapFrame_zeroed = \<lparr>regs = replicate 32 0, sepc = 0, sstatus = 0, kernel_sp = 0\<rparr>"

definition tf_a0 :: "TrapFrame \<Rightarrow> usize" where "tf_a0 tf = regs tf ! 10"
definition set_a0 :: "usize \<Rightarrow> TrapFrame \<Rightarrow> TrapFrame" where "set_a0 v tf = tf\<lparr>regs := (regs tf)[10 := v]\<rparr>"
definition tf_a1 :: "TrapFrame \<Rightarrow> usize" where "tf_a1 tf = regs tf ! 11"
definition tf_a2 :: "TrapFrame \<Rightarrow> usize" where "tf_a2 tf = regs tf ! 12"
definition tf_a3 :: "TrapFrame \<Rightarrow> usize" where "tf_a3 tf = regs tf ! 13"
definition tf_a4 :: "TrapFrame \<Rightarrow> usize" where "tf_a4 tf = regs tf ! 14"
definition tf_a5 :: "TrapFrame \<Rightarrow> usize" where "tf_a5 tf = regs tf ! 15"
definition tf_a7 :: "TrapFrame \<Rightarrow> usize" where "tf_a7 tf = regs tf ! 17"

section \<open>Processes\<close>

definition MAX_PROCS :: nat where [simp]: "MAX_PROCS = 64"
definition NO_PROC :: nat where "NO_PROC = 2 ^ 64 - 1"
definition USER_STACK_TOP :: usize where [simp]: "USER_STACK_TOP = 0x7ffff000"
definition USER_STACK_PAGES :: nat where [simp]: "USER_STACK_PAGES = 16"
definition MMAP_BASE :: usize where [simp]: "MMAP_BASE = 0x50000000"

datatype ProcState = Ready | Running | SleepChild | SleepConsole | Zombie

fun ProcState_as_str :: "ProcState \<Rightarrow> string" where
  "ProcState_as_str Ready = ''ready''"
| "ProcState_as_str Running = ''run''"
| "ProcState_as_str SleepChild = ''wait''"
| "ProcState_as_str SleepConsole = ''sleep''"
| "ProcState_as_str Zombie = ''zombie''"

datatype FdKind = FdFile u32 | FdNce nat | FdSocket nat

record OpenFile =
  fd_kind :: FdKind
  fd_pos :: nat

record Process =
  pid :: nat
  pstate :: ProcState
  parent :: nat
  root_pa :: usize
  exit_code :: u32
  wait_status_uva :: usize
  read_buf_uva :: usize
  read_len :: usize
  next_mmap :: usize
  brk :: usize
  pname :: "u8 list"
  files :: "OpenFile option list"
  nce_affinity :: usize

section \<open>The kernel\<close>

record 'd kernel = machine +
  slots :: "Process option list"
  next_pid :: nat
  last_run :: nat
  TRAPFRAMES :: "TrapFrame list"
  CURRENT :: nat
  RX :: RxRing
  NET :: net
  NCES :: "Nce list"
  ROOT :: "MinixFs option"
  TICKS :: usize
  CSR_SSTATUS :: usize
  CSR_SATP :: usize
  CSR_STIMECMP :: u64
  device :: 'd

record 'd env =
  ld :: linker
  kernel_root_pa :: usize
  blk :: blkdev
  images :: ramfs
  image_ptr :: usize
  uart_bus :: "'d bus"
  mmio_read32 :: "usize \<Rightarrow> 'd \<Rightarrow> u32 \<times> 'd"
  mmio_write32 :: "usize \<Rightarrow> u32 \<Rightarrow> 'd \<Rightarrow> 'd"
  mmio_read64 :: "usize \<Rightarrow> 'd \<Rightarrow> u64 \<times> 'd"
  net_send :: "u8 list \<Rightarrow> 'd \<Rightarrow> unit result \<times> 'd"
  net_poll_rx :: "'d \<Rightarrow> u8 list list \<times> 'd"

text \<open>A slot of the process table, \<open>None\<close> also out of range; and its update.\<close>

definition proc_at :: "'d kernel \<Rightarrow> nat \<Rightarrow> Process option" where
  "proc_at s i = (if i < length (slots s) then slots s ! i else None)"

definition set_proc :: "nat \<Rightarrow> Process option \<Rightarrow> 'd kernel \<Rightarrow> 'd kernel" where
  "set_proc i p s = s\<lparr>slots := (slots s)[i := p]\<rparr>"

definition upd_proc :: "nat \<Rightarrow> (Process \<Rightarrow> Process) \<Rightarrow> 'd kernel \<Rightarrow> 'd kernel" where
  "upd_proc i f s = set_proc i (map_option f (proc_at s i)) s"

definition tf_at :: "'d kernel \<Rightarrow> nat \<Rightarrow> TrapFrame" where "tf_at s i = TRAPFRAMES s ! i"

definition set_tf :: "nat \<Rightarrow> TrapFrame \<Rightarrow> 'd kernel \<Rightarrow> 'd kernel" where
  "set_tf i tf s = s\<lparr>TRAPFRAMES := (TRAPFRAMES s)[i := tf]\<rparr>"

definition set_slot_a0 :: "nat \<Rightarrow> usize \<Rightarrow> 'd kernel \<Rightarrow> 'd kernel" where
  "set_slot_a0 i v s = set_tf i (set_a0 v (tf_at s i)) s"

end
