(* ===== verification/Proc_Spec.thy ===== *)
theory Proc_Spec
  imports Kernel_State
begin

text \<open>
  The contract of the process table: what a table is to the outside (which slot holds which process, in
  which state, whose child) and the steps that may change it, one per event of a process's life. The
  invariant of that machine says that identifiers are unique, that every parent is alive, that at most
  the current process runs, and that nobody but init sleeps while a child of its own is waiting to be
  reaped. The theory \<open>Proc_Refine\<close> shows that the kernel's trap handlers only make such steps.
\<close>

record pentry =
  epid :: nat
  estate :: ProcState
  eparent :: nat

record ptable =
  T :: "nat \<Rightarrow> pentry option"
  nxt :: nat
  cur :: nat

definition a_reparent :: "nat \<Rightarrow> nat \<Rightarrow> (nat \<Rightarrow> pentry option) \<Rightarrow> nat \<Rightarrow> pentry option" where
  "a_reparent c np t i = map_option (\<lambda>e. if eparent e = c then e\<lparr>eparent := np\<rparr> else e) (t i)"

text \<open>Where orphans go: the slot of process 1, or nowhere if there is none.\<close>

definition init_slot :: "(nat \<Rightarrow> pentry option) \<Rightarrow> nat \<Rightarrow> bool" where
  "init_slot t np \<longleftrightarrow> (\<exists>e. t np = Some e \<and> epid e = 1) \<or>
     np = NO_PROC \<and> (\<forall>i e. t i = Some e \<longrightarrow> epid e \<noteq> 1)"

inductive pstep :: "ptable \<Rightarrow> ptable \<Rightarrow> bool" where
  a_fork: "T a c = Some e \<Longrightarrow> c = cur a \<Longrightarrow> i < MAX_PROCS \<Longrightarrow> T a i = None \<Longrightarrow>
    pstep a (a\<lparr>T := (T a)(i \<mapsto> \<lparr>epid = nxt a, estate = Ready, eparent = c\<rparr>), nxt := nxt a + 1\<rparr>)"
| a_exit: "T a c = Some e \<Longrightarrow> c = cur a \<Longrightarrow> epid e \<noteq> 1 \<Longrightarrow> init_slot (T a) np \<Longrightarrow>
    t = (a_reparent c np (T a))(c \<mapsto> e\<lparr>estate := Zombie\<rparr>) \<Longrightarrow>
    \<not> (\<exists>q. t (eparent e) = Some q \<and> estate q = SleepChild) \<Longrightarrow> pstep a (a\<lparr>T := t, cur := NO_PROC\<rparr>)"
| a_exit_reaped: "T a c = Some e \<Longrightarrow> c = cur a \<Longrightarrow> epid e \<noteq> 1 \<Longrightarrow> init_slot (T a) np \<Longrightarrow>
    t = a_reparent c np (T a) \<Longrightarrow> t (eparent e) = Some q \<Longrightarrow> estate q = SleepChild \<Longrightarrow> eparent e \<noteq> c \<Longrightarrow>
    pstep a (a\<lparr>T := (t(eparent e \<mapsto> q\<lparr>estate := Ready\<rparr>))(c := None), cur := NO_PROC\<rparr>)"
| a_wait_reap: "T a c = Some e \<Longrightarrow> c = cur a \<Longrightarrow> T a z = Some f \<Longrightarrow> eparent f = c \<Longrightarrow> estate f = Zombie \<Longrightarrow> z \<noteq> c \<Longrightarrow>
    pstep a (a\<lparr>T := ((T a)(c \<mapsto> e\<lparr>estate := Ready\<rparr>))(z := None), cur := NO_PROC\<rparr>)"
| a_wait_sleep: "T a c = Some e \<Longrightarrow> c = cur a \<Longrightarrow> T a z = Some f \<Longrightarrow> eparent f = c \<Longrightarrow>
    \<not> (\<exists>j g. T a j = Some g \<and> eparent g = c \<and> estate g = Zombie) \<Longrightarrow>
    pstep a (a\<lparr>T := (T a)(c \<mapsto> e\<lparr>estate := SleepChild\<rparr>), cur := NO_PROC\<rparr>)"
| a_yield: "T a c = Some e \<Longrightarrow> c = cur a \<Longrightarrow>
    pstep a (a\<lparr>T := (T a)(c \<mapsto> e\<lparr>estate := Ready\<rparr>), cur := NO_PROC\<rparr>)"
| a_block: "T a c = Some e \<Longrightarrow> c = cur a \<Longrightarrow>
    pstep a (a\<lparr>T := (T a)(c \<mapsto> e\<lparr>estate := SleepConsole\<rparr>), cur := NO_PROC\<rparr>)"
| a_wake: "T a i = Some e \<Longrightarrow> estate e = SleepConsole \<Longrightarrow>
    pstep a (a\<lparr>T := (T a)(i \<mapsto> e\<lparr>estate := Ready\<rparr>)\<rparr>)"
| a_pick: "T a i = Some e \<Longrightarrow> estate e = Ready \<Longrightarrow> cur a = NO_PROC \<Longrightarrow>
    pstep a (a\<lparr>T := (T a)(i \<mapsto> e\<lparr>estate := Running\<rparr>), cur := i\<rparr>)"

definition pinv :: "ptable \<Rightarrow> bool" where
  "pinv a \<longleftrightarrow>
     (\<forall>i e. T a i = Some e \<longrightarrow> i < MAX_PROCS \<and> 1 \<le> epid e \<and> epid e < nxt a) \<and>
     (\<forall>i j e f. T a i = Some e \<and> T a j = Some f \<and> epid e = epid f \<longrightarrow> i = j) \<and>
     (\<exists>i e. T a i = Some e \<and> epid e = 1 \<and> estate e \<noteq> Zombie \<and> eparent e = NO_PROC) \<and>
     (\<forall>i e. T a i = Some e \<longrightarrow> eparent e = NO_PROC \<or> eparent e \<noteq> i \<and> (\<exists>f. T a (eparent e) = Some f \<and> estate f \<noteq> Zombie)) \<and>
     (\<forall>i e. T a i = Some e \<and> estate e = Running \<longrightarrow> i = cur a) \<and>
     (cur a = NO_PROC \<or> (\<exists>e. T a (cur a) = Some e \<and> estate e = Running)) \<and>
     (\<forall>i e. T a i = Some e \<and> estate e = SleepChild \<longrightarrow> (\<exists>j f. T a j = Some f \<and> eparent f = i)) \<and>
     (\<forall>i e j f. T a i = Some e \<and> estate e = SleepChild \<and> epid e \<noteq> 1 \<and> T a j = Some f \<and> eparent f = i \<longrightarrow> estate f \<noteq> Zombie)"

lemma pinvD:
  assumes "pinv a"
  shows "T a i = Some e \<Longrightarrow> i < 64" and "T a i = Some e \<Longrightarrow> 1 \<le> epid e" and "T a i = Some e \<Longrightarrow> epid e < nxt a"
    and "T a i = Some e \<Longrightarrow> T a j = Some f \<Longrightarrow> epid e = epid f \<Longrightarrow> i = j"
    and "\<exists>i e. T a i = Some e \<and> epid e = 1 \<and> estate e \<noteq> Zombie \<and> eparent e = NO_PROC"
    and "T a i = Some e \<Longrightarrow> eparent e = NO_PROC \<or> eparent e \<noteq> i \<and> (\<exists>f. T a (eparent e) = Some f \<and> estate f \<noteq> Zombie)"
    and "T a i = Some e \<Longrightarrow> estate e = Running \<Longrightarrow> i = cur a"
    and "cur a = NO_PROC \<or> (\<exists>e. T a (cur a) = Some e \<and> estate e = Running)"
    and "T a i = Some e \<Longrightarrow> estate e = SleepChild \<Longrightarrow> \<exists>j f. T a j = Some f \<and> eparent f = i"
    and "T a i = Some e \<Longrightarrow> estate e = SleepChild \<Longrightarrow> epid e \<noteq> 1 \<Longrightarrow> T a j = Some f \<Longrightarrow> eparent f = i \<Longrightarrow> estate f \<noteq> Zombie"
proof -
  show "T a i = Some e \<Longrightarrow> T a j = Some f \<Longrightarrow> epid e = epid f \<Longrightarrow> i = j"
    using assms unfolding pinv_def by blast
  show "T a i = Some e \<Longrightarrow> estate e = SleepChild \<Longrightarrow> epid e \<noteq> 1 \<Longrightarrow> T a j = Some f \<Longrightarrow> eparent f = i \<Longrightarrow> estate f \<noteq> Zombie"
    using assms unfolding pinv_def by blast
qed (use assms in \<open>auto simp: pinv_def\<close>)


lemma pinvI:
  assumes "\<And>i e. T a i = Some e \<Longrightarrow> i < 64 \<and> 1 \<le> epid e \<and> epid e < nxt a"
    and "\<And>i j e f. T a i = Some e \<Longrightarrow> T a j = Some f \<Longrightarrow> epid e = epid f \<Longrightarrow> i = j"
    and "\<exists>i e. T a i = Some e \<and> epid e = 1 \<and> estate e \<noteq> Zombie \<and> eparent e = NO_PROC"
    and "\<And>i e. T a i = Some e \<Longrightarrow> eparent e \<noteq> NO_PROC \<Longrightarrow> eparent e \<noteq> i \<and> (\<exists>f. T a (eparent e) = Some f \<and> estate f \<noteq> Zombie)"
    and "\<And>i e. T a i = Some e \<Longrightarrow> estate e = Running \<Longrightarrow> i = cur a"
    and "cur a \<noteq> NO_PROC \<Longrightarrow> \<exists>e. T a (cur a) = Some e \<and> estate e = Running"
    and "\<And>i e. T a i = Some e \<Longrightarrow> estate e = SleepChild \<Longrightarrow> \<exists>j f. T a j = Some f \<and> eparent f = i"
    and "\<And>i e j f. T a i = Some e \<Longrightarrow> estate e = SleepChild \<Longrightarrow> epid e \<noteq> 1 \<Longrightarrow> T a j = Some f \<Longrightarrow> eparent f = i \<Longrightarrow> estate f \<noteq> Zombie"
  shows "pinv a"
  unfolding pinv_def MAX_PROCS_def
proof (intro conjI allI impI)
  show "\<exists>i e. T a i = Some e \<and> epid e = 1 \<and> estate e \<noteq> Zombie \<and> eparent e = NO_PROC" by (rule assms(3))
  show "cur a = NO_PROC \<or> (\<exists>e. T a (cur a) = Some e \<and> estate e = Running)" using assms(6) by blast
  show "eparent e = NO_PROC \<or> eparent e \<noteq> i \<and> (\<exists>f. T a (eparent e) = Some f \<and> estate f \<noteq> Zombie)"
    if "T a i = Some e" for i e using assms(4) [OF that] by blast
  show "i = j" if "T a i = Some e \<and> T a j = Some f \<and> epid e = epid f" for i j e f using assms(2) that by blast
  show "estate f \<noteq> Zombie" if "T a i = Some e \<and> estate e = SleepChild \<and> epid e \<noteq> 1 \<and> T a j = Some f \<and> eparent f = i" for i e j f
    using assms(8) that by blast
qed (use assms(1,5,7) in auto)

lemma NO_PROC_big: "64 < NO_PROC"
  by (simp add: NO_PROC_def)

lemma pinv_NO_PROC: "pinv a \<Longrightarrow> T a NO_PROC = None"
  using pinvD(1) [of a NO_PROC] NO_PROC_big by (cases "T a NO_PROC") auto

section \<open>The invariant\<close>

text \<open>A live process changes state.\<close>

lemma pinv_set_state:
  assumes inv: "pinv a" and i: "T a i = Some e" "estate e \<noteq> Zombie" "st \<noteq> Zombie"
    and c: "c' = (if st = Running then i else if i = cur a then NO_PROC else cur a)" "st = Running \<Longrightarrow> cur a = NO_PROC"
    and sl: "st = SleepChild \<Longrightarrow> (\<exists>j f. T a j = Some f \<and> eparent f = i) \<and> (\<forall>j f. T a j = Some f \<and> eparent f = i \<longrightarrow> estate f \<noteq> Zombie)"
  shows "pinv (a\<lparr>T := (T a)(i \<mapsto> e\<lparr>estate := st\<rparr>), cur := c'\<rparr>)" (is "pinv ?a")
proof -
  have at: "T ?a j = Some g \<Longrightarrow> \<exists>f. T a j = Some f \<and> epid g = epid f \<and> eparent g = eparent f \<and>
      estate g = (if j = i then st else estate f)" for j g
    using i by (auto split: if_splits)
  have bk: "T a j = Some f \<Longrightarrow> \<exists>g. T ?a j = Some g \<and> epid g = epid f \<and> eparent g = eparent f \<and>
      estate g = (if j = i then st else estate f)" for j f
    using i by auto
  show ?thesis
  proof (rule pinvI, goal_cases)
    case (1 j g)
    then show ?case using at pinvD(1-3) [OF inv] by fastforce
  next
    case (2 j k g h)
    then show ?case using at [of j g] at [of k h] pinvD(4) [OF inv] by auto
  next
    case 3
    obtain k f where "T a k = Some f" "epid f = 1" "estate f \<noteq> Zombie" "eparent f = NO_PROC" using pinvD(5) [OF inv] by blast
    then obtain g where "T ?a k = Some g" "epid g = 1" "eparent g = NO_PROC" "estate g \<noteq> Zombie"
      using bk [of k f] i(3) by (metis (full_types))
    then show ?case by blast
  next
    case (4 j g)
    then obtain f h where "T a j = Some f" "eparent g = eparent f" "eparent f \<noteq> j" "T a (eparent f) = Some h" "estate h \<noteq> Zombie"
      using at [of j g] pinvD(6) [OF inv] by metis
    then show ?case using bk [of "eparent f" h] i(3) by auto
  next
    case (5 j g)
    then show ?case using at [of j g] c pinvD(7) [OF inv, of j] pinv_NO_PROC [OF inv] by (auto split: if_splits)
  next
    case 6
    then show ?case using c pinvD(8) [OF inv] by (auto split: if_splits)
  next
    case (7 j g)
    then obtain k f where "T a k = Some f" "eparent f = j" using at [of j g] sl pinvD(9) [OF inv] by (metis (full_types))
    then show ?case using bk [of k f] by blast
  next
    case (8 j g k h)
    then show ?case using at [of j g] at [of k h] sl i(3) pinvD(10) [OF inv] by (auto split: if_splits)
  qed
qed

text \<open>A zombie whose parent is awake is reaped.\<close>

lemma pinv_remove:
  assumes inv: "pinv a" and z: "T a z = Some f" "estate f = Zombie"
    and p: "\<And>q. T a (eparent f) = Some q \<Longrightarrow> estate q \<noteq> SleepChild"
  shows "pinv (a\<lparr>T := (T a)(z := None)\<rparr>)" (is "pinv ?a")
proof -
  have at: "T ?a j = Some g \<longleftrightarrow> T a j = Some g \<and> j \<noteq> z" for j g by simp
  show ?thesis
  proof (rule pinvI, unfold at, goal_cases)
    case 3
    then show ?case using pinvD(5) [OF inv] z by fastforce
  next
    case (4 i e)
    then show ?case using pinvD(6) [OF inv] z by fastforce
  next
    case 6
    then show ?case using pinvD(8) [OF inv] z by fastforce
  next
    case (7 i e)
    then obtain j g where "T a j = Some g" "eparent g = i" using pinvD(9) [OF inv] by blast
    moreover have "j \<noteq> z" using calculation z p 7 by auto
    ultimately show ?case by blast
  qed (use pinvD(1-4,7,10) [OF inv] in auto)
qed

text \<open>The current process becomes a zombie and its children init's, when its parent is awake.\<close>

lemma pinv_exit:
  assumes inv: "pinv a" and c: "T a c = Some e" "c = cur a" "epid e \<noteq> 1" and np: "init_slot (T a) np"
    and p: "\<And>q. T a (eparent e) = Some q \<Longrightarrow> estate q \<noteq> SleepChild"
  shows "pinv (a\<lparr>T := (a_reparent c np (T a))(c \<mapsto> e\<lparr>estate := Zombie\<rparr>), cur := NO_PROC\<rparr>)" (is "pinv ?a")
proof -
  have run: "estate e = Running" using pinvD(8) [OF inv] c pinv_NO_PROC [OF inv] by auto
  have ec: "eparent e \<noteq> c" using pinvD(6) [OF inv c(1)] c pinv_NO_PROC [OF inv] by auto
  obtain k ek where k: "T a k = Some ek" "epid ek = 1" "estate ek \<noteq> Zombie" "eparent ek = NO_PROC" using pinvD(5) [OF inv] by blast
  have "np = k" using np k pinvD(4) [OF inv] by (auto simp: init_slot_def)
  have kc: "k \<noteq> c" "c \<noteq> NO_PROC" using k c pinv_NO_PROC [OF inv] by auto
  have at: "\<exists>f. T a j = Some f \<and> epid g = epid f \<and> eparent g = (if eparent f = c then k else eparent f) \<and>
      estate g = (if j = c then Zombie else estate f)" if "T ?a j = Some g" for j g
    using that c ec \<open>np = k\<close> by (cases "T a j") (auto simp: a_reparent_def split: if_splits)
  have bk: "\<exists>g. T ?a j = Some g \<and> epid g = epid f \<and> eparent g = (if eparent f = c then k else eparent f) \<and>
      estate g = (if j = c then Zombie else estate f)" if "T a j = Some f" for j f
    using that c ec \<open>np = k\<close> by (auto simp: a_reparent_def)
  show ?thesis
  proof (rule pinvI, goal_cases)
    case (1 j g)
    then show ?case using at pinvD(1-3) [OF inv] by fastforce
  next
    case (2 i j g h)
    then show ?case using at [of i g] at [of j h] pinvD(4) [OF inv] by auto
  next
    case 3
    then show ?case using bk [OF k(1)] k kc by auto
  next
    case (4 i g)
    then obtain f where f: "T a i = Some f" "eparent g = (if eparent f = c then k else eparent f)" using at by blast
    show ?case
    proof (cases "eparent f = c")
      case True
      then have "i \<noteq> k" using f k kc by auto
      then show ?thesis using True f bk [OF k(1)] k kc by auto
    next
      case False
      then obtain h where "eparent f \<noteq> i" "T a (eparent f) = Some h" "estate h \<noteq> Zombie"
        using pinvD(6) [OF inv f(1)] f 4 by auto
      then show ?thesis using False f bk [of "eparent f" h] by auto
    qed
  next
    case (5 i g)
    then show ?case using at [of i g] pinvD(7) [OF inv] c by (auto split: if_splits)
  next
    case (7 i g)
    then obtain f where f: "T a i = Some f" "estate f = SleepChild" "i \<noteq> c" using at [of i g] by (auto split: if_splits)
    then obtain j h where "T a j = Some h" "eparent h = i" using pinvD(9) [OF inv] by blast
    then obtain g' where "T ?a j = Some g'" "eparent g' = i" using bk [of j h] f by (metis (full_types))
    then show ?case by blast
  next
    case (8 i g j h)
    then obtain f where f: "T a i = Some f" "estate f = SleepChild" "i \<noteq> c" "epid f \<noteq> 1" using at [of i g] by (auto split: if_splits)
    obtain f' where f': "T a j = Some f'" "eparent h = (if eparent f' = c then k else eparent f')"
      "estate h = (if j = c then Zombie else estate f')" using at [OF 8(4)] by blast
    have "i \<noteq> k" using f k by auto
    then have "eparent f' = i" using f' 8(5) by (auto split: if_splits)
    then show ?case using f f' p c pinvD(10) [OF inv] by (auto split: if_splits)
  qed simp
qed

text \<open>A new child of the current process.\<close>

lemma pinv_fork:
  assumes inv: "pinv a" and c: "T a c = Some e" "c = cur a" and i: "i < 64" "T a i = None"
  shows "pinv (a\<lparr>T := (T a)(i \<mapsto> \<lparr>epid = nxt a, estate = Ready, eparent = c\<rparr>), nxt := nxt a + 1\<rparr>)" (is "pinv ?a")
proof -
  have run: "estate e = Running" using pinvD(8) [OF inv] c pinv_NO_PROC [OF inv] by auto
  have ic: "i \<noteq> c" using c i by auto
  have old: "T ?a j = T a j" if "j \<noteq> i" for j using that by simp
  have at: "T a j = Some g \<or> j = i \<and> g = \<lparr>epid = nxt a, estate = Ready, eparent = c\<rparr>" if "T ?a j = Some g" for j g
    using that by (auto split: if_splits)
  have bk: "T ?a j = Some g" if "T a j = Some g" for j g using that i by auto
  show ?thesis
  proof (rule pinvI, goal_cases)
    case (1 j g)
    then show ?case using at [of j g] pinvD(1-3) [OF inv] i pinvD(2,3) [OF inv c(1)] by fastforce
  next
    case (2 j k g h)
    then show ?case using at [of j g] at [of k h] pinvD(4) [OF inv, of j g k h] pinvD(3) [OF inv] by fastforce
  next
    case 3
    then show ?case using bk pinvD(5) [OF inv] by blast
  next
    case (4 j g)
    then show ?case using at [of j g] bk c run ic pinvD(6) [OF inv, of j g] by fastforce
  next
    case (5 j g)
    then show ?case using at [of j g] pinvD(7) [OF inv, of j g] by auto
  next
    case 6
    then show ?case using c run ic by auto
  next
    case (7 j g)
    then show ?case using at [of j g] bk pinvD(9) [OF inv, of j g] by (auto simp del: fun_upd_apply)
  next
    case (8 j g k h)
    then show ?case using at [of j g] at [of k h] pinvD(10) [OF inv, of j g k h] by auto
  qed
qed

lemma pinv_current:
  "pinv a \<Longrightarrow> T a (cur a) = Some e \<Longrightarrow> estate e = Running"
  "pinv a \<Longrightarrow> T a (cur a) = Some e \<Longrightarrow> cur a \<noteq> NO_PROC"
  using pinvD(8) pinv_NO_PROC by fastforce+

text \<open>Every step keeps the invariant.\<close>

lemma pstep_pinv: "pstep a b \<Longrightarrow> pinv a \<Longrightarrow> pinv b"
proof (induction rule: pstep.induct)
  case (a_fork a c e i)
  then show ?case using pinv_fork [of a c e i] by simp
next
  case (a_exit a c e np t)
  have ec: "eparent e \<noteq> c" using pinvD(6) [OF a_exit(7,1)] a_exit(1,2,7) pinv_current(2) [of a e] by auto
  have "estate q \<noteq> SleepChild" if q: "T a (eparent e) = Some q" for q
  proof -
    have "\<exists>q'. t (eparent e) = Some q' \<and> estate q' = estate q" using q ec by (auto simp: a_exit(5) a_reparent_def)
    then show ?thesis using a_exit(6) by auto
  qed
  then show ?case using pinv_exit [OF a_exit(7,1-4)] a_exit(5) by simp
next
  case (a_exit_reaped a c e np t q)
  obtain q0 where q0: "T a (eparent e) = Some q0" "q = (if eparent q0 = c then q0\<lparr>eparent := np\<rparr> else q0)"
    using a_exit_reaped(5,6) unfolding a_reparent_def by blast
  then have q0_state: "estate q0 = SleepChild" using a_exit_reaped(7) by (auto split: if_splits)
  let ?a1 = "a\<lparr>T := (T a)(eparent e \<mapsto> q0\<lparr>estate := Ready\<rparr>), cur := cur a\<rparr>"
  have i1: "pinv ?a1"
    by (rule pinv_set_state [OF a_exit_reaped(9) q0(1)]) (use q0(1) q0_state a_exit_reaped in auto)
  let ?a2 = "?a1\<lparr>T := (a_reparent c np (T ?a1))(c \<mapsto> e\<lparr>estate := Zombie\<rparr>), cur := NO_PROC\<rparr>"
  have "init_slot (T ?a1) np" using a_exit_reaped(4) q0 by (auto simp: init_slot_def)
  then have i2: "pinv ?a2"
    by (intro pinv_exit [OF i1]) (use a_exit_reaped in auto)
  have i3: "pinv (?a2\<lparr>T := (T ?a2)(c := None)\<rparr>)"
    by (rule pinv_remove [OF i2, of c "e\<lparr>estate := Zombie\<rparr>"])
       (use a_exit_reaped q0 in \<open>auto simp: a_reparent_def split: if_splits\<close>)
  have "(a_reparent c np (T ?a1))(c := None) = (t(eparent e \<mapsto> q\<lparr>estate := Ready\<rparr>))(c := None)"
    using a_exit_reaped q0 by (auto simp: fun_eq_iff a_reparent_def)
  then show ?case using i3 by (cases a) simp
next
  case (a_wait_reap a c e z f)
  let ?a1 = "a\<lparr>T := (T a)(c \<mapsto> e\<lparr>estate := Ready\<rparr>), cur := NO_PROC\<rparr>"
  have "pinv ?a1"
    by (rule pinv_set_state [OF a_wait_reap(7,1)]) (use a_wait_reap pinv_current in auto)
  then have "pinv (?a1\<lparr>T := (T ?a1)(z := None)\<rparr>)"
    by (rule pinv_remove [of _ z f]) (use a_wait_reap in auto)
  then show ?case by (cases a) simp
next
  case (a_wait_sleep a c e z f)
  then show ?case using pinv_current [of a e]
    by (intro pinv_set_state [OF a_wait_sleep(6,1)]) auto
next
  case (a_yield a c e)
  then show ?case using pinv_current [of a e] by (intro pinv_set_state [OF a_yield(3,1)]) auto
next
  case (a_block a c e)
  then show ?case using pinv_current [of a e] by (intro pinv_set_state [OF a_block(3,1)]) auto
next
  case (a_wake a i e)
  then have "i \<noteq> cur a" using pinv_current [of a e] by auto
  then show ?case using a_wake pinv_set_state [OF a_wake(3,1), of Ready "cur a"] by simp
next
  case (a_pick a i e)
  then show ?case by (intro pinv_set_state [OF a_pick(4,1)]) auto
qed

lemma psteps_pinv: "pstep\<^sup>*\<^sup>* a b \<Longrightarrow> pinv a \<Longrightarrow> pinv b"
  by (induction rule: rtranclp_induct) (auto intro: pstep_pinv)

end
