(* ===== verification/Process.thy ===== *)
theory Process
  imports Kernel_State
begin

unbundle bit_operations_syntax

text \<open>
  \<open>kernel/sched/\<close>: the process table and its life cycle (\<open>process.rs\<close>), the round-robin choice
  (\<open>round_robin.rs\<close>) and the scheduler entry points (\<open>mod.rs\<close>). An operation that panics returns \<open>None\<close>.
  Those that never return end in \<open>schedule\<close>, whose result is the state in which the hart enters user mode
  (\<open>CURRENT\<close> names the process) or waits for an interrupt (\<open>CURRENT\<close> is \<open>NO_PROC\<close>). The trap frame a
  system call is given is the current process's own, so the model reads it from the frame table.
\<close>

section \<open>Round robin\<close>

text \<open>The loop of \<open>pick_next\<close> over the offsets \<open>1..=MAX_PROCS\<close>.\<close>

fun pick_loop :: "nat list \<Rightarrow> 'd kernel \<Rightarrow> (nat \<times> usize) option \<times> 'd kernel" where
  "pick_loop [] s = (None, s)"
| "pick_loop (i # is) s =
     (let slot = (last_run s + i) mod MAX_PROCS in
      case proc_at s slot of
        Some p \<Rightarrow>
          if pstate p = Ready then
            (Some (slot, root_pa p), (set_proc slot (Some (p\<lparr>pstate := Running\<rparr>)) s)\<lparr>last_run := slot\<rparr>)
          else pick_loop is s
      | None \<Rightarrow> pick_loop is s)"

definition pick_next :: "'d kernel \<Rightarrow> (nat \<times> usize) option \<times> 'd kernel" where
  "pick_next s = pick_loop [1..<MAX_PROCS + 1] s"

section \<open>Entering user mode\<close>

definition SSTATUS_SPP :: usize where [simp]: "SSTATUS_SPP = 0x100"
definition SSTATUS_SPIE :: usize where [simp]: "SSTATUS_SPIE = 0x20"
definition SSTATUS_SUM :: usize where [simp]: "SSTATUS_SUM = 0x40000"

definition enter_user :: "nat \<Rightarrow> usize \<Rightarrow> 'd kernel \<Rightarrow> 'd kernel" where
  "enter_user slot root s =
     (let st = (CSR_SSTATUS s AND NOT SSTATUS_SPP) OR (SSTATUS_SPIE OR SSTATUS_SUM)
      in (set_tf slot ((tf_at s slot)\<lparr>sstatus := st\<rparr>) s)\<lparr>CSR_SATP := satp root\<rparr>)"

definition schedule :: "'d kernel \<Rightarrow> 'd kernel" where
  "schedule s =
     (case pick_next s of
        (Some (slot, root), s) \<Rightarrow> enter_user slot root (s\<lparr>CURRENT := slot\<rparr>)
      | (None, s) \<Rightarrow> s)"

definition yield_current :: "'d kernel \<Rightarrow> 'd kernel run" where
  "yield_current s =
     (if CURRENT s < length (slots s) then
        (let s = upd_proc (CURRENT s) (\<lambda>p. if pstate p = Running then p\<lparr>pstate := Ready\<rparr> else p) s
         in Some (schedule (s\<lparr>CURRENT := NO_PROC\<rparr>)))
      else None)"

definition resume_current :: "'d kernel \<Rightarrow> 'd kernel run" where
  "resume_current s =
     (case proc_at s (CURRENT s) of
        None \<Rightarrow> None
      | Some p \<Rightarrow> Some (enter_user (CURRENT s) (root_pa p) s))"

section \<open>Creating processes\<close>

definition kernel_stack_top :: "linker \<Rightarrow> usize" where
  "kernel_stack_top l = stack_start l + 64 * 1024"

definition set_name :: "u8 list \<Rightarrow> u8 list \<Rightarrow> u8 list" where
  "set_name dst name = (let n = min (length name) 15 in (take n name @ drop n dst)[n := 0])"

fun map_stack :: "usize \<Rightarrow> nat list \<Rightarrow> 'a machine_scheme \<Rightarrow> (unit result \<times> 'a machine_scheme) run" where
  "map_stack root [] s = Some (Inr (), s)"
| "map_stack root (i # is) s =
     (case page_alloc 1 s of
        (None, s) \<Rightarrow> Some (Inl ''proc: out of memory for stack'', s)
      | (Some frame, s) \<Rightarrow>
          do { (r, s) \<leftarrow> PageTable_map root
                 (USER_STACK_TOP - word_of_nat USER_STACK_PAGES * PAGE_SIZE + word_of_nat i * PAGE_SIZE) frame
                 (PTE_U OR PTE_R OR PTE_W) s;
               (case r of Inl e \<Rightarrow> Some (Inl e, s) | Inr _ \<Rightarrow> map_stack root is s) })"

definition build_address_space :: "'d env \<Rightarrow> u8 list \<Rightarrow> 'a machine_scheme \<Rightarrow>
    ((usize \<times> usize \<times> usize) result \<times> 'a machine_scheme) run" where
  "build_address_space e prog s =
     (case new_user_root (kernel_root_pa e) s of
        (None, s) \<Rightarrow> Some (Inl ''proc: out of memory for root table'', s)
      | (Some root, s) \<Rightarrow>
          do { (r, s) \<leftarrow> elf_load prog (image_ptr e) root s;
               (case r of
                  Inl er \<Rightarrow> Some (Inl er, s)
                | Inr loaded \<Rightarrow>
                    do { (r, s) \<leftarrow> map_stack root [0..<USER_STACK_PAGES] s;
                         Some (case r of Inl er \<Rightarrow> (Inl er, s)
                               | Inr _ \<Rightarrow> (Inr (root, elf_entry loaded, elf_brk loaded), s)) }) })"

definition fresh_tf :: "'d env \<Rightarrow> usize \<Rightarrow> TrapFrame" where
  "fresh_tf e ent =
     TrapFrame_zeroed\<lparr>sepc := ent, regs := (regs TrapFrame_zeroed)[2 := USER_STACK_TOP],
       kernel_sp := kernel_stack_top (ld e)\<rparr>"

definition spawn :: "'d env \<Rightarrow> u8 list \<Rightarrow> 'd kernel \<Rightarrow> (nat result \<times> 'd kernel) run" where
  "spawn e name s =
     (case load_program (blk e) (ROOT s) (images e) name of
        None \<Rightarrow> Some (Inl ''proc: no such program'', s)
      | Some prog \<Rightarrow>
          do { (r, s) \<leftarrow> build_address_space e prog s;
               Some (case r of
                 Inl er \<Rightarrow> (Inl er, s)
               | Inr (root, ent, br) \<Rightarrow>
                   (case position (\<lambda>x. x = None) (slots s) of
                      None \<Rightarrow> (Inl ''proc: process table full'', s)
                    | Some slot \<Rightarrow>
                        (let pd = next_pid s;
                             s = s\<lparr>next_pid := pd + 1\<rparr>;
                             s = set_tf slot (fresh_tf e ent) s
                         in (Inr pd, set_proc slot (Some \<lparr>pid = pd, pstate = Ready, parent = NO_PROC, root_pa = root,
                              exit_code = 0, wait_status_uva = 0, read_buf_uva = 0, read_len = 0, next_mmap = MMAP_BASE,
                              brk = br, pname = set_name (replicate 16 0) name, files = [], nce_affinity = 0\<rparr>) s)))) })"

definition fork_current :: "'d env \<Rightarrow> 'd kernel \<Rightarrow> (isize \<times> 'd kernel) run" where
  "fork_current e s =
     (let cur = CURRENT s in
      case position (\<lambda>x. x = None) (slots s) of
        None \<Rightarrow> Some (-11, s)
      | Some slot \<Rightarrow>
          (case proc_at s cur of
             None \<Rightarrow> None
           | Some p \<Rightarrow>
               (case new_user_root (kernel_root_pa e) s of
                  (None, s) \<Rightarrow> Some (-12, s)
                | (Some child_root, s) \<Rightarrow>
                    do { (r, s) \<leftarrow> clone_user_space (root_pa p) child_root s;
                         (case r of
                            Inl _ \<Rightarrow>
                              do { s \<leftarrow> free_user_space child_root s;
                                   s \<leftarrow> page_free child_root 1 s;
                                   Some (-12, s) }
                          | Inr _ \<Rightarrow>
                              (let pd = next_pid s;
                                   s = s\<lparr>next_pid := pd + 1\<rparr>;
                                   s = set_tf slot ((set_a0 0 (tf_at s cur))\<lparr>kernel_sp := kernel_stack_top (ld e)\<rparr>) s
                               in Some (word_of_nat pd, set_proc slot (Some \<lparr>pid = pd, pstate = Ready, parent = cur,
                                    root_pa = child_root, exit_code = 0, wait_status_uva = 0, read_buf_uva = 0,
                                    read_len = 0, next_mmap = next_mmap p, brk = brk p, pname = pname p,
                                    files = files p, nce_affinity = 0\<rparr>) s))) })))"

definition exec_current :: "'d env \<Rightarrow> u8 list \<Rightarrow> 'd kernel \<Rightarrow> (isize \<times> 'd kernel) run" where
  "exec_current e name s =
     (case load_program (blk e) (ROOT s) (images e) name of
        None \<Rightarrow> Some (-2, s)
      | Some prog \<Rightarrow>
          do { (r, s) \<leftarrow> build_address_space e prog s;
               (case r of
                  Inl _ \<Rightarrow> Some (-12, s)
                | Inr (new_root, ent, br) \<Rightarrow>
                    (let cur = CURRENT s in
                     case proc_at s cur of
                       None \<Rightarrow> None
                     | Some p \<Rightarrow>
                         do { s \<leftarrow> free_user_space (root_pa p) s;
                              s \<leftarrow> page_free (root_pa p) 1 s;
                              Some (0, set_tf cur (fresh_tf e ent)
                                (set_proc cur (Some (p\<lparr>root_pa := new_root, next_mmap := MMAP_BASE, brk := br,
                                   pname := set_name (pname p) name\<rparr>)) s)) })) })"

section \<open>Exit and wait\<close>

definition complete_wait :: "nat \<Rightarrow> nat \<Rightarrow> 'd kernel \<Rightarrow> 'd kernel run" where
  "complete_wait parent_slot child_slot s =
     (case proc_at s child_slot of
        None \<Rightarrow> None
      | Some c \<Rightarrow>
          (let s = upd_proc parent_slot (\<lambda>p. p\<lparr>pstate := Ready\<rparr>) s in
           case proc_at s parent_slot of
             None \<Rightarrow> None
           | Some p \<Rightarrow>
               do { s \<leftarrow> (if wait_status_uva p \<noteq> 0 then
                             do { (_, s) \<leftarrow> copy_out (root_pa p) (wait_status_uva p)
                                    (to_le_bytes 4 (push_bit 8 (exit_code c AND 0xff))) s;
                                  Some s }
                           else Some s);
                    s \<leftarrow> page_free (root_pa c) 1 (set_slot_a0 parent_slot (word_of_nat (pid c)) s);
                    Some (set_proc child_slot None s) }))"

definition reparent :: "nat \<Rightarrow> 'd kernel \<Rightarrow> 'd kernel" where
  "reparent cur s =
     (let init_slot = position (\<lambda>x. case x of None \<Rightarrow> False | Some p \<Rightarrow> pid p = 1) (slots s);
          new_parent = (case init_slot of None \<Rightarrow> NO_PROC | Some i \<Rightarrow> i)
      in s\<lparr>slots := map (map_option (\<lambda>p. if parent p = cur then p\<lparr>parent := new_parent\<rparr> else p)) (slots s)\<rparr>)"

definition exit_current :: "u32 \<Rightarrow> 'd kernel \<Rightarrow> 'd kernel run" where
  "exit_current code s =
     (let cur = CURRENT s in
      case proc_at s cur of
        None \<Rightarrow> None
      | Some p \<Rightarrow>
          if pid p = 1 then None
          else do { s \<leftarrow> free_user_space (root_pa p) s;
                    let s = upd_proc cur (\<lambda>q. q\<lparr>pstate := Zombie, exit_code := code\<rparr>) (reparent cur s);
                    s \<leftarrow> (if parent p \<noteq> NO_PROC then
                            (if parent p < length (slots s) then
                               (case proc_at s (parent p) of
                                  Some q \<Rightarrow> if pstate q = SleepChild then complete_wait (parent p) cur s else Some s
                                | None \<Rightarrow> Some s)
                             else None)
                          else Some s);
                    Some (schedule (s\<lparr>CURRENT := NO_PROC\<rparr>)) })"

text \<open>The scan of \<open>wait_current\<close>: whether there is a child, and the first zombie among them.\<close>

definition is_child :: "nat \<Rightarrow> Process option \<Rightarrow> bool" where
  "is_child cur x \<longleftrightarrow> (case x of None \<Rightarrow> False | Some p \<Rightarrow> parent p = cur)"

definition is_zombie_child :: "nat \<Rightarrow> Process option \<Rightarrow> bool" where
  "is_zombie_child cur x \<longleftrightarrow> (case x of None \<Rightarrow> False | Some p \<Rightarrow> parent p = cur \<and> pstate p = Zombie)"

definition wait_current :: "usize \<Rightarrow> 'd kernel \<Rightarrow> 'd kernel run" where
  "wait_current status_uva s =
     (let cur = CURRENT s;
          have_child = list_ex (is_child cur) (slots s);
          zombie = position (is_zombie_child cur) (slots s)
      in case proc_at s cur of
           None \<Rightarrow> None
         | Some p \<Rightarrow>
             do { s \<leftarrow> (case zombie of
                    Some child \<Rightarrow>
                      complete_wait cur child
                        (set_proc cur (Some (p\<lparr>wait_status_uva := status_uva, pstate := SleepChild\<rparr>)) s)
                  | None \<Rightarrow>
                      if have_child then
                        Some (set_proc cur (Some (p\<lparr>wait_status_uva := status_uva, pstate := SleepChild\<rparr>)) s)
                      else
                        Some (set_slot_a0 cur (-10)
                          (set_proc cur (Some (p\<lparr>wait_status_uva := status_uva, pstate := Ready\<rparr>)) s)));
                  Some (schedule (s\<lparr>CURRENT := NO_PROC\<rparr>)) })"

section \<open>The console reader\<close>

text \<open>Popping at most \<open>n\<close> bytes of console input.\<close>

fun read_console :: "nat \<Rightarrow> RxRing \<Rightarrow> u8 list \<times> RxRing" where
  "read_console 0 rx = ([], rx)"
| "read_console (Suc n) rx =
     (case read_byte rx of
        (None, rx) \<Rightarrow> ([], rx)
      | (Some b, rx) \<Rightarrow> (case read_console n rx of (bs, rx) \<Rightarrow> (b # bs, rx)))"

definition wake_console_reader :: "'d kernel \<Rightarrow> 'd kernel run" where
  "wake_console_reader s =
     (case position (\<lambda>x. case x of None \<Rightarrow> False | Some p \<Rightarrow> pstate p = SleepConsole) (slots s) of
        None \<Rightarrow> Some s
      | Some slot \<Rightarrow>
          (case proc_at s slot of
             None \<Rightarrow> None
           | Some p \<Rightarrow>
               (case read_console (min (unat (read_len p)) 128) (RX s) of
                  (tmp, rx) \<Rightarrow>
                    if tmp = [] then Some (s\<lparr>RX := rx\<rparr>)
                    else do { (r, s) \<leftarrow> copy_out (root_pa p) (read_buf_uva p) tmp (s\<lparr>RX := rx\<rparr>);
                              let s = (case r of Inr _ \<Rightarrow> set_slot_a0 slot (word_of_nat (length tmp)) s
                                       | Inl _ \<Rightarrow> set_slot_a0 slot (-14) s);
                              Some (upd_proc slot (\<lambda>q. q\<lparr>pstate := Ready\<rparr>) s) })))"

definition block_on_console :: "usize \<Rightarrow> usize \<Rightarrow> 'd kernel \<Rightarrow> 'd kernel run" where
  "block_on_console buf_uva len s =
     (case proc_at s (CURRENT s) of
        None \<Rightarrow> None
      | Some p \<Rightarrow>
          Some (schedule ((set_proc (CURRENT s)
            (Some (p\<lparr>pstate := SleepConsole, read_buf_uva := buf_uva, read_len := len\<rparr>)) s)\<lparr>CURRENT := NO_PROC\<rparr>)))"

text \<open>\<open>uart::handle_interrupt\<close>: drain the device, then wake the reader if a byte was kept.\<close>

definition handle_interrupt :: "'d env \<Rightarrow> 'd kernel \<Rightarrow> 'd kernel run" where
  "handle_interrupt e s =
     do { (got_input, rx, d) \<leftarrow> drain_rx (uart_bus e) False (RX s) (device s);
          let s = s\<lparr>RX := rx, device := d\<rparr>;
          if got_input then wake_console_reader s else Some s }"

section \<open>Queries\<close>

definition count_active :: "'d kernel \<Rightarrow> nat" where
  "count_active s = length (filter (\<lambda>x. x \<noteq> None) (slots s))"

definition listing_line :: "'d kernel \<Rightarrow> Process \<Rightarrow> u8 list run" where
  "listing_line s p =
     (let name_end = (case position (\<lambda>b. b = 0) (pname p) of None \<Rightarrow> length (pname p) | Some k \<Rightarrow> k);
          nm = take name_end (pname p);
          nm = (if utf8_valid nm then nm else str_bytes ''?'')
      in do { ppid \<leftarrow> (if parent p = NO_PROC then Some 0
                       else if parent p < length (slots s) then
                         Some (case slots s ! parent p of None \<Rightarrow> 0 | Some pp \<Rightarrow> pid pp)
                       else None);
              Some (str_bytes (pad_left 5 (fmt_dec (pid p)) @ '' '' @ pad_left 5 (fmt_dec ppid) @ ''  '' @
                      pad_right 7 (ProcState_as_str (pstate p)) @ '' '') @ nm @ [10]) })"

fun listing_lines :: "'d kernel \<Rightarrow> Process option list \<Rightarrow> u8 list run" where
  "listing_lines s [] = Some []"
| "listing_lines s (None # ps) = listing_lines s ps"
| "listing_lines s (Some p # ps) = do { l \<leftarrow> listing_line s p; ls \<leftarrow> listing_lines s ps; Some (l @ ls) }"

definition listing :: "'d kernel \<Rightarrow> u8 list run" where
  "listing s =
     do { ls \<leftarrow> listing_lines s (slots s); Some (str_bytes ''  PID  PPID  STATE   NAME'' @ [10] @ ls) }"

definition current_info :: "'d kernel \<Rightarrow> (usize \<times> nat) run" where
  "current_info s = map_option (\<lambda>p. (root_pa p, pid p)) (proc_at s (CURRENT s))"

text \<open>\<open>nce/affinity.rs\<close>: the hint of the current process.\<close>

definition affinity_set_current :: "usize \<Rightarrow> 'd kernel \<Rightarrow> (isize \<times> 'd kernel) run" where
  "affinity_set_current msk s =
     (if CURRENT s < length (slots s) then
        Some (case slots s ! CURRENT s of
          Some p \<Rightarrow> (0, set_proc (CURRENT s) (Some (p\<lparr>nce_affinity := msk\<rparr>)) s)
        | None \<Rightarrow> (-3, s))
      else None)"

definition affinity_get_current :: "'d kernel \<Rightarrow> usize run" where
  "affinity_get_current s =
     (if CURRENT s < length (slots s) then
        Some (case slots s ! CURRENT s of Some p \<Rightarrow> nce_affinity p | None \<Rightarrow> 0)
      else None)"

end
