(* ===== verification/Posix.thy ===== *)
theory Posix
  imports Process
begin

unbundle bit_operations_syntax

text \<open>
  \<open>kernel/syscall/posix.rs\<close>: the system calls. Each reads its arguments from the trap frame of the current
  process and ends in one of three ways: it returns a value, it never returns because the process is
  parked and the scheduler entered (the state is then the one after scheduling), or it halts the machine.
  A panic, and an output device that never becomes ready, are the outer \<open>None\<close>.
\<close>

datatype sysret = SysRet isize | Scheduled | Halted

definition EBADF :: isize where [simp]: "EBADF = -9"
definition ENOMEM :: isize where [simp]: "ENOMEM = -12"
definition EFAULT :: isize where [simp]: "EFAULT = -14"
definition EINVAL :: isize where [simp]: "EINVAL = -22"
definition ENOENT :: isize where [simp]: "ENOENT = -2"
definition ENOTDIR :: isize where [simp]: "ENOTDIR = -20"
definition EISDIR :: isize where [simp]: "EISDIR = -21"
definition O_DIRECTORY :: usize where [simp]: "O_DIRECTORY = 0x10000"

section \<open>Descriptors\<close>

text \<open>\<open>p.files.get(fd - 3).copied().flatten()\<close>, the position update, and the first free place of a descriptor table.\<close>

definition get_file :: "Process \<Rightarrow> nat \<Rightarrow> OpenFile option" where
  "get_file p fd = (if fd - 3 < length (files p) then files p ! (fd - 3) else None)"

definition set_pos :: "nat \<Rightarrow> (nat \<Rightarrow> nat) \<Rightarrow> Process \<Rightarrow> Process" where
  "set_pos fd f p =
     (case get_file p fd of
        Some h \<Rightarrow> p\<lparr>files := (files p)[fd - 3 := Some (h\<lparr>fd_pos := f (fd_pos h)\<rparr>)]\<rparr>
      | None \<Rightarrow> p)"

definition place_file :: "OpenFile \<Rightarrow> OpenFile option list \<Rightarrow> nat \<times> OpenFile option list" where
  "place_file file fs =
     (case position (\<lambda>f. f = None) fs of
        Some i \<Rightarrow> (i, fs[i := Some file])
      | None \<Rightarrow> (length fs, fs @ [Some file]))"

definition cur_tf :: "'d kernel \<Rightarrow> TrapFrame" where "cur_tf s = tf_at s (CURRENT s)"

definition socket_idx :: "usize \<Rightarrow> 'd kernel \<Rightarrow> nat option run" where
  "socket_idx fd s =
     (if unat fd < 3 then Some None
      else if CURRENT s < length (slots s) then
        Some (case slots s ! CURRENT s of
          None \<Rightarrow> None
        | Some p \<Rightarrow> (case get_file p (unat fd) of
            Some f \<Rightarrow> (case fd_kind f of FdSocket idx \<Rightarrow> Some idx | _ \<Rightarrow> None)
          | None \<Rightarrow> None))
      else None)"

definition install_fd :: "FdKind \<Rightarrow> 'd kernel \<Rightarrow> (isize \<times> 'd kernel) run" where
  "install_fd kind s =
     (if CURRENT s < length (slots s) then
        Some (case slots s ! CURRENT s of
          None \<Rightarrow> (EBADF, s)
        | Some p \<Rightarrow> (case place_file \<lparr>fd_kind = kind, fd_pos = 0\<rparr> (files p) of
            (idx, fs) \<Rightarrow> (word_of_nat (idx + 3), set_proc (CURRENT s) (Some (p\<lparr>files := fs\<rparr>)) s)))
      else None)"

section \<open>Console and device output\<close>

function write_loop :: "'d env \<Rightarrow> usize \<Rightarrow> usize \<Rightarrow> nat \<Rightarrow> nat \<Rightarrow> 'd kernel \<Rightarrow> (unit result \<times> 'd kernel) run" where
  "write_loop e root uva done len s =
     (if done < len then
        (let n = min 256 (len - done) in
         do { r \<leftarrow> copy_in root (uva + word_of_nat done) n s;
              (case r of
                 Inl er \<Rightarrow> Some (Inl er, s)
               | Inr bytes \<Rightarrow>
                   do { d \<leftarrow> write_bytes (uart_bus e) bytes (device s);
                        write_loop e root uva (done + n) len (s\<lparr>device := d\<rparr>) }) })
      else Some (Inr (), s))"
  by pat_completeness auto
termination
  by (relation "measure (\<lambda>(e, root, uva, done, len, s). len - done)") (auto simp: min_def)

declare write_loop.simps [simp del]

definition nce_write :: "'d env \<Rightarrow> usize \<Rightarrow> usize \<Rightarrow> usize \<Rightarrow> 'd kernel \<Rightarrow> (isize \<times> 'd kernel) run" where
  "nce_write e fd uva len s =
     (case proc_at s (CURRENT s) of
        None \<Rightarrow> None
      | Some p \<Rightarrow>
          (case get_file p (unat fd) of
             None \<Rightarrow> Some (EBADF, s)
           | Some f \<Rightarrow>
               (case fd_kind f of
                  FdNce slot \<Rightarrow>
                    (let n = min (unat len) 16 in
                     do { r \<leftarrow> copy_in (root_pa p) uva n s;
                          (case r of
                             Inl _ \<Rightarrow> Some (EFAULT, s)
                           | Inr text \<Rightarrow>
                               if \<not> utf8_valid text then Some (EINVAL, s)
                               else (case PowerState_parse text of
                                 None \<Rightarrow> Some (EINVAL, s)
                               | Some st \<Rightarrow>
                                   (case set_power (mmio_write32 e) slot st (NCES s) (device s) of
                                      (Inr _, ns, d) \<Rightarrow> Some (word_of_nat n, s\<lparr>NCES := ns, device := d\<rparr>)
                                    | (Inl _, ns, d) \<Rightarrow> Some (EINVAL, s\<lparr>NCES := ns, device := d\<rparr>)))) })
                | _ \<Rightarrow> Some (-30, s))))"

definition sys_write :: "'d env \<Rightarrow> 'd kernel \<Rightarrow> (sysret \<times> 'd kernel) run" where
  "sys_write e s =
     (let fd = tf_a0 (cur_tf s); uva = tf_a1 (cur_tf s); len = tf_a2 (cur_tf s) in
      if fd = 1 \<or> fd = 2 then
        do { (root, _) \<leftarrow> current_info s;
             (r, s) \<leftarrow> write_loop e root uva 0 (unat len) s;
             Some (case r of Inl _ \<Rightarrow> (SysRet EFAULT, s) | Inr _ \<Rightarrow> (SysRet len, s)) }
      else if 3 \<le> sint fd then
        do { (r, s) \<leftarrow> nce_write e fd uva len s; Some (SysRet r, s) }
      else Some (SysRet EBADF, s))"

section \<open>Reading\<close>

text \<open>The chunk loop of \<open>file_read\<close>: \<open>Inl\<close> an error code, \<open>Inr\<close> the bytes done.\<close>

function file_read_loop :: "'d env \<Rightarrow> usize \<Rightarrow> Inode \<Rightarrow> nat \<Rightarrow> usize \<Rightarrow> nat \<Rightarrow> nat \<Rightarrow> 'd kernel \<Rightarrow>
    ((isize + nat) \<times> 'd kernel) run" where
  "file_read_loop e root inode pos uva done len s =
     (if done < len then
        (let n = min 512 (len - done) in
         case fs_read_at (blk e) (ROOT s) inode (pos + done) n of
           Inl _ \<Rightarrow> Some (Inl (-5), s)
         | Inr bytes \<Rightarrow>
             if bytes = [] then Some (Inr done, s)
             else do { (r, s) \<leftarrow> copy_out root (uva + word_of_nat done) bytes s;
                       (case r of
                          Inl _ \<Rightarrow> Some (Inl EFAULT, s)
                        | Inr _ \<Rightarrow>
                            if length bytes < n then Some (Inr (done + length bytes), s)
                            else file_read_loop e root inode pos uva (done + length bytes) len s) })
      else Some (Inr done, s))"
  by pat_completeness auto
termination
  by (relation "measure (\<lambda>(e, root, inode, pos, uva, done, len, s). len - done)") auto

declare file_read_loop.simps [simp del]

definition nce_read :: "usize \<Rightarrow> nat \<Rightarrow> nat \<Rightarrow> usize \<Rightarrow> usize \<Rightarrow> Process \<Rightarrow> 'd kernel \<Rightarrow> (isize \<times> 'd kernel) run" where
  "nce_read fd slot pos uva len p s =
     (case describe (NCES s) slot of
        None \<Rightarrow> Some (EBADF, s)
      | Some text \<Rightarrow>
          (let bytes = str_bytes text in
           if pos \<ge> length bytes then Some (0, s)
           else (let n = min (unat len) (length bytes - pos) in
                 do { (r, s) \<leftarrow> copy_out (root_pa p) uva (take n (drop pos bytes)) s;
                      Some (case r of
                        Inl _ \<Rightarrow> (EFAULT, s)
                      | Inr _ \<Rightarrow> (word_of_nat n, upd_proc (CURRENT s) (set_pos (unat fd) (\<lambda>k. k + n)) s)) })))"

definition file_read :: "'d env \<Rightarrow> usize \<Rightarrow> usize \<Rightarrow> usize \<Rightarrow> 'd kernel \<Rightarrow> (isize \<times> 'd kernel) run" where
  "file_read e fd uva len s =
     (case proc_at s (CURRENT s) of
        None \<Rightarrow> None
      | Some p \<Rightarrow>
          (case get_file p (unat fd) of
             None \<Rightarrow> Some (EBADF, s)
           | Some f \<Rightarrow>
               (case fd_kind f of
                  FdSocket _ \<Rightarrow> Some (EBADF, s)
                | FdNce slot \<Rightarrow> nce_read fd slot (fd_pos f) uva len p s
                | FdFile ino \<Rightarrow>
                    (case fs_inode (blk e) (ROOT s) ino of
                       Inl _ \<Rightarrow> Some (EBADF, s)
                     | Inr inode \<Rightarrow>
                         if is_dir inode then Some (EISDIR, s)
                         else do { (r, s) \<leftarrow> file_read_loop e (root_pa p) inode (fd_pos f) uva 0 (unat len) s;
                                   Some (case r of
                                     Inl er \<Rightarrow> (er, s)
                                   | Inr done \<Rightarrow>
                                       (word_of_nat done, upd_proc (CURRENT s) (set_pos (unat fd) (\<lambda>k. k + done)) s)) }))))"

definition sys_read :: "'d env \<Rightarrow> 'd kernel \<Rightarrow> (sysret \<times> 'd kernel) run" where
  "sys_read e s =
     (let fd = tf_a0 (cur_tf s); uva = tf_a1 (cur_tf s); len = tf_a2 (cur_tf s) in
      if 3 \<le> sint fd then do { (r, s) \<leftarrow> file_read e fd uva len s; Some (SysRet r, s) }
      else if fd \<noteq> 0 then Some (SysRet EBADF, s)
      else if len = 0 then Some (SysRet 0, s)
      else (case read_console (min (unat len) 128) (RX s) of
        (tmp, rx) \<Rightarrow>
          if tmp = [] then do { s \<leftarrow> block_on_console uva len (s\<lparr>RX := rx\<rparr>); Some (Scheduled, s) }
          else do { (root, _) \<leftarrow> current_info s;
                    (r, s) \<leftarrow> copy_out root uva tmp (s\<lparr>RX := rx\<rparr>);
                    Some (case r of Inl _ \<Rightarrow> (SysRet EFAULT, s) | Inr _ \<Rightarrow> (SysRet (word_of_nat (length tmp)), s)) }))"

section \<open>Opening and closing\<close>

text \<open>\<open>str::strip_prefix\<close> and \<open>str::parse::<usize>\<close>.\<close>

definition strip_prefix :: "u8 list \<Rightarrow> u8 list \<Rightarrow> u8 list option" where
  "strip_prefix pre bs = (if take (length pre) bs = pre then Some (drop (length pre) bs) else None)"

definition parse_usize :: "u8 list \<Rightarrow> nat option" where
  "parse_usize bs =
     (let ds = (case bs of b # c # cs \<Rightarrow> if b = 43 then c # cs else bs | _ \<Rightarrow> bs);
          v = from_digits 10 (map (\<lambda>b. unat b - 48) ds)
      in if ds \<noteq> [] \<and> list_all (\<lambda>b. 48 \<le> b \<and> b \<le> 57) ds \<and> v < 2 ^ 64 then Some v else None)"

text \<open>What a path names: an error code, or what the descriptor will refer to.\<close>

definition open_kind :: "'d env \<Rightarrow> u8 list \<Rightarrow> usize \<Rightarrow> 'd kernel \<Rightarrow> isize + FdKind" where
  "open_kind e path flags s =
     (case strip_prefix (str_bytes ''/dev/nce'') path of
        Some rest \<Rightarrow>
          (case parse_usize rest of
             None \<Rightarrow> Inl ENOENT
           | Some slot \<Rightarrow>
               if slot \<ge> nce_count (NCES s) then Inl ENOENT
               else if flags AND O_DIRECTORY \<noteq> 0 then Inl ENOTDIR
               else Inr (FdNce slot))
      | None \<Rightarrow>
          (case fs_lookup (blk e) (ROOT s) path of
             Inr (Some inode) \<Rightarrow>
               if flags AND O_DIRECTORY \<noteq> 0 \<and> \<not> is_dir inode then Inl ENOTDIR
               else Inr (FdFile (i_ino inode))
           | Inr None \<Rightarrow> Inl ENOENT
           | Inl _ \<Rightarrow> Inl ENOENT))"

definition sys_openat :: "'d env \<Rightarrow> 'd kernel \<Rightarrow> (sysret \<times> 'd kernel) run" where
  "sys_openat e s =
     do { (root, _) \<leftarrow> current_info s;
          r \<leftarrow> copy_in_cstr root (tf_a1 (cur_tf s)) 128 s;
          (case r of
             Inl _ \<Rightarrow> Some (SysRet EFAULT, s)
           | Inr path \<Rightarrow>
               (case open_kind e path (tf_a2 (cur_tf s)) s of
                  Inl er \<Rightarrow> Some (SysRet er, s)
                | Inr kind \<Rightarrow>
                    (case proc_at s (CURRENT s) of
                       None \<Rightarrow> None
                     | Some p \<Rightarrow>
                         (case place_file \<lparr>fd_kind = kind, fd_pos = 0\<rparr> (files p) of
                            (idx, fs) \<Rightarrow> Some (SysRet (word_of_nat (idx + 3)),
                                           set_proc (CURRENT s) (Some (p\<lparr>files := fs\<rparr>)) s))))) }"

definition sys_close :: "'d kernel \<Rightarrow> (sysret \<times> 'd kernel) run" where
  "sys_close s =
     (let fd = tf_a0 (cur_tf s) in
      if sint fd < 3 then Some (SysRet 0, s)
      else (case proc_at s (CURRENT s) of
        None \<Rightarrow> None
      | Some p \<Rightarrow>
          (case get_file p (unat fd) of
             None \<Rightarrow> Some (SysRet EBADF, s)
           | Some f \<Rightarrow>
               (let s = (case fd_kind f of
                           FdSocket idx \<Rightarrow> s\<lparr>NET := (NET s)\<lparr>sockets := socket_free idx (sockets (NET s))\<rparr>\<rparr>
                         | _ \<Rightarrow> s)
                in Some (SysRet 0, set_proc (CURRENT s) (Some (p\<lparr>files := (files p)[unat fd - 3 := None]\<rparr>)) s)))))"

section \<open>Directory entries\<close>

definition reclen :: "u8 list \<Rightarrow> nat" where
  "reclen name = (19 + length name + 1 + 7) div 8 * 8"

definition dirent64 :: "u32 \<Rightarrow> nat \<Rightarrow> bool \<Rightarrow> u8 list \<Rightarrow> u8 list" where
  "dirent64 ino sq dir name =
     (let rec = to_le_bytes 8 (ucast ino :: u64) @ to_le_bytes 8 (word_of_nat sq :: u64) @
                to_le_bytes 2 (word_of_nat (reclen name) :: u16) @ [if dir then 4 else 8] @ name @ [0]
      in rec @ replicate (reclen name - length rec) 0)"

text \<open>The record loop: what it writes to \<open>out\<close> and how many entries it consumed.\<close>

fun pack_dirents :: "'d env \<Rightarrow> 'd kernel \<Rightarrow> nat \<Rightarrow> nat \<Rightarrow> nat \<Rightarrow> u8 list \<Rightarrow> (u8 list \<times> u32) list \<Rightarrow> u8 list \<times> nat" where
  "pack_dirents e s cap start consumed out [] = (out, consumed)"
| "pack_dirents e s cap start consumed out ((name, ino) # es) =
     (if length out + reclen name > cap then (out, consumed)
      else (let dir = (case fs_inode (blk e) (ROOT s) ino of Inr i \<Rightarrow> is_dir i | Inl _ \<Rightarrow> False)
            in pack_dirents e s cap start (consumed + 1)
                 (out @ dirent64 ino (start + consumed + 1) dir name) es))"

definition sys_getdents64 :: "'d env \<Rightarrow> 'd kernel \<Rightarrow> (sysret \<times> 'd kernel) run" where
  "sys_getdents64 e s =
     (let fd = tf_a0 (cur_tf s); uva = tf_a1 (cur_tf s); len = tf_a2 (cur_tf s) in
      if unat fd < 3 then Some (SysRet EBADF, s)
      else (case proc_at s (CURRENT s) of
        None \<Rightarrow> None
      | Some p \<Rightarrow>
          (case get_file p (unat fd) of
             None \<Rightarrow> Some (SysRet EBADF, s)
           | Some f \<Rightarrow>
               (case fd_kind f of
                  FdFile ino \<Rightarrow>
                    (case fs_inode (blk e) (ROOT s) ino of
                       Inl _ \<Rightarrow> Some (SysRet EBADF, s)
                     | Inr dir \<Rightarrow>
                         if \<not> is_dir dir then Some (SysRet ENOTDIR, s)
                         else (case fs_readdir (blk e) (ROOT s) dir of
                           Inl _ \<Rightarrow> Some (SysRet (-5), s)
                         | Inr es \<Rightarrow>
                             (case pack_dirents e s (min 512 (unat len)) (fd_pos f) 0 [] (take 32 (drop (fd_pos f) es)) of
                                (out, consumed) \<Rightarrow>
                                  do { (r, s) \<leftarrow> (if out \<noteq> [] then copy_out (root_pa p) uva out s else Some (Inr (), s));
                                       Some (case r of
                                         Inl _ \<Rightarrow> (SysRet EFAULT, s)
                                       | Inr _ \<Rightarrow> (SysRet (word_of_nat (length out)),
                                           upd_proc (CURRENT s) (set_pos (unat fd) (\<lambda>_. fd_pos f + consumed)) s)) })))
                | _ \<Rightarrow> Some (SysRet ENOTDIR, s)))))"

section \<open>Processes\<close>

definition sys_exit :: "'d kernel \<Rightarrow> (sysret \<times> 'd kernel) run" where
  "sys_exit s = do { s \<leftarrow> exit_current (ucast (tf_a0 (cur_tf s))) s; Some (Scheduled, s) }"

definition sys_getpid :: "'d kernel \<Rightarrow> (sysret \<times> 'd kernel) run" where
  "sys_getpid s = do { (_, pd) \<leftarrow> current_info s; Some (SysRet (word_of_nat pd), s) }"

definition sys_fork :: "'d env \<Rightarrow> 'd kernel \<Rightarrow> (sysret \<times> 'd kernel) run" where
  "sys_fork e s = do { (r, s) \<leftarrow> fork_current e s; Some (SysRet r, s) }"

definition sys_execve :: "'d env \<Rightarrow> 'd kernel \<Rightarrow> (sysret \<times> 'd kernel) run" where
  "sys_execve e s =
     do { (root, _) \<leftarrow> current_info s;
          r \<leftarrow> copy_in_cstr root (tf_a0 (cur_tf s)) 128 s;
          (case r of
             Inl _ \<Rightarrow> Some (SysRet EFAULT, s)
           | Inr name \<Rightarrow> do { (r, s) \<leftarrow> exec_current e name s; Some (SysRet r, s) }) }"

definition sys_wait4 :: "'d kernel \<Rightarrow> (sysret \<times> 'd kernel) run" where
  "sys_wait4 s = do { s \<leftarrow> wait_current (tf_a1 (cur_tf s)) s; Some (Scheduled, s) }"

section \<open>Memory\<close>

definition div_ceil_pages :: "usize \<Rightarrow> nat" where
  "div_ceil_pages len = (unat len + 4095) div 4096"

fun mmap_loop :: "usize \<Rightarrow> usize \<Rightarrow> nat \<Rightarrow> nat \<Rightarrow> 'a machine_scheme \<Rightarrow> (bool \<times> 'a machine_scheme) run" where
  "mmap_loop root va i 0 s = Some (True, s)"
| "mmap_loop root va i (Suc n) s =
     (case page_alloc 1 s of
        (None, s) \<Rightarrow> Some (False, s)
      | (Some frame, s) \<Rightarrow>
          do { (r, s) \<leftarrow> PageTable_map root (va + word_of_nat i * PAGE_SIZE) frame (PTE_U OR PTE_R OR PTE_W) s;
               (case r of Inl _ \<Rightarrow> Some (False, s) | Inr _ \<Rightarrow> mmap_loop root va (i + 1) n s) })"

definition sys_mmap :: "'d kernel \<Rightarrow> (sysret \<times> 'd kernel) run" where
  "sys_mmap s =
     (let len = tf_a1 (cur_tf s) in
      if len = 0 then Some (SysRet EINVAL, s)
      else (let pages = div_ceil_pages len in
        case proc_at s (CURRENT s) of
          None \<Rightarrow> None
        | Some p \<Rightarrow>
            (let va = next_mmap p;
                 s = set_proc (CURRENT s) (Some (p\<lparr>next_mmap := va + word_of_nat pages * PAGE_SIZE\<rparr>)) s
             in do { (ok, s) \<leftarrow> mmap_loop (root_pa p) va 0 pages s;
                     Some (SysRet (if ok then va else ENOMEM), s) })))"

fun munmap_loop :: "usize \<Rightarrow> usize \<Rightarrow> nat \<Rightarrow> nat \<Rightarrow> 'a machine_scheme \<Rightarrow> 'a machine_scheme run" where
  "munmap_loop root va i 0 s = Some s"
| "munmap_loop root va i (Suc n) s =
     do { (r, s) \<leftarrow> PageTable_unmap root (va + word_of_nat i * PAGE_SIZE) s;
          s \<leftarrow> (case r of Some pa \<Rightarrow> page_free pa 1 s | None \<Rightarrow> Some s);
          munmap_loop root va (i + 1) n s }"

definition sys_munmap :: "'d kernel \<Rightarrow> (sysret \<times> 'd kernel) run" where
  "sys_munmap s =
     (let va = tf_a0 (cur_tf s); len = tf_a1 (cur_tf s) in
      if unat va mod unat PAGE_SIZE \<noteq> 0 \<or> len = 0 then Some (SysRet EINVAL, s)
      else do { (root, _) \<leftarrow> current_info s;
                s \<leftarrow> munmap_loop root va 0 (div_ceil_pages len) s;
                Some (SysRet 0, s) })"

section \<open>Affinity\<close>

definition sys_sched_setaffinity :: "'d kernel \<Rightarrow> (sysret \<times> 'd kernel) run" where
  "sys_sched_setaffinity s =
     (if tf_a0 (cur_tf s) \<noteq> 0 then Some (SysRet (-3), s)
      else (let len = min (unat (tf_a1 (cur_tf s))) 8 in
        do { (root, _) \<leftarrow> current_info s;
             r \<leftarrow> copy_in root (tf_a2 (cur_tf s)) len s;
             (case r of
                Inl _ \<Rightarrow> Some (SysRet EFAULT, s)
              | Inr bytes \<Rightarrow>
                  do { (r, s) \<leftarrow> affinity_set_current (from_le_bytes (bytes @ replicate (8 - len) 0)) s;
                       Some (SysRet r, s) }) }))"

definition sys_sched_getaffinity :: "'d kernel \<Rightarrow> (sysret \<times> 'd kernel) run" where
  "sys_sched_getaffinity s =
     (if tf_a0 (cur_tf s) \<noteq> 0 then Some (SysRet (-3), s)
      else do { msk \<leftarrow> affinity_get_current s;
                (root, _) \<leftarrow> current_info s;
                let len = min (unat (tf_a1 (cur_tf s))) 8;
                (r, s) \<leftarrow> copy_out root (tf_a2 (cur_tf s)) (take len (to_le_bytes 8 msk)) s;
                Some (case r of Inl _ \<Rightarrow> (SysRet EFAULT, s) | Inr _ \<Rightarrow> (SysRet (word_of_nat len), s)) })"

section \<open>Sockets\<close>

definition AF_INET :: usize where [simp]: "AF_INET = 2"
definition SOCK_DGRAM :: usize where [simp]: "SOCK_DGRAM = 2"
definition EPROTONOSUPPORT :: isize where [simp]: "EPROTONOSUPPORT = -93"
definition EADDRINUSE :: isize where [simp]: "EADDRINUSE = -98"
definition ENETUNREACH :: isize where [simp]: "ENETUNREACH = -101"
definition EAGAIN :: isize where [simp]: "EAGAIN = -11"
definition EMSGSIZE :: isize where [simp]: "EMSGSIZE = -90"
definition ENFILE :: isize where [simp]: "ENFILE = -23"

definition sys_socket :: "'d kernel \<Rightarrow> (sysret \<times> 'd kernel) run" where
  "sys_socket s =
     (if tf_a0 (cur_tf s) \<noteq> AF_INET \<or> tf_a1 (cur_tf s) AND 0xff \<noteq> SOCK_DGRAM then Some (SysRet EPROTONOSUPPORT, s)
      else (case socket_alloc (sockets (NET s)) of
        (None, t) \<Rightarrow> Some (SysRet ENFILE, s\<lparr>NET := (NET s)\<lparr>sockets := t\<rparr>\<rparr>)
      | (Some idx, t) \<Rightarrow>
          do { (r, s) \<leftarrow> install_fd (FdSocket idx) (s\<lparr>NET := (NET s)\<lparr>sockets := t\<rparr>\<rparr>); Some (SysRet r, s) }))"

definition sys_bind :: "'d kernel \<Rightarrow> (sysret \<times> 'd kernel) run" where
  "sys_bind s =
     do { i \<leftarrow> socket_idx (tf_a0 (cur_tf s)) s;
          (case i of
             None \<Rightarrow> Some (SysRet EBADF, s)
           | Some idx \<Rightarrow>
               if unat (tf_a2 (cur_tf s)) < 8 then Some (SysRet EINVAL, s)
               else do { (root, _) \<leftarrow> current_info s;
                         r \<leftarrow> copy_in root (tf_a1 (cur_tf s)) 8 s;
                         Some (case r of
                           Inl _ \<Rightarrow> (SysRet EFAULT, s)
                         | Inr sa \<Rightarrow>
                             (case socket_bind idx (be16 sa 2) (sockets (NET s)) of
                                (Some _, t) \<Rightarrow> (SysRet 0, s\<lparr>NET := (NET s)\<lparr>sockets := t\<rparr>\<rparr>)
                              | (None, t) \<Rightarrow> (SysRet EADDRINUSE, s\<lparr>NET := (NET s)\<lparr>sockets := t\<rparr>\<rparr>))) }) }"

text \<open>The source port of a send: the bound one, or an ephemeral one bound on the way.\<close>

definition auto_bind :: "nat \<Rightarrow> SocketTable \<Rightarrow> u16 option \<times> SocketTable" where
  "auto_bind idx t =
     (let src_port = local_port idx t in if src_port = 0 then socket_bind idx 0 t else (Some src_port, t))"

definition sys_sendto :: "'d env \<Rightarrow> 'd kernel \<Rightarrow> (sysret \<times> 'd kernel) run" where
  "sys_sendto e s =
     do { i \<leftarrow> socket_idx (tf_a0 (cur_tf s)) s;
          (case i of
             None \<Rightarrow> Some (SysRet EBADF, s)
           | Some idx \<Rightarrow>
               (let len = unat (tf_a2 (cur_tf s)) in
                if unat (tf_a5 (cur_tf s)) < 8 then Some (SysRet EINVAL, s)
                else if len > 1472 then Some (SysRet EMSGSIZE, s)
                else do { (root, _) \<leftarrow> current_info s;
                          r \<leftarrow> copy_in root (tf_a4 (cur_tf s)) 8 s;
                          (case r of
                             Inl _ \<Rightarrow> Some (SysRet EFAULT, s)
                           | Inr sa \<Rightarrow>
                               (case auto_bind idx (sockets (NET s)) of
                                  (None, t) \<Rightarrow> Some (SysRet EADDRINUSE, s\<lparr>NET := (NET s)\<lparr>sockets := t\<rparr>\<rparr>)
                                | (Some src_port, t) \<Rightarrow>
                                    (let s = s\<lparr>NET := (NET s)\<lparr>sockets := t\<rparr>\<rparr> in
                                     do { r \<leftarrow> copy_in root (tf_a1 (cur_tf s)) len s;
                                          Some (case r of
                                            Inl _ \<Rightarrow> (SysRet EFAULT, s)
                                          | Inr payload \<Rightarrow>
                                              (case send_udp (net_send e) (slice sa 4 8) (be16 sa 2) src_port payload (NET s) (device s) of
                                                 (Inr _, n, d) \<Rightarrow> (SysRet (word_of_nat len), s\<lparr>NET := n, device := d\<rparr>)
                                               | (Inl _, n, d) \<Rightarrow> (SysRet ENETUNREACH, s\<lparr>NET := n, device := d\<rparr>))) }))) }))  }"

definition kernel_net_poll :: "'d env \<Rightarrow> 'd kernel \<Rightarrow> 'd kernel" where
  "kernel_net_poll e s =
     (case net_poll_rx e (device s) of
        (fs, d) \<Rightarrow> (case net_poll (net_send e) fs (NET s) d of (n, d) \<Rightarrow> s\<lparr>NET := n, device := d\<rparr>))"

text \<open>The bounded busy-poll of \<open>recvfrom\<close>; the argument is the number of turns left.\<close>

fun recv_loop :: "'d env \<Rightarrow> nat \<Rightarrow> nat \<Rightarrow> 'd kernel \<Rightarrow> Datagram option \<times> 'd kernel" where
  "recv_loop e idx 0 s = (None, s)"
| "recv_loop e idx (Suc n) s =
     (let s = kernel_net_poll e s in
      case socket_recv idx (sockets (NET s)) of
        (Some d, t) \<Rightarrow> (Some d, s\<lparr>NET := (NET s)\<lparr>sockets := t\<rparr>\<rparr>)
      | (None, t) \<Rightarrow> recv_loop e idx n (s\<lparr>NET := (NET s)\<lparr>sockets := t\<rparr>\<rparr>))"

definition sockaddr_in :: "Datagram \<Rightarrow> u8 list" where
  "sockaddr_in d = [2, 0] @ to_be_bytes 2 (dg_src_port d) @ dg_src_ip d @ replicate 8 0"

definition sys_recvfrom :: "'d env \<Rightarrow> 'd kernel \<Rightarrow> (sysret \<times> 'd kernel) run" where
  "sys_recvfrom e s =
     do { i \<leftarrow> socket_idx (tf_a0 (cur_tf s)) s;
          (case i of
             None \<Rightarrow> Some (SysRet EBADF, s)
           | Some idx \<Rightarrow>
               (let buf = tf_a1 (cur_tf s); len = unat (tf_a2 (cur_tf s)); src_addr = tf_a4 (cur_tf s) in
                case recv_loop e idx 4000 s of
                  (None, s) \<Rightarrow> Some (SysRet EAGAIN, s)
                | (Some d, s) \<Rightarrow>
                    do { (root, _) \<leftarrow> current_info s;
                         let n = min len (length (dg_data d));
                         (r, s) \<leftarrow> copy_out root buf (take n (dg_data d)) s;
                         (case r of
                            Inl _ \<Rightarrow> Some (SysRet EFAULT, s)
                          | Inr _ \<Rightarrow>
                              if src_addr \<noteq> 0 then
                                do { (_, s) \<leftarrow> copy_out root src_addr (sockaddr_in d) s; Some (SysRet (word_of_nat n), s) }
                              else Some (SysRet (word_of_nat n), s)) })) }"

section \<open>System information and power\<close>

definition sys_sysinfo :: "'d kernel \<Rightarrow> (sysret \<times> 'd kernel) run" where
  "sys_sysinfo s =
     (let buf = to_le_bytes 8 (word_of_nat (unat (TICKS s) div 100) :: u64) @ to_le_bytes 8 (RAM_SIZE :: u64) @
                to_le_bytes 8 (word_of_nat (free_frames (frames s)) * PAGE_SIZE :: u64) @
                to_le_bytes 8 (word_of_nat (count_active s) :: u64)
      in do { (root, _) \<leftarrow> current_info s;
              (r, s) \<leftarrow> copy_out root (tf_a0 (cur_tf s)) buf s;
              Some (case r of Inl _ \<Rightarrow> (SysRet EFAULT, s) | Inr _ \<Rightarrow> (SysRet 0, s)) })"

definition FINISHER_PASS :: u32 where [simp]: "FINISHER_PASS = 0x5555"
definition FINISHER_RESET :: u32 where [simp]: "FINISHER_RESET = 0x7777"

definition poweroff :: "'d env \<Rightarrow> 'd kernel \<Rightarrow> 'd kernel" where
  "poweroff e s = s\<lparr>device := mmio_write32 e TEST_BASE FINISHER_PASS (device s)\<rparr>"

definition reboot :: "'d env \<Rightarrow> 'd kernel \<Rightarrow> 'd kernel" where
  "reboot e s = s\<lparr>device := mmio_write32 e TEST_BASE FINISHER_RESET (device s)\<rparr>"

definition sys_reboot :: "'d env \<Rightarrow> 'd kernel \<Rightarrow> (sysret \<times> 'd kernel) run" where
  "sys_reboot e s = Some (Halted, if tf_a0 (cur_tf s) = 0 then poweroff e s else reboot e s)"

definition sys_proclist :: "'d kernel \<Rightarrow> (sysret \<times> 'd kernel) run" where
  "sys_proclist s =
     do { bytes \<leftarrow> listing s;
          let n = min (unat (tf_a1 (cur_tf s))) (length bytes);
          (root, _) \<leftarrow> current_info s;
          (r, s) \<leftarrow> copy_out root (tf_a0 (cur_tf s)) (take n bytes) s;
          Some (case r of Inl _ \<Rightarrow> (SysRet EFAULT, s) | Inr _ \<Rightarrow> (SysRet (word_of_nat n), s)) }"

end
