(* ===== verification/Mem_Frame.thy ===== *)
theory Mem_Frame
  imports Posix
begin

text \<open>
  The memory operations act on the machine part of the state only: whatever they do, and whether or not
  the page tables are well formed, they leave the statics of the other modules alone. \<open>same_statics\<close> is
  the relation, \<open>statics\<close> the collection of the facts for the single operations.
\<close>

named_theorems statics \<open>the memory operations keep the rest of the kernel state\<close>

definition same_statics :: "'a machine_scheme \<Rightarrow> 'a machine_scheme \<Rightarrow> bool" where
  "same_statics s s' \<longleftrightarrow> machine.more s' = machine.more s"

lemma same_statics_refl [simp, intro]: "same_statics s s"
  by (simp add: same_statics_def)

lemma same_statics_trans [trans]: "same_statics s t \<Longrightarrow> same_statics t u \<Longrightarrow> same_statics s u"
  by (simp add: same_statics_def)

lemma same_statics_phys [simp]: "same_statics s (t\<lparr>phys := m\<rparr>) = same_statics s t"
  "same_statics (s\<lparr>phys := m\<rparr>) t = same_statics s t"
  and same_statics_frames [simp]: "same_statics s (t\<lparr>frames := a\<rparr>) = same_statics s t"
  by (simp_all add: same_statics_def)

text \<open>What equality of the statics means for a kernel state.\<close>

lemma same_statics_kernel:
  assumes "same_statics (s :: 'd kernel) s'"
  shows "slots s' = slots s" "next_pid s' = next_pid s" "last_run s' = last_run s" "TRAPFRAMES s' = TRAPFRAMES s"
    "CURRENT s' = CURRENT s" "RX s' = RX s" "NET s' = NET s" "NCES s' = NCES s" "ROOT s' = ROOT s" "device s' = device s"
    "proc_at s' = proc_at s" "tf_at s' = tf_at s" "TICKS s' = TICKS s"
proof -
  show base: "slots s' = slots s" "TRAPFRAMES s' = TRAPFRAMES s"
    and "next_pid s' = next_pid s" "last_run s' = last_run s" "CURRENT s' = CURRENT s" "RX s' = RX s"
    "NET s' = NET s" "NCES s' = NCES s" "ROOT s' = ROOT s" "device s' = device s" "TICKS s' = TICKS s"
    using assms by (cases s; cases s'; simp add: same_statics_def)+
  then show "proc_at s' = proc_at s" "tf_at s' = tf_at s" by (simp_all add: proc_at_def tf_at_def fun_eq_iff)
qed

lemma page_alloc_statics [statics]: "page_alloc n s = (r, s') \<Longrightarrow> same_statics s s'"
  by (simp add: same_statics_def page_alloc_more)

lemma page_free_statics [statics]: "page_free p n s = Some s' \<Longrightarrow> same_statics s s'"
  by (auto simp: page_free_def bind_eq_Some_conv)

lemma walk_levels_statics: "walk_levels ls t va c s = Some (r, s') \<Longrightarrow> same_statics s s'"
proof (induction ls arbitrary: t s)
  case (Cons l ls)
  let ?slot = "entry t (vpn va l)"
  obtain q s1 where a: "PageTable_alloc s = (q, s1)" by (metis surj_pair)
  then have s1: "same_statics s s1" by (auto simp: PageTable_alloc_def intro: statics)
  consider (link) nxt where "q = Some nxt" "walk_levels ls (pte_pa (pa_pte nxt OR PTE_V)) va c
      (s1\<lparr>phys := store64 (phys s1) ?slot (pa_pte nxt OR PTE_V)\<rparr>) = Some (r, s')"
    | (stop) "s' = s \<or> s' = s1" | (down) "walk_levels ls (pte_pa (load64 (phys s) ?slot)) va c s = Some (r, s')"
    using Cons.prems a by (cases q) (auto simp: Let_def split: if_splits)
  then show ?case
  proof cases
    case link
    from Cons.IH [OF link(2)] s1 show ?thesis by (simp add: same_statics_def)
  qed (use s1 Cons.IH in auto)
qed simp

lemma walk_statics [statics]: "PageTable_walk root va c s = Some (r, s') \<Longrightarrow> same_statics s s'"
  unfolding PageTable_walk_def by (rule walk_levels_statics)

lemma map_statics [statics]: "PageTable_map root va pa fl s = Some (r, s') \<Longrightarrow> same_statics s s'"
  by (auto simp: PageTable_map_def bind_eq_Some_conv split: option.splits if_splits dest!: walk_statics)

lemma unmap_statics [statics]: "PageTable_unmap root va s = Some (r, s') \<Longrightarrow> same_statics s s'"
  by (auto simp: PageTable_unmap_def bind_eq_Some_conv Let_def split: option.splits if_splits dest!: walk_statics)

lemma new_user_root_statics [statics]: "new_user_root k s = (r, s') \<Longrightarrow> same_statics s s'"
  by (auto simp: new_user_root_def PageTable_alloc_def split: prod.splits option.splits dest!: page_alloc_statics)

lemma free_leaves_statics [statics]: "free_leaves l is s = Some s' \<Longrightarrow> same_statics s s'"
proof (induction "is" arbitrary: s)
  case (Cons i "is")
  then show ?case by (auto simp: Let_def bind_eq_Some_conv split: if_splits intro: same_statics_trans statics)
qed simp

lemma free_tables_statics [statics]: "free_tables l is s = Some s' \<Longrightarrow> same_statics s s'"
proof (induction "is" arbitrary: s)
  case (Cons i "is")
  then show ?case
    by (auto simp: Let_def bind_eq_Some_conv split: if_splits intro: same_statics_trans [OF free_leaves_statics]
        same_statics_trans [OF page_free_statics])
qed simp

lemma free_user_space_statics [statics]: "free_user_space root s = Some s' \<Longrightarrow> same_statics s s'"
  by (auto simp: free_user_space_def Let_def bind_eq_Some_conv split: if_splits
      dest!: free_tables_statics page_free_statics intro: same_statics_trans)

lemma clone_page_statics [statics]: "clone_page d i j e s = Some (r, s') \<Longrightarrow> same_statics s s'"
  by (auto simp: clone_page_def Let_def split: prod.splits option.splits dest!: page_alloc_statics map_statics
      intro: same_statics_trans)

text \<open>A call whose error stops the loop and whose success continues it.\<close>

lemma step_statics:
  assumes "do { (r, s) \<leftarrow> m; (case r of Inl e \<Rightarrow> Some (Inl e, s) | Inr x \<Rightarrow> f x s) } = Some (q, s')"
    and "\<And>r s1. m = Some (r, s1) \<Longrightarrow> same_statics s s1" and "\<And>x s1. f x s1 = Some (q, s') \<Longrightarrow> same_statics s1 s'"
  shows "same_statics s s'"
proof -
  obtain r s1 where m: "m = Some (r, s1)" and k: "(case r of Inl e \<Rightarrow> Some (Inl e, s1) | Inr x \<Rightarrow> f x s1) = Some (q, s')"
    using assms(1) by (auto simp: bind_eq_Some_conv)
  show ?thesis using assms(2) [OF m] assms(3) k by (cases r) (auto intro: same_statics_trans)
qed

lemma clone_leaves_statics [statics]: "clone_leaves d i l is s = Some (r, s') \<Longrightarrow> same_statics s s'"
proof (induction "is" arbitrary: s)
  case (Cons j "is")
  show ?case
  proof (cases "pte_valid (pte (phys s) l j)")
    case True
    with Cons.prems show ?thesis
      by (intro step_statics [of "clone_page d i j (pte (phys s) l j) s" "\<lambda>_. clone_leaves d i l is" r s' s])
        (auto simp: Let_def intro: statics Cons.IH)
  qed (use Cons in simp)
qed simp

lemma clone_tables_statics [statics]: "clone_tables d l is s = Some (r, s') \<Longrightarrow> same_statics s s'"
proof (induction "is" arbitrary: s)
  case (Cons j "is")
  show ?case
  proof (cases "pte_valid (pte (phys s) l j)")
    case True
    with Cons.prems show ?thesis
      by (intro step_statics [of "clone_leaves d j (pte_pa (pte (phys s) l j)) [0..<512] s" "\<lambda>_. clone_tables d l is" r s' s])
        (auto simp: Let_def intro: statics Cons.IH)
  qed (use Cons in simp)
qed simp

lemma clone_user_space_statics [statics]: "clone_user_space a b s = Some (r, s') \<Longrightarrow> same_statics s s'"
  by (auto simp: clone_user_space_def Let_def split: if_splits intro: statics)

lemma copy_out_loop_statics [statics]: "copy_out_loop root va src s = Some (r, s') \<Longrightarrow> same_statics s s'"
proof (induction "length src" arbitrary: va src s rule: less_induct)
  case less
  show ?case
  proof (cases "src = []")
    case False
    let ?n = "chunk va (length src)"
    obtain t where "virt_to_phys root va s = Some t"
      and t: "(case t of None \<Rightarrow> Some (Inl ''uaccess: unmapped user address'', s)
        | Some pa \<Rightarrow> copy_out_loop root (va + word_of_nat ?n) (drop ?n src)
            (s\<lparr>phys := store_bytes (phys s) pa (take ?n src)\<rparr>)) = Some (r, s')"
      using less.prems False by (subst (asm) copy_out_loop.simps) (auto simp: bind_eq_Some_conv Let_def)
    have "length (drop ?n src) < length src" using False chunk_pos [of "length src" va] by simp
    note IH = less.hyps [OF this]
    show ?thesis
    proof (cases t)
      case (Some pa)
      with t have "copy_out_loop root (va + word_of_nat ?n) (drop ?n src)
          (s\<lparr>phys := store_bytes (phys s) pa (take ?n src)\<rparr>) = Some (r, s')" by simp
      from IH [OF this] show ?thesis by simp
    qed (use t in simp)
  qed (use less.prems in \<open>simp add: copy_out_loop.simps\<close>)
qed

lemma copy_out_statics [statics]: "copy_out root va src s = Some (r, s') \<Longrightarrow> same_statics s s'"
  by (auto simp: copy_out_def split: sum.splits intro: statics)

lemma map_stack_statics [statics]: "map_stack root is s = Some (r, s') \<Longrightarrow> same_statics s s'"
proof (induction "is" arbitrary: s)
  case (Cons i "is")
  obtain q s1 where a: "page_alloc 1 s = (q, s1)" by (metis surj_pair)
  then have s1: "same_statics s s1" by (rule statics)
  show ?case
  proof (cases q)
    case (Some frame)
    have "same_statics s1 s'"
      using Cons.prems a Some by (intro step_statics [of _ "\<lambda>_. map_stack root is" r s' s1]) (auto intro: statics Cons.IH)
    with s1 show ?thesis by (rule same_statics_trans)
  qed (use Cons.prems a s1 in auto)
qed simp


text \<open>The loader: a \<open>partial_function\<close>, so by fixpoint induction.\<close>

lemma load_pages_statics_raw: "load_pages prog img root sg va end_va s = Some y \<Longrightarrow> same_statics s (snd y)"
proof (induct rule: load_pages.raw_induct [rotated, consumes 1, case_names step])
  case (step f prog img root sg va end_va s y)
  obtain q s1 where a: "page_alloc 1 s = (q, s1)" by (metis surj_pair)
  then have s1: "same_statics s s1" by (rule statics)
  show ?case
  proof (cases "va < end_va \<and> q \<noteq> None")
    case True
    then obtain frame where q: "q = Some frame" by blast
    define off where "off = va - seg_vaddr sg"
    define s2 where "s2 = (if off < seg_filesz sg then s1\<lparr>phys := store_bytes (phys s1) frame (image_bytes prog img (phys s1)
      (seg_offset sg + off) (min (unat PAGE_SIZE) (unat (seg_filesz sg - off))))\<rparr> else s1)"
    have s2: "same_statics s s2" using s1 by (simp add: s2_def)
    have "do { (r, s) \<leftarrow> PageTable_map root va frame (segment_flags (seg_flags sg)) s2;
        (case r of Inl e \<Rightarrow> Some (Inl e, s) | Inr x \<Rightarrow> f prog img root sg (va + PAGE_SIZE) end_va s) } = Some (fst y, snd y)"
      using step(2) True a q by (cases "va - seg_vaddr sg < seg_filesz sg") (simp_all add: s2_def off_def Let_def)
    then have "same_statics s2 (snd y)"
    proof (rule step_statics)
      fix x s3 assume "f prog img root sg (va + PAGE_SIZE) end_va s3 = Some (fst y, snd y)"
      from step(1) [OF this] show "same_statics s3 (snd y)" by simp
    qed (rule map_statics)
    with s2 show ?thesis by (rule same_statics_trans)
  next
    case False
    with step(2) a s1 show ?thesis by (auto split: if_splits)
  qed
qed

lemma load_pages_statics [statics]: "load_pages prog img root sg va end_va s = Some (r, s') \<Longrightarrow> same_statics s s'"
  using load_pages_statics_raw by force

lemma load_headers_statics [statics]: "load_headers prog img root phs br s = Some (r, s') \<Longrightarrow> same_statics s s'"
proof (induction phs arbitrary: br s)
  case (Cons ph phs)
  show ?case
  proof (cases "unat (ph + 56) > length prog")
    case False
    with Cons.prems obtain h where h: "read_segment prog ph = Some h" by (auto simp: bind_eq_Some_conv)
    show ?thesis
    proof (cases h)
      case (Some sg)
      show ?thesis
      proof (cases "check_segment prog sg")
        case (Inr u)
        with Cons.prems False h Some show ?thesis
          by (intro step_statics [of _ "\<lambda>_. load_headers prog img root phs (max br (segment_end sg))" r s' s])
            (auto intro: statics Cons.IH)
      qed (use Cons.prems False h Some in auto)
    qed (use Cons False h in auto)
  qed (use Cons.prems in auto)
qed simp

text \<open>A last call whose result is only repackaged.\<close>

lemma repackaged:
  "(case a of Inl e \<Rightarrow> (f e, b) | Inr x \<Rightarrow> if P x then (g x, b) else (h x, b)) = (r, s') \<Longrightarrow> s' = b"
  by (auto split: sum.splits if_splits)

lemma elf_load_statics [statics]: "elf_load prog img root s = Some (r, s') \<Longrightarrow> same_statics s s'"
  unfolding elf_load_def
  by (auto simp: bind_eq_Some_conv split: if_splits dest!: repackaged intro: statics)

lemma build_address_space_statics [statics]: "build_address_space e prog s = Some (r, s') \<Longrightarrow> same_statics s s'"
proof -
  assume b: "build_address_space e prog s = Some (r, s')"
  obtain q s1 where a: "new_user_root (kernel_root_pa e) s = (q, s1)" by (metis surj_pair)
  then have s1: "same_statics s s1" by (rule statics)
  show ?thesis
  proof (cases q)
    case (Some root)
    have "same_statics s1 s'"
      using b a Some
      by (intro step_statics [of "elf_load prog (image_ptr e) root s1"
            "\<lambda>loaded s. do { (r, s) \<leftarrow> map_stack root [0..<USER_STACK_PAGES] s;
               Some (case r of Inl er \<Rightarrow> (Inl er, s) | Inr _ \<Rightarrow> (Inr (root, elf_entry loaded, elf_brk loaded), s)) }" r s' s1])
        (auto simp: build_address_space_def bind_eq_Some_conv split: sum.splits intro: statics)
    with s1 show ?thesis by (rule same_statics_trans)
  qed (use b a s1 in \<open>auto simp: build_address_space_def\<close>)
qed

text \<open>The loops of \<open>mmap\<close> and \<open>munmap\<close>.\<close>

lemma mmap_loop_statics [statics]: "mmap_loop root va i n s = Some (ok, s') \<Longrightarrow> same_statics s s'"
proof (induction n arbitrary: i s)
  case (Suc n)
  obtain q s1 where a: "page_alloc 1 s = (q, s1)" by (metis surj_pair)
  show ?case
  proof (cases q)
    case (Some frame)
    then obtain r s2 where m: "PageTable_map root (va + word_of_nat i * PAGE_SIZE) frame (PTE_U OR PTE_R OR PTE_W) s1 = Some (r, s2)"
      and rest: "(case r of Inl _ \<Rightarrow> Some (False, s2) | Inr _ \<Rightarrow> mmap_loop root va (i + 1) n s2) = Some (ok, s')"
      using Suc.prems a by (auto simp: bind_eq_Some_conv)
    have "same_statics s2 s'" using rest Suc.IH [of "i + 1" s2] by (cases r) auto
    then show ?thesis using page_alloc_statics [OF a] map_statics [OF m] by (blast intro: same_statics_trans)
  qed (use Suc.prems a page_alloc_statics [OF a] in simp)
qed simp

lemma munmap_loop_statics [statics]: "munmap_loop root va i n s = Some s' \<Longrightarrow> same_statics s s'"
proof (induction n arbitrary: i s)
  case (Suc n)
  then obtain r s1 s2 where u: "PageTable_unmap root (va + word_of_nat i * PAGE_SIZE) s = Some (r, s1)"
    and f: "(case r of Some pa \<Rightarrow> page_free pa 1 s1 | None \<Rightarrow> Some s1) = Some s2"
    and rest: "munmap_loop root va (i + 1) n s2 = Some s'"
    by (auto simp: bind_eq_Some_conv)
  have "same_statics s1 s2" using f by (cases r) (auto intro: statics)
  then show ?case using unmap_statics [OF u] Suc.IH [OF rest] by (blast intro: same_statics_trans)
qed simp

text \<open>The loops of \<open>write\<close> and \<open>read\<close>: the first changes the device only.\<close>

lemma write_loop_device: "write_loop e root uva d len s = Some (r, s') \<Longrightarrow> \<exists>dv. s' = s\<lparr>device := dv\<rparr>"
proof (induction e root uva d len s arbitrary: r s' rule: write_loop.induct)
  case (1 e root uva d len s)
  have same: "s' = s \<Longrightarrow> \<exists>dv. s' = s\<lparr>device := dv\<rparr>" by (rule exI [of _ "device s"]) simp
  show ?case
  proof (cases "d < len")
    case True
    then obtain q where c: "copy_in root (uva + word_of_nat d) (min 256 (len - d)) s = Some q"
      using 1(2) by (subst (asm) write_loop.simps) (auto simp: Let_def bind_eq_Some_conv)
    show ?thesis
    proof (cases q)
      case (Inr bytes)
      then obtain dv where "write_bytes (uart_bus e) bytes (device s) = Some dv"
        "write_loop e root uva (d + min 256 (len - d)) len (s\<lparr>device := dv\<rparr>) = Some (r, s')"
        using True c 1(2) by (subst (asm) (2) write_loop.simps) (auto simp: Let_def bind_eq_Some_conv)
      then obtain dv' where "s' = s\<lparr>device := dv\<rparr>\<lparr>device := dv'\<rparr>" using 1(1) [OF True refl c Inr] by blast
      then show ?thesis by (intro exI [of _ dv']) simp
    qed (rule same, use True c 1(2) in \<open>subst (asm) write_loop.simps; simp\<close>)
  qed (rule same, use 1(2) in \<open>subst (asm) write_loop.simps; simp\<close>)
qed

lemma file_read_loop_statics [statics]: "file_read_loop e root ino pos uva d len s = Some (r, s') \<Longrightarrow> same_statics s s'"
proof (induction e root ino pos uva d len s arbitrary: r s' rule: file_read_loop.induct)
  case (1 e root ino pos uva d len s)
  let ?n = "min 512 (len - d)"
  show ?case
  proof (cases "d < len \<and> (\<exists>bytes. fs_read_at (blk e) (ROOT s) ino (pos + d) ?n = Inr bytes \<and> bytes \<noteq> [])")
    case True
    then obtain bytes where d: "d < len" and b: "fs_read_at (blk e) (ROOT s) ino (pos + d) ?n = Inr bytes" "bytes \<noteq> []" by blast
    then obtain q s1 where c: "copy_out root (uva + word_of_nat d) bytes s = Some (q, s1)"
      and k: "(case q of Inl _ \<Rightarrow> Some (Inl EFAULT, s1)
        | Inr _ \<Rightarrow> if length bytes < ?n then Some (Inr (d + length bytes), s1)
                  else file_read_loop e root ino pos uva (d + length bytes) len s1) = Some (r, s')"
      using 1(2) by (subst (asm) file_read_loop.simps) (auto simp: Let_def bind_eq_Some_conv)
    have s1: "same_statics s s1" using c by (rule statics)
    show ?thesis
    proof (cases q)
      case (Inr u)
      show ?thesis
      proof (cases "length bytes < ?n")
        case False
        then have "file_read_loop e root ino pos uva (d + length bytes) len s1 = Some (r, s')" using k Inr by (auto split: if_splits)
        then show ?thesis using 1(1) [OF d refl b c refl Inr False] s1 same_statics_trans by blast
      qed (use k Inr s1 in auto)
    qed (use k s1 in auto)
  qed (use 1(2) in \<open>subst (asm) file_read_loop.simps; auto simp: Let_def split: sum.splits if_splits\<close>)
qed

end
