(* ===== verification/Trap.thy ===== *)
theory Trap
  imports Posix
begin

unbundle bit_operations_syntax

text \<open>
  \<open>kernel/trap/\<close> and \<open>kernel/syscall/mod.rs\<close>: the interrupt controller and the timer, the dispatch of
  system calls, and the handlers of traps from user mode and from the idle loop. \<open>scause\<close> is an argument:
  it is what the hardware reports. The register saving of the assembly trampolines is the trap-frame
  table of the state.
\<close>

section \<open>Interrupt controller and timer\<close>

definition IRQ_UART0 :: u32 where [simp]: "IRQ_UART0 = 10"
definition IRQ_VIRTIO0 :: u32 where [simp]: "IRQ_VIRTIO0 = 1"
definition CONTEXT_HART0_S :: usize where [simp]: "CONTEXT_HART0_S = 1"

definition priority_reg :: "u32 \<Rightarrow> usize" where "priority_reg irq = PLIC_BASE + 4 * ucast irq"
definition enable_reg :: "usize \<Rightarrow> u32 \<Rightarrow> usize" where
  "enable_reg ctx irq = PLIC_BASE + 0x2000 + ctx * 0x80 + (ucast irq div 32) * 4"
definition threshold_reg :: "usize \<Rightarrow> usize" where "threshold_reg ctx = PLIC_BASE + 0x200000 + ctx * 0x1000"
definition claim_reg :: "usize \<Rightarrow> usize" where "claim_reg ctx = PLIC_BASE + 0x200004 + ctx * 0x1000"

definition plic_enable :: "'d env \<Rightarrow> u32 \<Rightarrow> 'd \<Rightarrow> 'd" where
  "plic_enable e irq d =
     (let d = mmio_write32 e (priority_reg irq) 1 d; reg = enable_reg CONTEXT_HART0_S irq in
      case mmio_read32 e reg d of (v, d) \<Rightarrow> mmio_write32 e reg (v OR push_bit (unat (irq mod 32)) 1) d)"

definition plic_init :: "'d env \<Rightarrow> 'd \<Rightarrow> 'd" where
  "plic_init e d = mmio_write32 e (threshold_reg CONTEXT_HART0_S) 0 d"

definition plic_claim :: "'d env \<Rightarrow> 'd \<Rightarrow> u32 \<times> 'd" where
  "plic_claim e d = mmio_read32 e (claim_reg CONTEXT_HART0_S) d"

definition plic_complete :: "'d env \<Rightarrow> u32 \<Rightarrow> 'd \<Rightarrow> 'd" where
  "plic_complete e irq d = mmio_write32 e (claim_reg CONTEXT_HART0_S) irq d"

definition CLINT_MTIME :: usize where [simp]: "CLINT_MTIME = CLINT_BASE + 0xbff8"
definition TIMEBASE_FREQ :: u64 where [simp]: "TIMEBASE_FREQ = 10000000"
definition TICK_INTERVAL :: u64 where [simp]: "TICK_INTERVAL = 100000"

definition clint_set_next :: "'d env \<Rightarrow> u64 \<Rightarrow> 'd kernel \<Rightarrow> 'd kernel" where
  "clint_set_next e interval s =
     (case mmio_read64 e CLINT_MTIME (device s) of (t, d) \<Rightarrow> s\<lparr>device := d, CSR_STIMECMP := t + interval\<rparr>)"

definition timer_tick :: "'d env \<Rightarrow> 'd kernel \<Rightarrow> 'd kernel" where
  "timer_tick e s = clint_set_next e TICK_INTERVAL (s\<lparr>TICKS := TICKS s + 1\<rparr>)"

definition external_interrupt :: "'d env \<Rightarrow> 'd kernel \<Rightarrow> 'd kernel run" where
  "external_interrupt e s =
     (case plic_claim e (device s) of
        (irq, d) \<Rightarrow>
          (let s = s\<lparr>device := d\<rparr> in
           if irq = 0 then Some s
           else if irq = IRQ_UART0 then
             do { s \<leftarrow> handle_interrupt e s; Some (s\<lparr>device := plic_complete e irq (device s)\<rparr>) }
           else Some (s\<lparr>device := plic_complete e irq (device s)\<rparr>)))"

text \<open>The name under which a fault is reported before the process is killed.\<close>

definition exception_name :: "usize \<Rightarrow> string" where
  "exception_name scause =
     (if scause = 0 then ''instruction address misaligned''
      else if scause = 1 then ''instruction access fault''
      else if scause = 2 then ''illegal instruction''
      else if scause = 3 then ''breakpoint''
      else if scause = 5 then ''load access fault''
      else if scause = 7 then ''store access fault''
      else if scause = 8 then ''ecall from U-mode''
      else if scause = 9 then ''ecall from S-mode''
      else if scause = 12 then ''instruction page fault''
      else if scause = 13 then ''load page fault''
      else if scause = 15 then ''store page fault''
      else ''unknown'')"

section \<open>System-call dispatch\<close>

definition SYS_OPENAT :: usize where [simp]: "SYS_OPENAT = 56"
definition SYS_CLOSE :: usize where [simp]: "SYS_CLOSE = 57"
definition SYS_GETDENTS64 :: usize where [simp]: "SYS_GETDENTS64 = 61"
definition SYS_READ :: usize where [simp]: "SYS_READ = 63"
definition SYS_WRITE :: usize where [simp]: "SYS_WRITE = 64"
definition SYS_EXIT :: usize where [simp]: "SYS_EXIT = 93"
definition SYS_SCHED_SETAFFINITY :: usize where [simp]: "SYS_SCHED_SETAFFINITY = 122"
definition SYS_SCHED_GETAFFINITY :: usize where [simp]: "SYS_SCHED_GETAFFINITY = 123"
definition SYS_REBOOT :: usize where [simp]: "SYS_REBOOT = 142"
definition SYS_GETPID :: usize where [simp]: "SYS_GETPID = 172"
definition SYS_SYSINFO :: usize where [simp]: "SYS_SYSINFO = 179"
definition SYS_SOCKET :: usize where [simp]: "SYS_SOCKET = 198"
definition SYS_BIND :: usize where [simp]: "SYS_BIND = 200"
definition SYS_SENDTO :: usize where [simp]: "SYS_SENDTO = 206"
definition SYS_RECVFROM :: usize where [simp]: "SYS_RECVFROM = 207"
definition SYS_MUNMAP :: usize where [simp]: "SYS_MUNMAP = 215"
definition SYS_CLONE :: usize where [simp]: "SYS_CLONE = 220"
definition SYS_EXECVE :: usize where [simp]: "SYS_EXECVE = 221"
definition SYS_MMAP :: usize where [simp]: "SYS_MMAP = 222"
definition SYS_WAIT4 :: usize where [simp]: "SYS_WAIT4 = 260"
definition SYS_PROCLIST :: usize where [simp]: "SYS_PROCLIST = 500"
definition ENOSYS :: isize where [simp]: "ENOSYS = -38"

text \<open>The match of \<open>dispatch\<close> on the call number.\<close>

definition syscall :: "'d env \<Rightarrow> usize \<Rightarrow> 'd kernel \<Rightarrow> (sysret \<times> 'd kernel) run" where
  "syscall e nr s =
     (if nr = SYS_WRITE then sys_write e s
      else if nr = SYS_READ then sys_read e s
      else if nr = SYS_OPENAT then sys_openat e s
      else if nr = SYS_CLOSE then sys_close s
      else if nr = SYS_GETDENTS64 then sys_getdents64 e s
      else if nr = SYS_SCHED_SETAFFINITY then sys_sched_setaffinity s
      else if nr = SYS_SCHED_GETAFFINITY then sys_sched_getaffinity s
      else if nr = SYS_EXIT then sys_exit s
      else if nr = SYS_GETPID then sys_getpid s
      else if nr = SYS_CLONE then sys_fork e s
      else if nr = SYS_EXECVE then sys_execve e s
      else if nr = SYS_WAIT4 then sys_wait4 s
      else if nr = SYS_MMAP then sys_mmap s
      else if nr = SYS_MUNMAP then sys_munmap s
      else if nr = SYS_SYSINFO then sys_sysinfo s
      else if nr = SYS_REBOOT then sys_reboot e s
      else if nr = SYS_PROCLIST then sys_proclist s
      else if nr = SYS_SOCKET then sys_socket s
      else if nr = SYS_BIND then sys_bind s
      else if nr = SYS_SENDTO then sys_sendto e s
      else if nr = SYS_RECVFROM then sys_recvfrom e s
      else Some (SysRet ENOSYS, s))"

definition dispatch :: "'d env \<Rightarrow> 'd kernel \<Rightarrow> (sysret \<times> 'd kernel) run" where
  "dispatch e s =
     do { (r, s) \<leftarrow> syscall e (tf_a7 (cur_tf s)) s;
          (case r of
             SysRet v \<Rightarrow> do { s \<leftarrow> resume_current (set_slot_a0 (CURRENT s) v s); Some (SysRet v, s) }
           | _ \<Rightarrow> Some (r, s)) }"

section \<open>Traps\<close>

definition SCAUSE_INTERRUPT :: usize where [simp]: "SCAUSE_INTERRUPT = 0x8000000000000000"
definition IRQ_S_SOFT :: usize where [simp]: "IRQ_S_SOFT = 1"
definition IRQ_S_TIMER :: usize where [simp]: "IRQ_S_TIMER = 5"
definition IRQ_S_EXTERNAL :: usize where [simp]: "IRQ_S_EXTERNAL = 9"

text \<open>A trap taken in the kernel, that is in the idle loop: an exception is a panic.\<close>

definition trap_handler :: "'d env \<Rightarrow> usize \<Rightarrow> 'd kernel \<Rightarrow> 'd kernel run" where
  "trap_handler e scause s =
     (if scause AND SCAUSE_INTERRUPT \<noteq> 0 then
        (let c = scause AND NOT SCAUSE_INTERRUPT in
         if c = IRQ_S_TIMER then Some (timer_tick e s)
         else if c = IRQ_S_EXTERNAL then external_interrupt e s
         else Some s)
      else None)"

definition usertrap :: "'d env \<Rightarrow> usize \<Rightarrow> 'd kernel \<Rightarrow> (sysret \<times> 'd kernel) run" where
  "usertrap e scause s =
     (if scause AND SCAUSE_INTERRUPT \<noteq> 0 then
        (let c = scause AND NOT SCAUSE_INTERRUPT in
         if c = IRQ_S_TIMER then do { s \<leftarrow> yield_current (timer_tick e s); Some (Scheduled, s) }
         else if c = IRQ_S_EXTERNAL then
           do { s \<leftarrow> external_interrupt e s; s \<leftarrow> resume_current s; Some (Scheduled, s) }
         else do { s \<leftarrow> resume_current s; Some (Scheduled, s) })
      else if scause = 8 then
        (let tf = cur_tf s in dispatch e (set_tf (CURRENT s) (tf\<lparr>sepc := sepc tf + 4\<rparr>) s))
      else do { _ \<leftarrow> current_info s; s \<leftarrow> exit_current (-1) s; Some (Scheduled, s) })"

text \<open>The idle loop of \<open>schedule\<close>: an interrupt is handled and the choice is made again.\<close>

definition idle_interrupt :: "'d env \<Rightarrow> usize \<Rightarrow> 'd kernel \<Rightarrow> 'd kernel run" where
  "idle_interrupt e scause s = do { s \<leftarrow> trap_handler e scause s; Some (schedule s) }"

end
