(* ===== verification/Proc_Refine.thy ===== *)
theory Proc_Refine
  imports Proc_Spec Mem_Frame Trap
begin

text \<open>
  The kernel implements the process table of \<open>Proc_Spec\<close>. \<open>absp\<close> reads the abstract table off a kernel
  state; every operation reached from the trap handlers either leaves it alone or changes it by steps of
  the abstract machine, so the invariant of that machine holds after every trap.
\<close>

section \<open>The abstraction\<close>

definition pentry_of :: "Process \<Rightarrow> pentry" where
  "pentry_of p = \<lparr>epid = pid p, estate = pstate p, eparent = parent p\<rparr>"

definition absp :: "'d kernel \<Rightarrow> ptable" where
  "absp s = \<lparr>T = (\<lambda>i. map_option pentry_of (proc_at s i)), nxt = next_pid s, cur = CURRENT s\<rparr>"

text \<open>The table with its length and the scheduler's position, so that one equation says that nothing changed.\<close>

definition ptab :: "'d kernel \<Rightarrow> ptable \<times> nat \<times> nat" where
  "ptab s = (absp s, length (slots s), last_run s)"

lemma pentry_of_simps [simp]: "epid (pentry_of p) = pid p" "estate (pentry_of p) = pstate p" "eparent (pentry_of p) = parent p"
  by (simp_all add: pentry_of_def)

lemma absp_simps [simp]: "T (absp s) i = map_option pentry_of (proc_at s i)" "nxt (absp s) = next_pid s" "cur (absp s) = CURRENT s"
  by (simp_all add: absp_def)

lemma ptab_eq: "ptab t = ptab s \<longleftrightarrow> absp t = absp s \<and> length (slots t) = length (slots s) \<and> last_run t = last_run s"
  by (simp add: ptab_def)

lemma proc_at_more [simp]:
  "proc_at (s\<lparr>RX := a1\<rparr>) = proc_at s" "proc_at (s\<lparr>NET := a2\<rparr>) = proc_at s" "proc_at (s\<lparr>NCES := a3\<rparr>) = proc_at s"
  "proc_at (s\<lparr>TICKS := a4\<rparr>) = proc_at s" "proc_at (s\<lparr>CSR_STIMECMP := a5\<rparr>) = proc_at s" "proc_at (s\<lparr>CSR_SATP := a6\<rparr>) = proc_at s"
  "proc_at (s\<lparr>device := a7\<rparr>) = proc_at s" "proc_at (s\<lparr>last_run := a8\<rparr>) = proc_at s" "proc_at (s\<lparr>CURRENT := a9\<rparr>) = proc_at s"
  "proc_at (s\<lparr>next_pid := a10\<rparr>) = proc_at s" "proc_at (set_tf k tf s) = proc_at s" "proc_at (set_slot_a0 k v s) = proc_at s"
  by (simp_all add: proc_at_def fun_eq_iff set_tf_def set_slot_a0_def)

lemma absp_more [simp]:
  "absp (s\<lparr>RX := a1\<rparr>) = absp s" "absp (s\<lparr>NET := a2\<rparr>) = absp s" "absp (s\<lparr>NCES := a3\<rparr>) = absp s"
  "absp (s\<lparr>TICKS := a4\<rparr>) = absp s" "absp (s\<lparr>CSR_STIMECMP := a5\<rparr>) = absp s" "absp (s\<lparr>CSR_SATP := a6\<rparr>) = absp s"
  "absp (s\<lparr>device := a7\<rparr>) = absp s" "absp (s\<lparr>last_run := a8\<rparr>) = absp s" "absp (set_tf k tf s) = absp s"
  "absp (set_slot_a0 k v s) = absp s" "absp (s\<lparr>CURRENT := c\<rparr>) = (absp s)\<lparr>cur := c\<rparr>" "absp (s\<lparr>next_pid := n\<rparr>) = (absp s)\<lparr>nxt := n\<rparr>"
  by (simp_all add: absp_def) (simp_all add: set_tf_def set_slot_a0_def)

lemma slots_more [simp]:
  "slots (set_tf k tf s) = slots s" "slots (set_slot_a0 k v s) = slots s"
  "CURRENT (set_tf k tf s) = CURRENT s" "CURRENT (set_slot_a0 k v s) = CURRENT s"
  "length (slots (set_proc i x s)) = length (slots s)" "length (slots (upd_proc i f s)) = length (slots s)"
  "CURRENT (set_proc i x s) = CURRENT s" "CURRENT (upd_proc i f s) = CURRENT s"
  "next_pid (set_proc i x s) = next_pid s" "next_pid (upd_proc i f s) = next_pid s"
  "next_pid (set_tf k tf s) = next_pid s" "next_pid (set_slot_a0 k v s) = next_pid s"
  "last_run (set_proc i x s) = last_run s" "last_run (upd_proc i f s) = last_run s"
  "last_run (set_tf k tf s) = last_run s" "last_run (set_slot_a0 k v s) = last_run s"
  by (simp_all add: set_tf_def set_slot_a0_def set_proc_def upd_proc_def)

lemma ptab_more [simp]:
  "ptab (s\<lparr>RX := a1\<rparr>) = ptab s" "ptab (s\<lparr>NET := a2\<rparr>) = ptab s" "ptab (s\<lparr>NCES := a3\<rparr>) = ptab s"
  "ptab (s\<lparr>TICKS := a4\<rparr>) = ptab s" "ptab (s\<lparr>CSR_STIMECMP := a5\<rparr>) = ptab s" "ptab (s\<lparr>CSR_SATP := a6\<rparr>) = ptab s"
  "ptab (s\<lparr>device := a7\<rparr>) = ptab s" "ptab (set_tf k tf s) = ptab s"
  "ptab (set_slot_a0 k v s) = ptab s"
  by (simp_all add: ptab_def)

lemma proc_at_set_proc: "i < length (slots s) \<Longrightarrow> proc_at (set_proc i x s) = (proc_at s)(i := x)"
  by (simp add: proc_at_def set_proc_def fun_eq_iff)

lemma proc_at_Some: "proc_at s i = Some p \<Longrightarrow> i < length (slots s)"
  by (simp add: proc_at_def split: if_splits)

lemma absp_set_proc:
  assumes "i < length (slots s)"
  shows "absp (set_proc i x s) = (absp s)\<lparr>T := (T (absp s))(i := map_option pentry_of x)\<rparr>"
  using assms by (simp add: absp_def proc_at_set_proc fun_eq_iff)

lemma proc_at_upd_proc: "proc_at (upd_proc i f s) = (\<lambda>j. if j = i then map_option f (proc_at s i) else proc_at s j)"
  by (cases "i < length (slots s)") (auto simp: upd_proc_def proc_at_set_proc fun_eq_iff proc_at_def set_proc_def)

lemma absp_set_same:
  assumes "proc_at s i = Some p" "pentry_of q = pentry_of p"
  shows "absp (set_proc i (Some q) s) = absp s"
  using assms proc_at_Some [OF assms(1)] by (auto simp: absp_def proc_at_set_proc fun_eq_iff)

lemma ptab_set_same:
  assumes "proc_at s i = Some p" "pentry_of q = pentry_of p"
  shows "ptab (set_proc i (Some q) s) = ptab s"
  using absp_set_same [OF assms] by (simp add: ptab_def)

lemma ptab_upd_same:
  assumes "\<And>p. pentry_of (f p) = pentry_of p"
  shows "ptab (upd_proc i f s) = ptab s"
  using assms by (simp add: ptab_def absp_def proc_at_upd_proc fun_eq_iff option.map_comp comp_def)

lemma ptab_statics: "same_statics s s' \<Longrightarrow> ptab s' = ptab s"
  by (simp add: ptab_def absp_def same_statics_kernel)

lemmas mem_ptab = statics [THEN ptab_statics]

section \<open>Operations that leave the table alone\<close>

named_theorems quiet \<open>operations that do not change the process table\<close>

declare mem_ptab [quiet]

lemma write_loop_quiet [quiet]: "write_loop e root uva d len s = Some (r, s') \<Longrightarrow> ptab s' = ptab s"
  by (auto dest!: write_loop_device)

lemma set_pos_entry [simp]: "pentry_of (set_pos fd f p) = pentry_of p"
  by (auto simp: set_pos_def pentry_of_def split: option.splits)

lemma ptab_set_pos [simp]: "ptab (upd_proc i (set_pos fd f) s) = ptab s"
  by (simp add: ptab_upd_same)

lemma current_info_Some: "current_info s = Some x \<longleftrightarrow> (\<exists>p. proc_at s (CURRENT s) = Some p \<and> x = (root_pa p, pid p))"
  by (auto simp: current_info_def)

text \<open>To show that an operation keeps the table it is enough to look at what its parts return.\<close>

lemma keepsI: "m = Some (r, s') \<Longrightarrow> when_returns (\<lambda>(r, s'). ptab s' = ptab s) m \<Longrightarrow> ptab s' = ptab s"
  by (auto dest: when_returnsD)

lemma tailI: "(\<And>r t. m = Some (r, t) \<Longrightarrow> ptab t = ptab s) \<Longrightarrow> when_returns (\<lambda>(r, t). ptab t = ptab s) m"
  by (auto simp: when_returns_def)

lemma ptab_set_files [simp]: "proc_at s i = Some p \<Longrightarrow> ptab (set_proc i (Some (p\<lparr>files := fs\<rparr>)) s) = ptab s"
  by (simp add: ptab_set_same pentry_of_def)

lemma install_fd_quiet [quiet]: "install_fd k s = Some (r, s') \<Longrightarrow> ptab s' = ptab s"
  by (auto simp: install_fd_def proc_at_def split: if_splits option.splits prod.splits)

lemma nce_write_quiet [quiet]: "nce_write e fd uva len s = Some (r, s') \<Longrightarrow> ptab s' = ptab s"
  by (erule keepsI) (auto simp: nce_write_def Let_def split: option.split FdKind.split sum.split if_split prod.split)

lemma nce_read_quiet [quiet]: "nce_read fd slot pos uva len p s = Some (r, s') \<Longrightarrow> ptab s' = ptab s"
  by (erule keepsI) (auto simp: nce_read_def Let_def split: option.split sum.split if_split prod.split dest!: quiet)

lemma file_read_quiet [quiet]: "file_read e fd uva len s = Some (r, s') \<Longrightarrow> ptab s' = ptab s"
  by (erule keepsI) (auto simp: file_read_def Let_def split: option.split FdKind.split sum.split if_split prod.split
      intro!: tailI dest!: quiet)

lemma sys_write_quiet [quiet]: "sys_write e s = Some (r, s') \<Longrightarrow> ptab s' = ptab s"
  by (erule keepsI) (auto simp: sys_write_def Let_def split: sum.split if_split prod.split dest!: quiet)

lemma sys_openat_quiet [quiet]: "sys_openat e s = Some (r, s') \<Longrightarrow> ptab s' = ptab s"
  by (erule keepsI) (auto simp: sys_openat_def split: option.split sum.split prod.split)

lemma sys_close_quiet [quiet]: "sys_close s = Some (r, s') \<Longrightarrow> ptab s' = ptab s"
  by (erule keepsI) (auto simp: sys_close_def Let_def split: option.split if_split FdKind.split)

lemma sys_getdents64_quiet [quiet]: "sys_getdents64 e s = Some (r, s') \<Longrightarrow> ptab s' = ptab s"
  by (erule keepsI)
     (auto simp: sys_getdents64_def Let_def split: option.split FdKind.split sum.split if_split prod.split dest!: quiet)

lemma sys_getpid_quiet [quiet]: "sys_getpid s = Some (r, s') \<Longrightarrow> ptab s' = ptab s"
  by (erule keepsI) (auto simp: sys_getpid_def)

lemma ptab_set_same_after:
  assumes "proc_at s i = Some p" "ptab s = ptab u" "ptab t = ptab u" "pentry_of q = pentry_of p"
  shows "ptab (set_proc i (Some q) t) = ptab u"
proof -
  have "map_option pentry_of (proc_at t i) = Some (pentry_of p)"
    using assms(1-3) absp_simps(1) [of t i] absp_simps(1) [of s i] by (auto simp: ptab_def)
  then obtain p' where "proc_at t i = Some p'" "pentry_of p' = pentry_of p" by auto
  then show ?thesis using assms by (simp add: ptab_set_same)
qed

lemma exec_current_quiet [quiet]: "exec_current e name s = Some (r, s') \<Longrightarrow> ptab s' = ptab s"
  by (erule keepsI)
     (auto simp: exec_current_def Let_def pentry_of_def split: option.split sum.split prod.split dest!: quiet
      elim!: ptab_set_same_after)

lemma sys_execve_quiet [quiet]: "sys_execve e s = Some (r, s') \<Longrightarrow> ptab s' = ptab s"
  by (erule keepsI) (auto simp: sys_execve_def split: sum.split dest!: quiet)

lemma sys_mmap_quiet [quiet]: "sys_mmap s = Some (r, s') \<Longrightarrow> ptab s' = ptab s"
  apply (erule keepsI)
  apply (auto simp: sys_mmap_def Let_def ptab_set_same pentry_of_def split: option.split sum.split prod.split dest!: quiet)
  done

lemma sys_munmap_quiet [quiet]: "sys_munmap s = Some (r, s') \<Longrightarrow> ptab s' = ptab s"
  by (erule keepsI) (auto simp: sys_munmap_def Let_def dest!: quiet)

lemma affinity_set_quiet [quiet]: "affinity_set_current m s = Some (r, s') \<Longrightarrow> ptab s' = ptab s"
  by (auto simp: affinity_set_current_def ptab_set_same pentry_of_def proc_at_def split: if_splits option.splits)

lemma sys_affinity_quiet [quiet]:
  "sys_sched_setaffinity s = Some (r, s') \<Longrightarrow> ptab s' = ptab s"
  "sys_sched_getaffinity s = Some (r, s') \<Longrightarrow> ptab s' = ptab s"
  by (erule keepsI; auto simp: sys_sched_setaffinity_def sys_sched_getaffinity_def Let_def split: sum.split prod.split dest!: quiet)+

lemma sys_socket_quiet [quiet]: "sys_socket s = Some (r, s') \<Longrightarrow> ptab s' = ptab s"
  by (erule keepsI) (auto simp: sys_socket_def split: option.split prod.split dest!: quiet)

lemma sys_bind_quiet [quiet]: "sys_bind s = Some (r, s') \<Longrightarrow> ptab s' = ptab s"
  by (erule keepsI) (auto simp: sys_bind_def split: option.split sum.split prod.split dest!: quiet)

lemma sys_sendto_quiet [quiet]: "sys_sendto e s = Some (r, s') \<Longrightarrow> ptab s' = ptab s"
  by (erule keepsI) (auto simp: sys_sendto_def Let_def split: option.split sum.split prod.split dest!: quiet)

lemma kernel_net_poll_ptab [simp]: "ptab (kernel_net_poll e s) = ptab s"
  by (simp add: kernel_net_poll_def split: prod.split)

lemma recv_loop_quiet [quiet]: "recv_loop e idx n s = (r, s') \<Longrightarrow> ptab s' = ptab s"
  by (induction n arbitrary: s) (auto simp: Let_def split: prod.splits option.splits)

lemma sys_recvfrom_quiet [quiet]: "sys_recvfrom e s = Some (r, s') \<Longrightarrow> ptab s' = ptab s"
  by (erule keepsI) (auto simp: sys_recvfrom_def Let_def split: option.split sum.split prod.split dest!: quiet)

lemma sys_sysinfo_quiet [quiet]: "sys_sysinfo s = Some (r, s') \<Longrightarrow> ptab s' = ptab s"
  by (erule keepsI) (auto simp: sys_sysinfo_def Let_def split: sum.split prod.split dest!: quiet)

lemma sys_reboot_quiet [quiet]: "sys_reboot e s = Some (r, s') \<Longrightarrow> ptab s' = ptab s"
  by (auto simp: sys_reboot_def poweroff_def reboot_def)

lemma sys_proclist_quiet [quiet]: "sys_proclist s = Some (r, s') \<Longrightarrow> ptab s' = ptab s"
  by (erule keepsI) (auto simp: sys_proclist_def Let_def split: sum.split prod.split dest!: quiet)

section \<open>Operations that make steps of the abstract machine\<close>

definition tsteps :: "'d kernel \<Rightarrow> 'd kernel \<Rightarrow> bool" where
  "tsteps s t \<longleftrightarrow> pstep\<^sup>*\<^sup>* (absp s) (absp t) \<and> length (slots t) = length (slots s)"

lemma tsteps_quiet: "ptab t = ptab s \<Longrightarrow> tsteps s t"
  by (simp add: tsteps_def ptab_eq)

lemma tsteps_trans [trans]: "tsteps s t \<Longrightarrow> tsteps t u \<Longrightarrow> tsteps s u"
  by (auto simp: tsteps_def)

lemma tsteps_step: "pstep (absp s) (absp t) \<Longrightarrow> length (slots t) = length (slots s) \<Longrightarrow> tsteps s t"
  by (auto simp: tsteps_def)

lemma tsteps_cong: "ptab s' = ptab s \<Longrightarrow> ptab t' = ptab t \<Longrightarrow> tsteps s' t' \<longleftrightarrow> tsteps s t"
  by (simp add: tsteps_def ptab_eq)

lemma tsteps_pinv: "tsteps s t \<Longrightarrow> pinv (absp s) \<Longrightarrow> pinv (absp t)"
  by (auto simp: tsteps_def intro: psteps_pinv)

lemma pentry_of_eqs:
  "pentry_of (p\<lparr>pstate := st\<rparr>) = (pentry_of p)\<lparr>estate := st\<rparr>"
  "pentry_of (p\<lparr>parent := np\<rparr>) = (pentry_of p)\<lparr>eparent := np\<rparr>"
  "pentry_of (p\<lparr>exit_code := code\<rparr>) = pentry_of p" "pentry_of (p\<lparr>wait_status_uva := va\<rparr>) = pentry_of p"
  "pentry_of (p\<lparr>read_buf_uva := va\<rparr>) = pentry_of p" "pentry_of (p\<lparr>read_len := va\<rparr>) = pentry_of p"
  by (simp_all add: pentry_of_def)

lemma pick_loop_outcome:
  "pick_loop is s = (r, t) \<Longrightarrow>
     (r = None \<and> t = s) \<or>
     (\<exists>i p. proc_at s i = Some p \<and> pstate p = Ready \<and> r = Some (i, root_pa p) \<and>
            t = (set_proc i (Some (p\<lparr>pstate := Running\<rparr>)) s)\<lparr>last_run := i\<rparr>)"
  by (induction "is") (auto simp: Let_def split: option.splits if_splits)

lemma enter_user_ptab [simp]: "ptab (enter_user i root s) = ptab s" "absp (enter_user i root s) = absp s"
  "slots (enter_user i root s) = slots s"
  by (simp_all add: enter_user_def Let_def)

lemma schedule_steps:
  assumes "CURRENT s = NO_PROC"
  shows "tsteps s (schedule s)"
proof -
  obtain r t where r: "pick_loop [1..<MAX_PROCS + 1] s = (r, t)" by (metis surj_pair)
  from pick_loop_outcome [OF this] show ?thesis
  proof (elim disjE exE conjE)
    fix i p assume *: "proc_at s i = Some p" "pstate p = Ready" "r = Some (i, root_pa p)"
      "t = (set_proc i (Some (p\<lparr>pstate := Running\<rparr>)) s)\<lparr>last_run := i\<rparr>"
    have "pstep (absp s) ((absp s)\<lparr>T := (T (absp s))(i \<mapsto> (pentry_of p)\<lparr>estate := Running\<rparr>), cur := i\<rparr>)"
      by (rule a_pick) (use * assms in auto)
    then show ?thesis
      using * proc_at_Some [OF *(1)] r
      by (intro tsteps_step) (auto simp: schedule_def pick_next_def absp_set_proc pentry_of_eqs)
  qed (use r in \<open>simp add: schedule_def pick_next_def tsteps_def\<close>)
qed

lemma resume_current_quiet [quiet]: "resume_current s = Some s' \<Longrightarrow> ptab s' = ptab s"
  by (auto simp: resume_current_def split: option.splits)

text \<open>Parking the current process and choosing another.\<close>

lemma park_steps:
  assumes "proc_at s (CURRENT s) = Some p"
    and "pstep (absp s) ((absp s)\<lparr>T := (T (absp s))(CURRENT s \<mapsto> pentry_of q), cur := NO_PROC\<rparr>)"
  shows "tsteps s (schedule ((set_proc (CURRENT s) (Some q) s)\<lparr>CURRENT := NO_PROC\<rparr>))"
proof -
  let ?t = "(set_proc (CURRENT s) (Some q) s)\<lparr>CURRENT := NO_PROC\<rparr>"
  have "tsteps s ?t"
    using assms proc_at_Some [OF assms(1)] by (intro tsteps_step) (simp_all add: absp_set_proc)
  then show ?thesis using schedule_steps [of ?t] by (auto intro: tsteps_trans)
qed

lemma pinv_running:
  "pinv (absp s) \<Longrightarrow> proc_at s (CURRENT s) = Some p \<Longrightarrow> pstate p = Running"
  using pinv_current(1) [of "absp s" "pentry_of p"] by simp

lemma pinv_cur_in: "pinv (absp s) \<Longrightarrow> CURRENT s < 64 \<Longrightarrow> \<exists>p. proc_at s (CURRENT s) = Some p"
  using pinvD(8) [of "absp s"] NO_PROC_big by auto

lemma yield_current_steps:
  assumes "yield_current s = Some s'" "pinv (absp s)" "length (slots s) = 64"
  shows "tsteps s s'"
proof -
  have "CURRENT s < 64" using assms by (simp add: yield_current_def split: if_splits)
  then obtain p where p: "proc_at s (CURRENT s) = Some p" using pinv_cur_in assms(2) by blast
  have "s' = schedule ((set_proc (CURRENT s) (Some (p\<lparr>pstate := Ready\<rparr>)) s)\<lparr>CURRENT := NO_PROC\<rparr>)"
    using assms(1) p pinv_running [OF assms(2) p] by (simp add: yield_current_def upd_proc_def Let_def split: if_splits)
  moreover have "pstep (absp s) ((absp s)\<lparr>T := (T (absp s))(CURRENT s \<mapsto> pentry_of (p\<lparr>pstate := Ready\<rparr>)), cur := NO_PROC\<rparr>)"
    unfolding pentry_of_eqs by (rule a_yield) (simp_all add: p)
  ultimately show ?thesis using park_steps [OF p] by blast
qed

lemma block_on_console_steps:
  assumes "block_on_console va len s = Some s'"
  shows "tsteps s s'"
proof -
  obtain p where p: "proc_at s (CURRENT s) = Some p"
    and s': "s' = schedule ((set_proc (CURRENT s) (Some (p\<lparr>pstate := SleepConsole, read_buf_uva := va, read_len := len\<rparr>)) s)\<lparr>CURRENT := NO_PROC\<rparr>)"
    using assms by (auto simp: block_on_console_def split: option.splits)
  show ?thesis unfolding s'
  proof (rule park_steps [OF p], unfold pentry_of_eqs)
    show "pstep (absp s) ((absp s)\<lparr>T := (T (absp s))(CURRENT s \<mapsto> (pentry_of p)\<lparr>estate := SleepConsole\<rparr>), cur := NO_PROC\<rparr>)"
      by (rule a_block) (simp_all add: p)
  qed
qed

text \<open>The position found in the slots, read back through \<open>proc_at\<close>.\<close>

lemma position_slot:
  assumes "position P (slots s) = Some i"
  shows "i < length (slots s)" "P (proc_at s i)"
  using assms by (auto simp: proc_at_def position_Some)

lemma position_no_slot: "position P (slots s) = None \<Longrightarrow> i < length (slots s) \<Longrightarrow> \<not> P (proc_at s i)"
  by (auto simp: position_None proc_at_def)

lemma wake_console_reader_steps:
  assumes "wake_console_reader s = Some s'"
  shows "tsteps s s'"
proof (cases "position (\<lambda>x. case x of None \<Rightarrow> False | Some p \<Rightarrow> pstate p = SleepConsole) (slots s)")
  case None
  then show ?thesis using assms by (simp add: wake_console_reader_def tsteps_quiet)
next
  case (Some i)
  from position_slot [OF Some] obtain p where p: "proc_at s i = Some p" "pstate p = SleepConsole" "i < length (slots s)"
    by (auto split: option.splits)
  obtain tmp rx where r: "read_console (min (unat (read_len p)) 128) (RX s) = (tmp, rx)" by (metis surj_pair)
  show ?thesis
  proof (cases "tmp = []")
    case True
    then show ?thesis using assms Some p r by (auto simp: wake_console_reader_def intro!: tsteps_quiet)
  next
    case False
    then obtain q t where c: "copy_out (root_pa p) (read_buf_uva p) tmp (s\<lparr>RX := rx\<rparr>) = Some (q, t)"
      and s': "s' = upd_proc i (\<lambda>q. q\<lparr>pstate := Ready\<rparr>)
        (case q of Inr _ \<Rightarrow> set_slot_a0 i (word_of_nat (length tmp)) t | Inl _ \<Rightarrow> set_slot_a0 i (-14) t)"
      using assms Some p r by (auto simp: wake_console_reader_def bind_eq_Some_conv)
    obtain u where u: "s' = upd_proc i (\<lambda>q. q\<lparr>pstate := Ready\<rparr>) u" "ptab u = ptab s" "proc_at u = proc_at s"
      using s' c copy_out_statics [OF c, THEN same_statics_kernel(11)] copy_out_statics [OF c, THEN ptab_statics]
      by (cases q) auto
    have "absp s' = (absp s)\<lparr>T := (T (absp s))(i \<mapsto> (pentry_of p)\<lparr>estate := Ready\<rparr>)\<rparr>"
      using u p by (simp add: upd_proc_def absp_set_proc pentry_of_eqs ptab_eq)
    moreover have "pstep (absp s) \<dots>" by (rule a_wake) (use p in simp_all)
    ultimately show ?thesis using u by (intro tsteps_step) (simp_all add: ptab_eq)
  qed
qed

lemma handle_interrupt_steps:
  assumes "handle_interrupt e s = Some s'"
  shows "tsteps s s'"
proof -
  obtain g rx d where "(if g then wake_console_reader (s\<lparr>RX := rx, device := d\<rparr>) else Some (s\<lparr>RX := rx, device := d\<rparr>)) = Some s'"
    using assms unfolding handle_interrupt_def Let_def by (auto simp: bind_eq_Some_conv)
  then have "tsteps (s\<lparr>RX := rx, device := d\<rparr>) s'"
    by (auto split: if_splits intro: wake_console_reader_steps tsteps_quiet)
  then show ?thesis by (simp add: tsteps_def)
qed

lemma external_interrupt_steps:
  assumes "external_interrupt e s = Some s'"
  shows "tsteps s s'"
proof -
  obtain irq d where c: "plic_claim e (device s) = (irq, d)" by (metis surj_pair)
  have *: "tsteps s (t\<lparr>device := d'\<rparr>)" if "handle_interrupt e (s\<lparr>device := d\<rparr>) = Some t" for t d'
    using handle_interrupt_steps [OF that] by (simp add: tsteps_def)
  show ?thesis
    using assms c by (auto simp: external_interrupt_def Let_def bind_eq_Some_conv split: if_splits intro: * tsteps_quiet)
qed

text \<open>Interrupts do not change who is current.\<close>

lemma wake_console_reader_current: "wake_console_reader s = Some s' \<Longrightarrow> CURRENT s' = CURRENT s"
  by (erule when_returnsD)
     (auto simp: wake_console_reader_def Let_def split: option.split prod.split sum.split
      dest!: copy_out_statics same_statics_kernel(5))

lemma external_interrupt_current: "external_interrupt e s = Some s' \<Longrightarrow> CURRENT s' = CURRENT s"
  by (erule when_returnsD)
     (auto simp: external_interrupt_def handle_interrupt_def Let_def split: prod.split if_splits
      dest!: wake_console_reader_current)

lemma fork_current_outcome:
  assumes "fork_current e s = Some (r, s')"
  shows "ptab s' = ptab s \<or>
    (\<exists>i t tf q c. position (\<lambda>x. x = None) (slots s) = Some i \<and> ptab t = ptab s \<and> proc_at s (CURRENT s) = Some c \<and>
      s' = set_proc i (Some q) (set_tf i tf (t\<lparr>next_pid := next_pid t + 1\<rparr>)) \<and>
      pentry_of q = \<lparr>epid = next_pid t, estate = Ready, eparent = CURRENT s\<rparr>)"
proof -
  have "when_returns (\<lambda>(r, s'). ptab s' = ptab s \<or>
    (\<exists>i t tf q c. position (\<lambda>x. x = None) (slots s) = Some i \<and> ptab t = ptab s \<and> proc_at s (CURRENT s) = Some c \<and>
      s' = set_proc i (Some q) (set_tf i tf (t\<lparr>next_pid := next_pid t + 1\<rparr>)) \<and>
      pentry_of q = \<lparr>epid = next_pid t, estate = Ready, eparent = CURRENT s\<rparr>)) (fork_current e s)"
    unfolding fork_current_def Let_def
    by (auto split: option.split prod.split sum.split dest!: quiet) (force simp: pentry_of_def)+
  from when_returnsD [OF assms this] show ?thesis by simp
qed

lemma fork_current_steps:
  assumes "fork_current e s = Some (r, s')" "length (slots s) = 64"
  shows "tsteps s s'"
  using fork_current_outcome [OF assms(1)]
proof (elim disjE exE conjE)
  fix i t tf q c
  assume i: "position (\<lambda>x. x = None) (slots s) = Some i" and t: "ptab t = ptab s" and c: "proc_at s (CURRENT s) = Some c"
    and s': "s' = set_proc i (Some q) (set_tf i tf (t\<lparr>next_pid := next_pid t + 1\<rparr>))"
    and q: "pentry_of q = \<lparr>epid = next_pid t, estate = Ready, eparent = CURRENT s\<rparr>"
  note free = position_slot [OF i]
  have a: "absp t = absp s" "length (slots t) = length (slots s)" using t by (simp_all add: ptab_eq)
  then have n: "next_pid t = next_pid s" by (metis absp_simps(2))
  have "pstep (absp s) ((absp s)\<lparr>T := (T (absp s))(i \<mapsto> \<lparr>epid = nxt (absp s), estate = Ready, eparent = CURRENT s\<rparr>),
      nxt := nxt (absp s) + 1\<rparr>)"
    by (rule a_fork) (use c free assms(2) in auto)
  moreover have "absp s' = \<dots>" unfolding s' using free(1) a n q by (simp add: absp_set_proc)
  ultimately show ?thesis using a by (intro tsteps_step) (simp_all add: s')
qed (rule tsteps_quiet)

text \<open>Reaping: the parent becomes ready and the child's slot is emptied.\<close>

lemma complete_wait_effect:
  assumes "complete_wait ps cs s = Some s'"
  obtains c p where "proc_at s cs = Some c" "proc_at s ps = Some p" "length (slots s') = length (slots s)"
    "absp s' = (absp s)\<lparr>T := ((T (absp s))(ps \<mapsto> (pentry_of p)\<lparr>estate := Ready\<rparr>))(cs := None)\<rparr>"
proof -
  let ?s1 = "upd_proc ps (\<lambda>p. p\<lparr>pstate := Ready\<rparr>) s"
  have w: "when_returns (\<lambda>s'. \<exists>t. ptab t = ptab ?s1 \<and> s' = set_proc cs None t \<and> proc_at s cs \<noteq> None \<and> proc_at s ps \<noteq> None)
      (complete_wait ps cs s)"
    unfolding complete_wait_def Let_def
    by (auto split: option.split simp: proc_at_upd_proc bind_eq_Some_conv dest!: quiet)
  from when_returnsD [OF assms this] obtain t c p where t: "ptab t = ptab ?s1" "s' = set_proc cs None t"
    and cp: "proc_at s cs = Some c" "proc_at s ps = Some p" by auto
  have "absp ?s1 = (absp s)\<lparr>T := (T (absp s))(ps \<mapsto> (pentry_of p)\<lparr>estate := Ready\<rparr>)\<rparr>"
    using cp proc_at_Some [OF cp(2)] by (simp add: upd_proc_def absp_set_proc pentry_of_eqs)
  then show thesis using that [OF cp] t proc_at_Some [OF cp(1)] by (simp add: absp_set_proc ptab_eq)
qed

lemma reparent_init:
  "init_slot (T (absp s)) (case position (\<lambda>x. case x of None \<Rightarrow> False | Some p \<Rightarrow> pid p = 1) (slots s) of None \<Rightarrow> NO_PROC | Some i \<Rightarrow> i)"
proof (cases "position (\<lambda>x. case x of None \<Rightarrow> False | Some p \<Rightarrow> pid p = 1) (slots s)")
  case (Some i)
  then show ?thesis using position_slot [OF Some] by (auto simp: init_slot_def split: option.splits)
next
  case None
  then have "pid p \<noteq> 1" if "proc_at s i = Some p" for i p
    using position_no_slot [OF None proc_at_Some [OF that]] that by simp
  with None show ?thesis by (auto simp: init_slot_def)
qed

lemma absp_reparent:
  "\<exists>np. init_slot (T (absp s)) np \<and> absp (reparent c s) = (absp s)\<lparr>T := a_reparent c np (T (absp s))\<rparr> \<and>
     length (slots (reparent c s)) = length (slots s)"
proof (intro exI conjI)
  show "absp (reparent c s) = (absp s)\<lparr>T := a_reparent c (case position (\<lambda>x. case x of None \<Rightarrow> False | Some p \<Rightarrow> pid p = 1) (slots s) of None \<Rightarrow> NO_PROC | Some i \<Rightarrow> i) (T (absp s))\<rparr>"
    by (auto simp: absp_def reparent_def Let_def fun_eq_iff a_reparent_def proc_at_def option.map_comp comp_def pentry_of_def
        intro!: option.map_cong)
qed (auto simp: reparent_init reparent_def Let_def)

lemma schedule_after:
  assumes "pstep (absp s) ((absp t)\<lparr>cur := NO_PROC\<rparr>)" "length (slots t) = length (slots s)"
  shows "tsteps s (schedule (t\<lparr>CURRENT := NO_PROC\<rparr>))"
proof -
  have "tsteps s (t\<lparr>CURRENT := NO_PROC\<rparr>)" using assms by (intro tsteps_step) simp_all
  then show ?thesis using schedule_steps [of "t\<lparr>CURRENT := NO_PROC\<rparr>"] by (auto intro: tsteps_trans)
qed

text \<open>The state of \<open>exit_current\<close> after the current process became a zombie.\<close>

lemma exit_zombie:
  assumes inv: "pinv (absp s)" and p: "proc_at s (CURRENT s) = Some p" and t: "ptab t = ptab s"
    and u_def: "u = upd_proc (CURRENT s) (\<lambda>q. q\<lparr>pstate := Zombie, exit_code := code\<rparr>) (reparent (CURRENT s) t)"
  obtains np where "init_slot (T (absp s)) np" "length (slots u) = length (slots s)"
    "absp u = (absp s)\<lparr>T := (a_reparent (CURRENT s) np (T (absp s)))(CURRENT s \<mapsto> (pentry_of p)\<lparr>estate := Zombie\<rparr>)\<rparr>"
proof -
  let ?c = "CURRENT s" let ?r = "reparent ?c t"
  have a: "absp t = absp s" "length (slots t) = length (slots s)" using t by (simp_all add: ptab_eq)
  obtain np where np: "init_slot (T (absp s)) np" "absp ?r = (absp s)\<lparr>T := a_reparent ?c np (T (absp s))\<rparr>"
    "length (slots ?r) = length (slots s)" using absp_reparent [of t ?c] a by auto
  have "parent p \<noteq> ?c"
    using pinvD(6) [OF inv, of ?c "pentry_of p"] p pinv_current(2) [OF inv, of "pentry_of p"] by auto
  then have "T (absp ?r) ?c = Some (pentry_of p)" unfolding np(2) using p by (simp add: a_reparent_def)
  then obtain q where q: "proc_at ?r ?c = Some q" "pentry_of q = pentry_of p" by auto
  then have "absp u = (absp ?r)\<lparr>T := (T (absp ?r))(?c \<mapsto> (pentry_of p)\<lparr>estate := Zombie\<rparr>)\<rparr>"
    using proc_at_Some [OF q(1)] by (simp add: u_def upd_proc_def absp_set_proc pentry_of_eqs)
  then show thesis using that np by (simp add: u_def)
qed

lemma exit_current_steps:
  assumes ex: "exit_current code s = Some s'" and inv: "pinv (absp s)"
  shows "tsteps s s'"
proof -
  let ?c = "CURRENT s"
  obtain p where p: "proc_at s ?c = Some p" "pid p \<noteq> 1" using ex by (auto simp: exit_current_def Let_def split: option.splits if_splits)
  obtain t where t: "free_user_space (root_pa p) s = Some t" using ex p by (auto simp: exit_current_def Let_def bind_eq_Some_conv)
  define u where "u = upd_proc ?c (\<lambda>q. q\<lparr>pstate := Zombie, exit_code := code\<rparr>) (reparent ?c t)"
  have ex': "do { v \<leftarrow> (if parent p \<noteq> NO_PROC then
                    (if parent p < length (slots u) then
                       (case proc_at u (parent p) of
                          Some q \<Rightarrow> if pstate q = SleepChild then complete_wait (parent p) ?c u else Some u
                        | None \<Rightarrow> Some u)
                     else None)
                  else Some u);
             Some (schedule (v\<lparr>CURRENT := NO_PROC\<rparr>)) } = Some s'"
    using ex by (simp only: exit_current_def Let_def p t u_def option.case Option.bind.simps if_False)
  have "ptab t = ptab s" using t by (rule quiet)
  from exit_zombie [OF inv p(1) this u_def] obtain np where np: "init_slot (T (absp s)) np"
    and len: "length (slots u) = length (slots s)"
    and au: "absp u = (absp s)\<lparr>T := (a_reparent ?c np (T (absp s)))(?c \<mapsto> (pentry_of p)\<lparr>estate := Zombie\<rparr>)\<rparr>" by blast
  have pc: "parent p \<noteq> ?c"
    using pinvD(6) [OF inv, of ?c "pentry_of p"] p pinv_current(2) [OF inv, of "pentry_of p"] by auto
  show ?thesis
  proof (cases "\<exists>q. proc_at u (parent p) = Some q \<and> pstate q = SleepChild")
    case True
    then obtain q where q: "proc_at u (parent p) = Some q" "pstate q = SleepChild" by blast
    have tq: "a_reparent ?c np (T (absp s)) (parent p) = Some (pentry_of q)"
      using arg_cong [OF au, of "\<lambda>a. T a (parent p)"] q pc by simp
    have "parent p \<noteq> NO_PROC" using tq pinv_NO_PROC [OF inv] by (auto simp: a_reparent_def)
    then obtain v where v: "complete_wait (parent p) ?c u = Some v" "s' = schedule (v\<lparr>CURRENT := NO_PROC\<rparr>)"
      using ex' q proc_at_Some [OF q(1)] by (auto simp: bind_eq_Some_conv)
    from complete_wait_effect [OF v(1)] q obtain
      lv: "length (slots v) = length (slots u)"
      and av: "absp v = (absp u)\<lparr>T := ((T (absp u))(parent p \<mapsto> (pentry_of q)\<lparr>estate := Ready\<rparr>))(?c := None)\<rparr>" by auto
    have "pstep (absp s) ((absp s)\<lparr>T := ((a_reparent ?c np (T (absp s)))(eparent (pentry_of p) \<mapsto> (pentry_of q)\<lparr>estate := Ready\<rparr>))(?c := None),
        cur := NO_PROC\<rparr>)"
      by (rule a_exit_reaped [OF _ _ _ np refl]) (use p q tq pc in auto)
    moreover have "\<dots> = (absp v)\<lparr>cur := NO_PROC\<rparr>" unfolding av au by (auto simp: fun_upd_twist)
    ultimately show ?thesis unfolding v(2) using lv len by (intro schedule_after) simp_all
  next
    case False
    then have s': "s' = schedule (u\<lparr>CURRENT := NO_PROC\<rparr>)"
      using ex' by (auto simp: bind_eq_Some_conv split: if_splits option.splits)
    have no: "\<not> (\<exists>q. T (absp u) (parent p) = Some q \<and> estate q = SleepChild)" using False by auto
    let ?t = "(a_reparent ?c np (T (absp s)))(?c \<mapsto> (pentry_of p)\<lparr>estate := Zombie\<rparr>)"
    have "T (absp u) = ?t" unfolding au by simp
    then have "\<not> (\<exists>q. ?t (eparent (pentry_of p)) = Some q \<and> estate q = SleepChild)" using no by (simp only: pentry_of_simps not_False_eq_True)
    then have "pstep (absp s) ((absp s)\<lparr>T := ?t, cur := NO_PROC\<rparr>)"
      by (rule a_exit [OF _ _ _ np refl, rotated -1]) (use p in simp_all)
    then have "pstep (absp s) ((absp u)\<lparr>cur := NO_PROC\<rparr>)" unfolding au .
    then show ?thesis unfolding s' using len by (intro schedule_after) simp_all
  qed
qed

lemma wait_current_steps:
  assumes w: "wait_current va s = Some s'" and inv: "pinv (absp s)"
  shows "tsteps s s'"
proof -
  let ?c = "CURRENT s"
  obtain p where p: "proc_at s ?c = Some p" using w by (auto simp: wait_current_def Let_def split: option.splits)
  have live: "pstate p = Running" using pinv_running [OF inv p] .
  let ?sl = "set_proc ?c (Some (p\<lparr>wait_status_uva := va, pstate := SleepChild\<rparr>)) s"
  have asl: "absp ?sl = (absp s)\<lparr>T := (T (absp s))(?c \<mapsto> (pentry_of p)\<lparr>estate := SleepChild\<rparr>)\<rparr>"
    using proc_at_Some [OF p] by (simp add: absp_set_proc pentry_of_eqs)
  show ?thesis
  proof (cases "position (is_zombie_child ?c) (slots s)")
    case (Some z)
    from position_slot [OF Some] obtain q where q: "proc_at s z = Some q" "parent q = ?c" "pstate q = Zombie"
      by (auto simp: is_zombie_child_def split: option.splits)
    have zc: "z \<noteq> ?c" using q p live by auto
    obtain v where v: "complete_wait ?c z ?sl = Some v" "s' = schedule (v\<lparr>CURRENT := NO_PROC\<rparr>)"
      using w p Some by (auto simp: wait_current_def Let_def bind_eq_Some_conv)
    from complete_wait_effect [OF v(1)] obtain r where lv: "length (slots v) = length (slots s)" and r: "proc_at ?sl ?c = Some r"
      and av: "absp v = (absp ?sl)\<lparr>T := ((T (absp ?sl))(?c \<mapsto> (pentry_of r)\<lparr>estate := Ready\<rparr>))(z := None)\<rparr>" by auto
    have "r = p\<lparr>wait_status_uva := va, pstate := SleepChild\<rparr>" using r proc_at_Some [OF p] by (simp add: proc_at_set_proc)
    then have "(pentry_of r)\<lparr>estate := Ready\<rparr> = (pentry_of p)\<lparr>estate := Ready\<rparr>" by (simp add: pentry_of_eqs)
    then have "(absp v)\<lparr>cur := NO_PROC\<rparr> = (absp s)\<lparr>T := ((T (absp s))(?c \<mapsto> (pentry_of p)\<lparr>estate := Ready\<rparr>))(z := None), cur := NO_PROC\<rparr>"
      unfolding av asl by simp
    moreover have "pstep (absp s) \<dots>" by (rule a_wait_reap [where f = "pentry_of q"]) (use p q zc in auto)
    ultimately show ?thesis unfolding v(2) using lv by (intro schedule_after) simp_all
  next
    case None
    then have none: "\<not> (\<exists>j g. T (absp s) j = Some g \<and> eparent g = ?c \<and> estate g = Zombie)"
      using position_no_slot [OF None] proc_at_Some by (fastforce simp: is_zombie_child_def)
    show ?thesis
    proof (cases "list_ex (is_child ?c) (slots s)")
      case True
      then obtain z where "is_child ?c (proc_at s z)" by (force simp: list_ex_length proc_at_def)
      then obtain q where z: "proc_at s z = Some q" "parent q = ?c" by (auto simp: is_child_def split: option.splits)
      have "s' = schedule (?sl\<lparr>CURRENT := NO_PROC\<rparr>)"
        using w p None True by (auto simp: wait_current_def Let_def)
      moreover have "pstep (absp s) ((absp s)\<lparr>T := (T (absp s))(?c \<mapsto> (pentry_of p)\<lparr>estate := SleepChild\<rparr>), cur := NO_PROC\<rparr>)"
        by (rule a_wait_sleep [where f = "pentry_of q", OF _ _ _ _ none]) (use p z in auto)
      ultimately show ?thesis using asl by (auto intro!: schedule_after)
    next
      case False
      let ?rd = "set_slot_a0 ?c (-10) (set_proc ?c (Some (p\<lparr>wait_status_uva := va, pstate := Ready\<rparr>)) s)"
      have "s' = schedule (?rd\<lparr>CURRENT := NO_PROC\<rparr>)"
        using w p None False by (auto simp: wait_current_def Let_def)
      moreover have "absp ?rd = (absp s)\<lparr>T := (T (absp s))(?c \<mapsto> (pentry_of p)\<lparr>estate := Ready\<rparr>)\<rparr>"
        using proc_at_Some [OF p] by (simp add: absp_set_proc pentry_of_eqs)
      moreover have "pstep (absp s) ((absp s)\<lparr>T := (T (absp s))(?c \<mapsto> (pentry_of p)\<lparr>estate := Ready\<rparr>), cur := NO_PROC\<rparr>)"
        by (rule a_yield) (use p in simp_all)
      ultimately show ?thesis by (auto intro!: schedule_after)
    qed
  qed
qed

section \<open>System calls and traps\<close>

lemma sys_read_steps:
  assumes "sys_read e s = Some (r, s')"
  shows "tsteps s s'"
proof -
  have blk: "tsteps s t" if "block_on_console va len (s\<lparr>RX := rx\<rparr>) = Some t" for va len rx t
    using block_on_console_steps [OF that] by (simp add: tsteps_def)
  have "when_returns (\<lambda>(r, s'). tsteps s s') (sys_read e s)"
    unfolding sys_read_def Let_def
    by (auto split: prod.split sum.split intro: blk tsteps_quiet dest!: quiet)
  from when_returnsD [OF assms this] show ?thesis by simp
qed

lemma syscall_steps:
  assumes "syscall e nr s = Some (r, s')" "pinv (absp s)" "length (slots s) = 64"
  shows "tsteps s s'"
proof -
  have ex: "tsteps s t" if "sys_exit s = Some (q, t)" for q t
    using that assms by (auto simp: sys_exit_def bind_eq_Some_conv intro: exit_current_steps)
  have wt: "tsteps s t" if "sys_wait4 s = Some (q, t)" for q t
    using that assms by (auto simp: sys_wait4_def bind_eq_Some_conv intro: wait_current_steps)
  have fk: "tsteps s t" if "sys_fork e s = Some (q, t)" for q t
    using that assms by (auto simp: sys_fork_def bind_eq_Some_conv intro: fork_current_steps)
  show ?thesis
    using assms(1) unfolding syscall_def
    by (auto split: if_splits intro: ex wt fk sys_read_steps tsteps_quiet dest!: quiet)
qed

lemma dispatch_steps:
  assumes "dispatch e s = Some (r, s')" "pinv (absp s)" "length (slots s) = 64"
  shows "tsteps s s'"
proof -
  obtain q t where q: "syscall e (tf_a7 (cur_tf s)) s = Some (q, t)"
    and k: "(case q of SysRet v \<Rightarrow> do { s \<leftarrow> resume_current (set_slot_a0 (CURRENT t) v t); Some (SysRet v, s) } | _ \<Rightarrow> Some (q, t)) = Some (r, s')"
    using assms(1) by (auto simp: dispatch_def bind_eq_Some_conv)
  have "ptab s' = ptab t" using k by (cases q) (auto simp: bind_eq_Some_conv dest: quiet)
  then show ?thesis using syscall_steps [OF q assms(2,3)] tsteps_quiet tsteps_trans by blast
qed

lemma usertrap_steps:
  assumes "usertrap e scause s = Some (r, s')" "pinv (absp s)" "length (slots s) = 64"
  shows "tsteps s s'"
proof -
  have tick: "ptab (timer_tick e t) = ptab t" for t
    by (simp add: timer_tick_def clint_set_next_def split: prod.split)
  have y: "tsteps s t" if "yield_current (timer_tick e s) = Some t" for t
    using yield_current_steps [OF that] assms(2,3) tick [of s] by (simp add: tsteps_def ptab_eq)
  have x: "tsteps s t" if "external_interrupt e s = Some u" "resume_current u = Some t" for t u
    using external_interrupt_steps [OF that(1)] that(2) by (blast intro: tsteps_trans tsteps_quiet dest: quiet)
  have d: "tsteps s t" if "dispatch e (set_tf i tf s) = Some (q, t)" for t i tf q
    using dispatch_steps [OF that] assms(2,3) by (simp add: tsteps_def)
  have dw: "when_returns (\<lambda>(r, s'). tsteps s s') (dispatch e (set_tf i tf s))" for i tf
    by (auto simp: when_returns_def intro: d)
  have "when_returns (\<lambda>(r, s'). tsteps s s') (usertrap e scause s)"
    unfolding usertrap_def Let_def using assms(2)
    by (auto intro: y x exit_current_steps tsteps_quiet dest: quiet simp: dw)
  from when_returnsD [OF assms(1) this] show ?thesis by simp
qed

lemma idle_interrupt_steps:
  assumes "idle_interrupt e scause s = Some s'" "CURRENT s = NO_PROC"
  shows "tsteps s s'"
proof -
  have tick: "ptab (timer_tick e s) = ptab s"
    by (simp add: timer_tick_def clint_set_next_def split: prod.split)
  obtain t where t: "trap_handler e scause s = Some t" "s' = schedule t"
    using assms(1) by (auto simp: idle_interrupt_def bind_eq_Some_conv)
  have st: "tsteps s t"
    using t(1) tick by (auto simp: trap_handler_def Let_def split: if_splits intro: external_interrupt_steps tsteps_quiet)
  have "CURRENT t = NO_PROC"
    using t(1) assms(2)
    by (auto simp: trap_handler_def Let_def timer_tick_def clint_set_next_def split: if_splits prod.splits
        dest: external_interrupt_current)
  then show ?thesis using schedule_steps st t(2) by (blast intro: tsteps_trans)
qed

end
