(* ===== verification/Kernel_Run.thy ===== *)
theory Kernel_Run
  imports Proc_Refine
begin

text \<open>
  The kernel as a state machine. A run starts where \<open>kinit\<close> enters the scheduler with \<open>init\<close> in the
  table; from then on the hart executes user code (which may change memory and its own registers),
  takes a trap from user mode, or takes an interrupt in the idle loop. The theorems of \<open>Proc_Refine\<close>
  lift to whole runs.
\<close>

section \<open>Runs\<close>

text \<open>The end of \<open>kinit\<close>: spawn \<open>init\<close> (a failure panics) and schedule.\<close>

definition kinit_spawn :: "'d env \<Rightarrow> 'd kernel \<Rightarrow> 'd kernel run" where
  "kinit_spawn e s =
     do { (r, s) \<leftarrow> spawn e (str_bytes ''init'') s;
          (case r of Inl _ \<Rightarrow> None | Inr _ \<Rightarrow> Some (schedule s)) }"

inductive kstep :: "'d env \<Rightarrow> 'd kernel \<Rightarrow> 'd kernel \<Rightarrow> bool" for e where
  user_runs: "CURRENT s \<noteq> NO_PROC \<Longrightarrow> length (regs tf) = 32 \<Longrightarrow> kstep e s (set_tf (CURRENT s) tf (s\<lparr>phys := m, device := d\<rparr>))"
| user_traps: "CURRENT s \<noteq> NO_PROC \<Longrightarrow> usertrap e scause s = Some (r, s') \<Longrightarrow> r \<noteq> Halted \<Longrightarrow> kstep e s s'"
| idle_wakes: "CURRENT s = NO_PROC \<Longrightarrow> idle_interrupt e scause (s\<lparr>device := d\<rparr>) = Some s' \<Longrightarrow> kstep e s s'"

lemma kstep_steps:
  assumes "kstep e s s'" "pinv (absp s)" "length (slots s) = 64"
  shows "tsteps s s'"
  using assms
proof (cases rule: kstep.cases)
  case (user_runs tf d m)
  have "ptab (s\<lparr>phys := m, device := d\<rparr>) = ptab s"
    using ptab_statics [of s "s\<lparr>phys := m\<rparr>"] by simp
  then show ?thesis using user_runs by (simp add: tsteps_quiet)
next
  case (user_traps scause r)
  then show ?thesis using usertrap_steps assms(2,3) by blast
next
  case (idle_wakes scause d)
  then show ?thesis using idle_interrupt_steps [OF idle_wakes(2)] by (simp add: tsteps_def)
qed

lemma ksteps_steps:
  assumes "(kstep e)\<^sup>*\<^sup>* s s'" "pinv (absp s)" "length (slots s) = 64"
  shows "tsteps s s'"
  using assms
proof (induction rule: rtranclp_induct)
  case (step t u)
  then have "tsteps s t" by simp
  then have "pinv (absp t)" "length (slots t) = 64" using step.prems tsteps_pinv [of s t] by (auto simp: tsteps_def)
  then show ?case using kstep_steps [OF step.hyps(2)] \<open>tsteps s t\<close> tsteps_trans by blast
qed (simp add: tsteps_quiet)

section \<open>The first state\<close>

definition booted :: "'d kernel \<Rightarrow> bool" where
  "booted s \<longleftrightarrow> next_pid s = 2 \<and> CURRENT s = NO_PROC \<and>
     (\<exists>p. slots s = Some p # replicate 63 None \<and> pid p = 1 \<and> pstate p = Ready \<and> parent p = NO_PROC)"

lemma booted_pinv:
  assumes "booted s"
  shows "pinv (absp s)" "length (slots s) = 64"
proof -
  obtain p where p: "slots s = Some p # replicate 63 None" "pid p = 1" "pstate p = Ready" "parent p = NO_PROC"
    and n: "next_pid s = 2" "CURRENT s = NO_PROC" using assms by (auto simp: booted_def)
  show l: "length (slots s) = 64" by (simp add: p)
  have at: "proc_at s i = (if i = 0 then Some p else None)" for i
    using l by (cases i) (auto simp: proc_at_def p)
  show "pinv (absp s)"
    by (rule pinvI) (auto simp: at n p split: if_splits)
qed

text \<open>Spawning into the empty table of the statics gives such a state.\<close>

lemma spawn_booted:
  assumes "spawn e name s = Some (Inr pd, s')"
    and "slots s = replicate 64 None" "next_pid s = 1" "CURRENT s = NO_PROC"
  shows "booted s'" "pd = 1"
proof -
  have r64: "replicate 64 x = x # replicate 63 x" for x :: "Process option" by (simp add: numeral_eq_Suc)
  have "when_returns (\<lambda>(r, s'). \<forall>pd. r = Inr pd \<longrightarrow> booted s' \<and> pd = 1) (spawn e name s)"
    unfolding spawn_def using assms(2-)
    by (auto split: option.split sum.split dest!: build_address_space_statics
        simp: r64 same_statics_kernel Let_def booted_def set_tf_def set_proc_def)
  from when_returnsD [OF assms(1) this] show "booted s'" "pd = 1" by simp_all
qed

section \<open>Properties of whole runs\<close>

text \<open>The invariant of the abstract table, read in the kernel's own terms.\<close>

lemma pinv_kernel:
  assumes inv: "pinv (absp s')"
  shows "(\<forall>i j p q. proc_at s' i = Some p \<and> proc_at s' j = Some q \<and> pid p = pid q \<longrightarrow> i = j) \<and>
    (\<forall>i p. proc_at s' i = Some p \<longrightarrow> (pstate p = Running \<longleftrightarrow> i = CURRENT s')) \<and>
    (\<exists>i p. proc_at s' i = Some p \<and> pid p = 1 \<and> pstate p \<noteq> Zombie) \<and>
    (\<forall>i p. proc_at s' i = Some p \<longrightarrow> parent p = NO_PROC \<or>
      parent p \<noteq> i \<and> (\<exists>q. proc_at s' (parent p) = Some q \<and> pstate q \<noteq> Zombie)) \<and>
    (\<forall>i p. proc_at s' i = Some p \<and> pstate p = SleepChild \<and> pid p \<noteq> 1 \<longrightarrow>
      (\<exists>j q. proc_at s' j = Some q \<and> parent q = i) \<and>
      (\<forall>j q. proc_at s' j = Some q \<and> parent q = i \<longrightarrow> pstate q \<noteq> Zombie))"
proof (intro conjI allI impI)
  have at: "proc_at s' i = Some p \<Longrightarrow> T (absp s') i = Some (pentry_of p)" for i p by simp
  show "i = j" if "proc_at s' i = Some p \<and> proc_at s' j = Some q \<and> pid p = pid q" for i j p q
    using pinvD(4) [OF inv, of i "pentry_of p" j "pentry_of q"] that by simp
  show "pstate p = Running \<longleftrightarrow> i = CURRENT s'" if "proc_at s' i = Some p" for i p
    using pinvD(7) [OF inv at [OF that]] pinv_running [OF inv] that by auto
  show "\<exists>i p. proc_at s' i = Some p \<and> pid p = 1 \<and> pstate p \<noteq> Zombie"
    using pinvD(5) [OF inv] by auto blast
  show "parent p = NO_PROC \<or> parent p \<noteq> i \<and> (\<exists>q. proc_at s' (parent p) = Some q \<and> pstate q \<noteq> Zombie)"
    if "proc_at s' i = Some p" for i p
    using pinvD(6) [OF inv at [OF that]] by auto
  show "\<exists>j q. proc_at s' j = Some q \<and> parent q = i"
    if "proc_at s' i = Some p \<and> pstate p = SleepChild \<and> pid p \<noteq> 1" for i p
    using pinvD(9) [OF inv, of i "pentry_of p"] that by auto blast
  show "pstate q \<noteq> Zombie"
    if "proc_at s' i = Some p \<and> pstate p = SleepChild \<and> pid p \<noteq> 1" "proc_at s' j = Some q \<and> parent q = i" for i p j q
    using pinvD(10) [OF inv, of i "pentry_of p" j "pentry_of q"] that by simp
qed

text \<open>A kernel with only \<open>init\<close>, on a machine whose devices stay silent: the state of the witnesses.\<close>

definition silent_env :: "unit env" where
  "silent_env = \<lparr>ld = \<lparr>text_start = 0, text_end = 0, rodata_start = 0, rodata_end = 0, data_start = 0, bss_end = 0,
       stack_start = 0, stack_end = 0, heap_start = 0\<rparr>, kernel_root_pa = 0, blk = (\<lambda>_ _. Inl []), images = \<lparr>INIT_ELF = [], HELLO_ELF = []\<rparr>, image_ptr = 0,
     uart_bus = \<lparr>read_volatile = (\<lambda>_ d. (0, d)), write_volatile = (\<lambda>_ _ d. d)\<rparr>, mmio_read32 = (\<lambda>_ d. (0, d)),
     mmio_write32 = (\<lambda>_ _ d. d), mmio_read64 = (\<lambda>_ d. (0, d)), net_send = (\<lambda>_ d. (Inr (), d)), net_poll_rx = (\<lambda>d. ([], d))\<rparr>"

definition init_proc :: Process where
  "init_proc = \<lparr>pid = 1, pstate = Ready, parent = NO_PROC, root_pa = 0, exit_code = 0, wait_status_uva = 0,
     read_buf_uva = 0, read_len = 0, next_mmap = MMAP_BASE, brk = 0, pname = replicate 16 0, files = [], nce_affinity = 0\<rparr>"

definition init_kernel :: "unit kernel" where
  "init_kernel = \<lparr>phys = (\<lambda>_. 0), frames = ALLOCATOR, slots = Some init_proc # replicate 63 None, next_pid = 2, last_run = 0,
     TRAPFRAMES = replicate 64 TrapFrame_zeroed, CURRENT = NO_PROC, RX = RX_BUF,
     NET = \<lparr>IFACE = None, IP_IDENT = 0, sockets = TABLE\<rparr>, NCES = [], ROOT = None, TICKS = 0, CSR_SSTATUS = 0, CSR_SATP = 0,
     CSR_STIMECMP = 0, device = ()\<rparr>"

lemma init_kernel_booted: "booted init_kernel"
  by (simp add: booted_def init_kernel_def init_proc_def)

definition init_running :: "unit kernel" where
  "init_running = init_kernel\<lparr>slots := Some (init_proc\<lparr>pstate := Running\<rparr>) # replicate 63 None, CURRENT := 0\<rparr>"

lemma init_running_pinv: "pinv (absp init_running)"
proof -
  have at: "proc_at init_running i = (if i = 0 then Some (init_proc\<lparr>pstate := Running\<rparr>) else None)" for i
    by (cases i) (auto simp: proc_at_def init_running_def)
  show ?thesis by (rule pinvI) (auto simp: at split: if_splits, auto simp: init_running_def init_kernel_def init_proc_def)
qed

lemma init_running_tick:
  "kstep silent_env init_running (snd (the (usertrap silent_env 0x8000000000000005 init_running)))"
proof (rule user_traps)
  show "CURRENT init_running \<noteq> NO_PROC" by (simp add: init_running_def NO_PROC_def)
  show "usertrap silent_env 0x8000000000000005 init_running =
      Some (Scheduled, snd (the (usertrap silent_env 0x8000000000000005 init_running)))"
    by (simp add: usertrap_def yield_current_def Let_def timer_tick_def clint_set_next_def silent_env_def init_running_def)
qed simp

text \<open>
  C1: whatever user code, system calls, faults and interrupts do, the kernel changes its process table only
  by the steps of the abstract table: fork by the current process, exit with reparenting (and reaping when
  the parent waits), reaping, going to sleep in \<open>wait4\<close>, yielding, blocking on and waking from the
  console, and dispatching a ready process when none is current.
\<close>

theorem kernel_refines_process_table:
  assumes "(kstep e)\<^sup>*\<^sup>* s s'" "pinv (absp s)" "length (slots s) = MAX_PROCS"
  shows "pstep\<^sup>*\<^sup>* (absp s) (absp s')"
  using ksteps_steps [OF assms(1,2)] assms(3) by (simp add: tsteps_def)

theorem kernel_refines_process_table_witness:
  "pstep\<^sup>*\<^sup>* (absp init_running) (absp (snd (the (usertrap silent_env 0x8000000000000005 init_running))))"
  by (rule kernel_refines_process_table [of silent_env])
     (simp_all add: init_running_tick init_running_pinv r_into_rtranclp, simp add: init_running_def)



end
