(* ===== verification/Kernel_Typed.thy ===== *)
theory Kernel_Typed
  imports Kernel_Run
begin

text \<open>
  The types of the source that the records of the model do not carry: the lengths of its arrays, and the ranges
  within which it indexes them. \<open>typed\<close> collects them for the state of the kernel; like a type system, it is
  preserved by every operation.
\<close>

section \<open>Well-typed states\<close>

definition fd_typed :: "nat \<Rightarrow> OpenFile \<Rightarrow> bool" where
  "fd_typed n f \<longleftrightarrow> (case fd_kind f of FdFile _ \<Rightarrow> True | FdNce i \<Rightarrow> i < n | FdSocket i \<Rightarrow> i < MAX_SOCKETS)"

definition proc_typed :: "nat \<Rightarrow> Process \<Rightarrow> bool" where
  "proc_typed n p \<longleftrightarrow> length (pname p) = 16 \<and> (\<forall>f. Some f \<in> set (files p) \<longrightarrow> fd_typed n f)"

definition typed :: "nat \<Rightarrow> 'd kernel \<Rightarrow> bool" where
  "typed n s \<longleftrightarrow>
     length (slots s) = MAX_PROCS \<and> (\<forall>p. Some p \<in> set (slots s) \<longrightarrow> proc_typed n p) \<and>
     length (TRAPFRAMES s) = MAX_PROCS \<and> (\<forall>tf \<in> set (TRAPFRAMES s). length (regs tf) = 32) \<and>
     (CURRENT s < MAX_PROCS \<or> CURRENT s = NO_PROC) \<and> last_run s < MAX_PROCS \<and>
     ring_ok (RX s) \<and> net_wf (NET s) \<and> length (NCES s) = n"

text \<open>Reading a well-typed state.\<close>

lemma typed_proc: "typed n s \<Longrightarrow> proc_at s i = Some p \<Longrightarrow> proc_typed n p"
  unfolding typed_def proc_at_def by (metis nth_mem option.distinct(1))

lemma typed_slot: "typed n s \<Longrightarrow> i < length (slots s) \<Longrightarrow> slots s ! i = Some p \<Longrightarrow> proc_typed n p"
  by (rule typed_proc [of n s i]) (simp_all add: proc_at_def)

lemma typed_tf: "typed n s \<Longrightarrow> i < 64 \<Longrightarrow> length (regs (tf_at s i)) = 32"
  by (simp add: typed_def tf_at_def)

lemma typedD:
  assumes "typed n s"
  shows "length (slots s) = 64" "ring_ok (RX s)" "net_wf (NET s)" "sock_wf (sockets (NET s))" "length (NCES s) = n"
  using assms by (simp_all add: typed_def net_wf_def)

section \<open>Updates\<close>

lemma typed_untyped [simp]:
  "typed n (s\<lparr>device := d\<rparr>) = typed n s" "typed n (s\<lparr>TICKS := t\<rparr>) = typed n s" "typed n (s\<lparr>CSR_SATP := a\<rparr>) = typed n s"
  "typed n (s\<lparr>CSR_STIMECMP := b\<rparr>) = typed n s" "typed n (s\<lparr>next_pid := k\<rparr>) = typed n s" "typed n (s\<lparr>phys := m\<rparr>) = typed n s"
  by (simp_all add: typed_def)

lemma typed_RX [simp]: "typed n s \<Longrightarrow> ring_ok rx \<Longrightarrow> typed n (s\<lparr>RX := rx\<rparr>)"
  and typed_NET [simp]: "typed n s \<Longrightarrow> net_wf net \<Longrightarrow> typed n (s\<lparr>NET := net\<rparr>)"
  and typed_NCES [simp]: "typed n s \<Longrightarrow> length ns = n \<Longrightarrow> typed n (s\<lparr>NCES := ns\<rparr>)"
  and typed_CURRENT [simp]: "typed n s \<Longrightarrow> c < 64 \<or> c = NO_PROC \<Longrightarrow> typed n (s\<lparr>CURRENT := c\<rparr>)"
  and typed_last_run [simp]: "typed n s \<Longrightarrow> i < 64 \<Longrightarrow> typed n (s\<lparr>last_run := i\<rparr>)"
  by (auto simp: typed_def)

lemma typed_sockets [simp]: "typed n s \<Longrightarrow> sock_wf t \<Longrightarrow> typed n (s\<lparr>NET := (NET s)\<lparr>sockets := t\<rparr>\<rparr>)"
  by (simp add: typed_def net_wf_def)

lemma typed_set_tf [simp]: "typed n s \<Longrightarrow> length (regs tf) = 32 \<Longrightarrow> typed n (set_tf i tf s)"
  by (auto simp: typed_def set_tf_def dest!: set_update_subset_insert [THEN subsetD])

lemma typed_set_slot_a0 [simp]: "typed n s \<Longrightarrow> typed n (set_slot_a0 i v s)"
proof (cases "i < 64")
  case True
  assume s: "typed n s"
  then show ?thesis using typed_tf [OF s True] by (simp add: set_slot_a0_def set_a0_def)
next
  case False
  assume "typed n s"
  then show ?thesis using False by (simp add: set_slot_a0_def set_tf_def typed_def list_update_beyond)
qed

lemma typed_set_proc [simp]:
  "typed n s \<Longrightarrow> proc_typed n p \<Longrightarrow> typed n (set_proc i (Some p) s)" "typed n s \<Longrightarrow> typed n (set_proc i None s)"
  by (auto simp: typed_def set_proc_def dest!: set_update_subset_insert [THEN subsetD])

lemma typed_upd_proc [simp]: "typed n s \<Longrightarrow> (\<And>q. proc_typed n q \<Longrightarrow> proc_typed n (f q)) \<Longrightarrow> typed n (upd_proc i f s)"
  unfolding upd_proc_def by (cases "proc_at s i") (auto intro!: typed_set_proc dest: typed_proc)

lemma proc_typed_untyped [simp]:
  "proc_typed n (p\<lparr>pstate := st\<rparr>) = proc_typed n p" "proc_typed n (p\<lparr>parent := i\<rparr>) = proc_typed n p"
  "proc_typed n (p\<lparr>exit_code := c\<rparr>) = proc_typed n p" "proc_typed n (p\<lparr>wait_status_uva := a\<rparr>) = proc_typed n p"
  "proc_typed n (p\<lparr>read_buf_uva := a\<rparr>) = proc_typed n p" "proc_typed n (p\<lparr>read_len := a\<rparr>) = proc_typed n p"
  "proc_typed n (p\<lparr>next_mmap := a\<rparr>) = proc_typed n p" "proc_typed n (p\<lparr>brk := a\<rparr>) = proc_typed n p"
  "proc_typed n (p\<lparr>root_pa := a\<rparr>) = proc_typed n p" "proc_typed n (p\<lparr>nce_affinity := a\<rparr>) = proc_typed n p"
  by (simp_all add: proc_typed_def)

lemma set_name_length [simp]: "length dst = 16 \<Longrightarrow> length (set_name dst name) = 16"
  by (simp add: set_name_def Let_def)

lemma proc_typed_name [simp]: "proc_typed n p \<Longrightarrow> length nm = 16 \<Longrightarrow> proc_typed n (p\<lparr>pname := nm\<rparr>)"
  by (simp add: proc_typed_def)

lemma proc_typed_name_length: "proc_typed n p \<Longrightarrow> length (pname p) = 16"
  by (simp add: proc_typed_def)

lemma proc_typed_files: "proc_typed n p \<Longrightarrow> (\<And>f. Some f \<in> set fs \<Longrightarrow> Some f \<in> set (files p) \<or> fd_typed n f) \<Longrightarrow> proc_typed n (p\<lparr>files := fs\<rparr>)"
  by (auto simp: proc_typed_def)

lemma proc_typed_close [simp]: "proc_typed n p \<Longrightarrow> proc_typed n (p\<lparr>files := (files p)[i := None]\<rparr>)"
  by (erule proc_typed_files) (auto dest!: set_update_subset_insert [THEN subsetD])

lemma proc_typed_place [simp]:
  assumes "proc_typed n p" "fd_typed n f" "place_file f (files p) = (idx, fs)"
  shows "proc_typed n (p\<lparr>files := fs\<rparr>)"
  using assms
  by (intro proc_typed_files)
     (auto simp: place_file_def split: option.splits dest!: set_update_subset_insert [THEN subsetD])

lemma proc_typed_set_pos [simp]: "proc_typed n p \<Longrightarrow> proc_typed n (set_pos fd f p)"
proof (cases "get_file p fd")
  case (Some h)
  assume p: "proc_typed n p"
  have "Some h \<in> set (files p)" using Some by (auto simp: get_file_def split: if_splits) (metis nth_mem)
  then have "fd_typed n (h\<lparr>fd_pos := f (fd_pos h)\<rparr>)" using p by (simp add: proc_typed_def fd_typed_def)
  then show ?thesis using p Some
    by (auto simp: set_pos_def intro!: proc_typed_files dest!: set_update_subset_insert [THEN subsetD])
qed (simp add: set_pos_def)

lemma typed_statics: "same_statics s s' \<Longrightarrow> \<forall>n. typed n s \<longrightarrow> typed n s'"
  by (simp add: typed_def same_statics_kernel)

section \<open>Operations\<close>

named_theorems typing \<open>operations that keep the kernel state well typed\<close>

lemmas mem_typing = statics [THEN typed_statics]

declare mem_typing [typing]


text \<open>To show that an operation keeps the state well typed it is enough to look at what its parts return.\<close>

lemma typedI: "m = Some (r, s') \<Longrightarrow> (\<And>n. typed n s \<Longrightarrow> when_returns (\<lambda>(r, s'). typed n s') m) \<Longrightarrow> \<forall>n. typed n s \<longrightarrow> typed n s'"
  by (auto dest: when_returnsD)

lemma typed_tailI1: "(\<And>t. m = Some t \<Longrightarrow> typed n t) \<Longrightarrow> when_returns (typed n) m"
  by (auto simp: when_returns_def)

lemma typed_tailI: "(\<And>r t. m = Some (r, t) \<Longrightarrow> typed n t) \<Longrightarrow> when_returns (\<lambda>(r, t). typed n t) m"
  by (auto simp: when_returns_def)

lemma typedI1: "m = Some s' \<Longrightarrow> (\<And>n. typed n s \<Longrightarrow> when_returns (typed n) m) \<Longrightarrow> \<forall>n. typed n s \<longrightarrow> typed n s'"
  by (auto dest: when_returnsD)

lemma write_loop_typed [typing]: "write_loop e root uva d len s = Some (r, s') \<Longrightarrow> \<forall>n. typed n s \<longrightarrow> typed n s'"
  by (auto dest!: write_loop_device)


text \<open>Scheduling.\<close>

lemma schedule_typed [simp]:
  assumes "typed n s"
  shows "typed n (schedule s)"
proof -
  obtain r t where r: "pick_loop [1..<MAX_PROCS + 1] s = (r, t)" by (metis surj_pair)
  from pick_loop_outcome [OF this] show ?thesis
  proof (elim disjE exE conjE)
    fix i p assume *: "proc_at s i = Some p" "r = Some (i, root_pa p)"
      "t = (set_proc i (Some (p\<lparr>pstate := Running\<rparr>)) s)\<lparr>last_run := i\<rparr>"
    have i: "i < 64" using proc_at_Some [OF *(1)] typedD(1) [OF assms] by simp
    have "typed n (t\<lparr>CURRENT := i\<rparr>)" using * i assms typed_proc [OF assms *(1)] by simp
    then show ?thesis
      using typed_tf [of n "t\<lparr>CURRENT := i\<rparr>" i] i r *(2) by (simp add: schedule_def pick_next_def enter_user_def Let_def)
  qed (use r assms in \<open>simp add: schedule_def pick_next_def\<close>)
qed

lemmas typed_intros = schedule_typed typed_CURRENT typed_set_proc typed_upd_proc typed_set_tf typed_set_slot_a0

lemma resume_current_typed [typing]: "resume_current s = Some s' \<Longrightarrow> \<forall>n. typed n s \<longrightarrow> typed n s'"
proof (intro allI impI)
  fix n assume "resume_current s = Some s'" and s: "typed n s"
  then obtain p where p: "proc_at s (CURRENT s) = Some p" "s' = enter_user (CURRENT s) (root_pa p) s"
    by (auto simp: resume_current_def split: option.splits)
  then have "CURRENT s < 64" using proc_at_Some typedD(1) [OF s] by fastforce
  then show "typed n s'" using p(2) s typed_tf [OF s] by (simp add: enter_user_def Let_def)
qed

lemma yield_current_typed [typing]: "yield_current s = Some s' \<Longrightarrow> \<forall>n. typed n s \<longrightarrow> typed n s'"
  by (auto simp: yield_current_def Let_def split: if_splits)

lemma block_on_console_typed [typing]: "block_on_console va len s = Some s' \<Longrightarrow> \<forall>n. typed n s \<longrightarrow> typed n s'"
  by (auto simp: block_on_console_def intro!: typed_intros dest: typed_proc split: option.splits)

text \<open>The console.\<close>

lemma read_console_ring: "read_console k rx = (bs, rx') \<Longrightarrow> ring_ok rx \<Longrightarrow> ring_ok rx'"
proof (induction k arbitrary: rx bs rx')
  case (Suc k)
  have "ring_ok (snd (read_byte rx))" by (rule read_byte_items(3) [OF Suc.prems(2)])
  then show ?case using Suc by (auto split: prod.splits option.splits)
qed simp

lemma drain_rx_ring: "drain_rx b got rx d = Some y \<Longrightarrow> ring_ok rx \<longrightarrow> ring_ok (fst (snd y))"
proof (induct rule: drain_rx.raw_induct [rotated, consumes 1, case_names step])
  case (step f b got rx d y)
  obtain r d1 where g: "uart_get b d = (r, d1)" by (metis surj_pair)
  show ?case
  proof (cases r)
    case (Some byte)
    then obtain d2 x where "(case rx_push x rx of (kept, rx) \<Rightarrow> f b (got \<or> kept) rx d2) = Some y"
      using step(2) g by (auto simp: Let_def bind_eq_Some_conv split: if_splits)
    then have "f b (got \<or> fst (rx_push x rx)) (snd (rx_push x rx)) d2 = Some y" by (simp add: case_prod_beta)
    from step(1) [OF this] show ?thesis using rx_push_items(1) by blast
  qed (use step(2) g in auto)
qed

lemma wake_console_reader_typed [typing]: "wake_console_reader s = Some s' \<Longrightarrow> \<forall>n. typed n s \<longrightarrow> typed n s'"
  by (erule typedI1)
     (auto simp: wake_console_reader_def Let_def typedD read_console_ring split: option.split prod.split sum.split dest!: typing)

lemma handle_interrupt_typed [typing]: "handle_interrupt e s = Some s' \<Longrightarrow> \<forall>n. typed n s \<longrightarrow> typed n s'"
  by (erule typedI1) (auto simp: handle_interrupt_def Let_def typedD intro!: typed_tailI1 dest!: drain_rx_ring wake_console_reader_typed)


lemma external_interrupt_typed [typing]: "external_interrupt e s = Some s' \<Longrightarrow> \<forall>n. typed n s \<longrightarrow> typed n s'"
  by (erule typedI1) (auto simp: external_interrupt_def Let_def split: prod.split dest!: typing)

lemma timer_tick_typed [simp]: "typed n (timer_tick e s) = typed n s"
  by (simp add: timer_tick_def clint_set_next_def split: prod.split)

text \<open>Processes.\<close>

lemma new_proc_typed [simp]:
  "proc_typed n \<lparr>pid = pd, pstate = st, parent = pa, root_pa = root, exit_code = c, wait_status_uva = w, read_buf_uva = b,
     read_len = l, next_mmap = m, brk = br, pname = nm, files = fs, nce_affinity = a\<rparr> \<longleftrightarrow>
   length nm = 16 \<and> (\<forall>f. Some f \<in> set fs \<longrightarrow> fd_typed n f)"
  by (simp add: proc_typed_def)

lemma fresh_tf_regs [simp]: "length (regs (fresh_tf e ent)) = 32"
  by (simp add: fresh_tf_def TrapFrame_zeroed_def)

lemma regs_set_a0 [simp]: "length (regs (set_a0 v tf)) = length (regs tf)"
  by (simp add: set_a0_def)

lemma typed_cur_tf: "typed n s \<Longrightarrow> proc_at s i = Some p \<Longrightarrow> length (regs (tf_at s i)) = 32"
  using proc_at_Some [of s i p] typedD(1) [of n s] typed_tf [of n s i] by simp

lemma fork_current_typed [typing]: "fork_current e s = Some (r, s') \<Longrightarrow> \<forall>n. typed n s \<longrightarrow> typed n s'"
proof (erule typedI)
  fix n assume s: "typed n s"
  have child: "typed n (set_proc j (Some \<lparr>pid = pd, pstate = Ready, parent = CURRENT s, root_pa = root, exit_code = 0, wait_status_uva = 0,
      read_buf_uva = 0, read_len = 0, next_mmap = next_mmap p, brk = brk p, pname = pname p, files = files p, nce_affinity = 0\<rparr>)
      (set_tf j ((set_a0 0 (tf_at (t\<lparr>next_pid := k\<rparr>) (CURRENT s)))\<lparr>kernel_sp := sp\<rparr>) (t\<lparr>next_pid := k\<rparr>)))"
    if "proc_at s (CURRENT s) = Some p" "same_statics s t" for t p j pd root sp k
    using that s typed_statics [OF that(2)] typed_proc [OF s that(1)] typed_cur_tf [OF s that(1)]
    by (simp add: proc_typed_def same_statics_kernel tf_at_def)
  have keep: "typed n t" if "same_statics s t" for t using typed_statics [OF that] s by blast
  show "when_returns (\<lambda>(r, s'). typed n s') (fork_current e s)"
    unfolding fork_current_def Let_def
    by (auto simp: s split: option.split sum.split prod.split dest!: statics)
       (assumption | rule child keep | erule same_statics_trans)+
qed

lemma exec_current_typed [typing]: "exec_current e name s = Some (r, s') \<Longrightarrow> \<forall>n. typed n s \<longrightarrow> typed n s'"
proof (erule typedI)
  fix n assume s: "typed n s"
  have keep: "typed n t" if "same_statics s t" for t using typed_statics [OF that] s by blast
  have new: "typed n (set_tf i (fresh_tf e ent) (set_proc i (Some (p\<lparr>root_pa := root, next_mmap := MMAP_BASE, brk := br,
      pname := set_name (pname p) name\<rparr>)) u))"
    if "proc_at t i = Some p" "same_statics s t" "same_statics s u" for t u p i root br ent
    using keep [OF that(3)] typed_proc [OF keep [OF that(2)] that(1)] by (simp add: proc_typed_name_length)
  show "when_returns (\<lambda>(r, s'). typed n s') (exec_current e name s)"
    unfolding exec_current_def Let_def
    by (auto simp: s simp del: MMAP_BASE_def split: option.split sum.split prod.split dest!: statics)
       (blast intro: new keep same_statics_trans)+
qed

lemma complete_wait_typed [typing]: "complete_wait i j s = Some s' \<Longrightarrow> \<forall>n. typed n s \<longrightarrow> typed n s'"
  by (erule typedI1)
     (auto simp: complete_wait_def Let_def bind_eq_Some_conv split: option.split sum.split prod.split if_split intro!: typed_intros dest!: typing)

lemma reparent_typed [simp]: "typed n s \<Longrightarrow> typed n (reparent i s)"
  by (auto simp: typed_def reparent_def Let_def proc_typed_def map_option_case split: option.splits if_splits)

lemma exit_current_typed [typing]: "exit_current code s = Some s' \<Longrightarrow> \<forall>n. typed n s \<longrightarrow> typed n s'"
  by (erule typedI1)
     (auto simp: exit_current_def Let_def split: option.split if_split intro!: typed_intros dest!: typing)

lemma wait_current_typed [typing]: "wait_current va s = Some s' \<Longrightarrow> \<forall>n. typed n s \<longrightarrow> typed n s'"
proof (erule typedI1)
  fix n assume s: "typed n s"
  then have "proc_typed n p" if "proc_at s (CURRENT s) = Some p" for p using that by (rule typed_proc)
  then show "when_returns (typed n) (wait_current va s)"
    using s by (auto simp: wait_current_def Let_def split: option.split if_split dest!: typing)
qed

text \<open>Descriptors.\<close>

lemma install_fd_typed:
  "install_fd k s = Some (r, s') \<Longrightarrow> typed n s \<Longrightarrow> fd_typed n \<lparr>fd_kind = k, fd_pos = 0\<rparr> \<Longrightarrow> typed n s'"
  by (auto simp: install_fd_def split: if_splits option.splits prod.splits intro!: typed_intros
      intro: proc_typed_place dest: typed_slot)

lemma open_kind_typed: "open_kind e path fl s = Inr k \<Longrightarrow> typed n s \<Longrightarrow> fd_typed n \<lparr>fd_kind = k, fd_pos = 0\<rparr>"
  by (auto simp: open_kind_def fd_typed_def nce_count_def typedD split: option.splits if_splits sum.splits)

lemma sys_openat_typed [typing]: "sys_openat e s = Some (r, s') \<Longrightarrow> \<forall>n. typed n s \<longrightarrow> typed n s'"
  by (erule typedI)
     (auto simp: sys_openat_def split: option.split sum.split prod.split intro!: typed_intros
       intro: proc_typed_place dest: typed_proc open_kind_typed)

lemma sys_close_typed [typing]: "sys_close s = Some (r, s') \<Longrightarrow> \<forall>n. typed n s \<longrightarrow> typed n s'"
  by (erule typedI)
     (auto simp: sys_close_def Let_def socket_free_wf typedD split: option.split FdKind.split intro!: typed_intros typed_sockets
       dest: typed_proc)

text \<open>Reading and writing.\<close>

lemma set_power_length: "set_power wr slot st nces d = (r, ns, d') \<Longrightarrow> length ns = length nces"
  by (auto simp: set_power_def Let_def split: if_splits)

lemma nce_write_typed [typing]: "nce_write e fd uva len s = Some (r, s') \<Longrightarrow> \<forall>n. typed n s \<longrightarrow> typed n s'"
  by (erule typedI)
     (auto simp: nce_write_def Let_def typedD split: option.split FdKind.split sum.split if_split prod.split dest!: set_power_length)

lemma nce_read_typed [typing]: "nce_read fd slot pos uva len p s = Some (r, s') \<Longrightarrow> \<forall>n. typed n s \<longrightarrow> typed n s'"
  by (erule typedI) (auto simp: nce_read_def Let_def split: option.split sum.split if_split prod.split dest!: typing)

lemma file_read_typed [typing]: "file_read e fd uva len s = Some (r, s') \<Longrightarrow> \<forall>n. typed n s \<longrightarrow> typed n s'"
  by (erule typedI)
     (auto simp: file_read_def Let_def split: option.split FdKind.split sum.split if_split prod.split
       intro!: typed_tailI dest!: typing)

lemma sys_write_typed [typing]: "sys_write e s = Some (r, s') \<Longrightarrow> \<forall>n. typed n s \<longrightarrow> typed n s'"
  by (erule typedI) (auto simp: sys_write_def Let_def split: sum.split if_split prod.split dest!: typing)

lemma sys_read_typed [typing]: "sys_read e s = Some (r, s') \<Longrightarrow> \<forall>n. typed n s \<longrightarrow> typed n s'"
  by (erule typedI)
     (auto simp: sys_read_def Let_def read_console_ring typedD split: sum.split if_split prod.split dest!: typing)

lemma sys_getdents64_typed [typing]: "sys_getdents64 e s = Some (r, s') \<Longrightarrow> \<forall>n. typed n s \<longrightarrow> typed n s'"
  by (erule typedI)
     (auto simp: sys_getdents64_def Let_def split: option.split FdKind.split sum.split if_split prod.split dest!: typing)

text \<open>Memory, affinity, information.\<close>

lemma sys_mmap_typed [typing]: "sys_mmap s = Some (r, s') \<Longrightarrow> \<forall>n. typed n s \<longrightarrow> typed n s'"
proof (erule typedI)
  fix n assume s: "typed n s"
  then have "proc_typed n p" if "proc_at s (CURRENT s) = Some p" for p using that by (rule typed_proc)
  then show "when_returns (\<lambda>(r, s'). typed n s') (sys_mmap s)"
    using s by (auto simp: sys_mmap_def Let_def split: option.split dest!: typing)
qed

lemma affinity_set_typed [typing]: "affinity_set_current m s = Some (r, s') \<Longrightarrow> \<forall>n. typed n s \<longrightarrow> typed n s'"
  by (auto simp: affinity_set_current_def split: if_splits option.splits intro!: typed_intros dest: typed_slot)

lemma sys_quiet_typed [typing]:
  "sys_munmap s = Some (r, s') \<Longrightarrow> \<forall>n. typed n s \<longrightarrow> typed n s'"
  "sys_sched_setaffinity s = Some (r, s') \<Longrightarrow> \<forall>n. typed n s \<longrightarrow> typed n s'"
  "sys_sched_getaffinity s = Some (r, s') \<Longrightarrow> \<forall>n. typed n s \<longrightarrow> typed n s'"
  "sys_sysinfo s = Some (r, s') \<Longrightarrow> \<forall>n. typed n s \<longrightarrow> typed n s'"
  "sys_proclist s = Some (r, s') \<Longrightarrow> \<forall>n. typed n s \<longrightarrow> typed n s'"
  "sys_getpid s = Some (r, s') \<Longrightarrow> \<forall>n. typed n s \<longrightarrow> typed n s'"
  "sys_execve e s = Some (r, s') \<Longrightarrow> \<forall>n. typed n s \<longrightarrow> typed n s'"
  "sys_reboot e s = Some (r, s') \<Longrightarrow> \<forall>n. typed n s \<longrightarrow> typed n s'"
  by (erule typedI;
      auto simp: sys_munmap_def sys_sched_setaffinity_def sys_sched_getaffinity_def sys_sysinfo_def sys_proclist_def
        sys_getpid_def sys_execve_def sys_reboot_def poweroff_def reboot_def Let_def split: sum.split prod.split dest!: typing)+


text \<open>Sockets.\<close>

lemma send_udp_wf: "send_udp send ip dp sp bs s d = (r, s', d') \<Longrightarrow> net_wf s \<Longrightarrow> net_wf s'"
  by (auto simp: send_udp_def Let_def net_wf_def split: option.splits prod.splits)

lemma socket_alloc_typed: "socket_alloc t = (r, t') \<Longrightarrow> sock_wf t \<Longrightarrow> sock_wf t' \<and> (\<forall>i. r = Some i \<longrightarrow> i < 32)"
  using socket_alloc_wf [of t] sock_wfD(1) [of t]
  by (auto simp: socket_alloc_def split: option.splits dest: position_SomeD(1))

lemma socket_bind_typed: "socket_bind i port t = (r, t') \<Longrightarrow> sock_wf t \<Longrightarrow> sock_wf t'"
  using socket_bind_wf [of t i port] by simp

lemma auto_bind_typed: "auto_bind i t = (r, t') \<Longrightarrow> sock_wf t \<Longrightarrow> sock_wf t'"
  by (auto simp: auto_bind_def Let_def split: if_splits dest: socket_bind_typed)

lemma kernel_net_poll_typed: "typed n s \<Longrightarrow> typed n (kernel_net_poll e s)"
  using net_poll_wf_ind [of "NET s" "net_send e"]
  by (auto simp: kernel_net_poll_def typedD split: prod.split intro!: typed_NET) (metis fst_conv)

lemma recv_loop_typed [typing]: "recv_loop e idx k s = (r, s') \<Longrightarrow> \<forall>n. typed n s \<longrightarrow> typed n s'"
proof (induction k arbitrary: s)
  case (Suc k)
  obtain q t where q: "socket_recv idx (sockets (NET (kernel_net_poll e s))) = (q, t)" by (metis surj_pair)
  have "typed n ((kernel_net_poll e s)\<lparr>NET := (NET (kernel_net_poll e s))\<lparr>sockets := t\<rparr>\<rparr>)" if "typed n s" for n
    using kernel_net_poll_typed [OF that] socket_recv_wf [OF typedD(4) [OF kernel_net_poll_typed [OF that]]] q
    by (metis snd_conv typed_sockets)
  then show ?case using Suc q by (auto simp: Let_def split: option.splits)
qed simp

lemma sys_socket_typed [typing]: "sys_socket s = Some (r, s') \<Longrightarrow> \<forall>n. typed n s \<longrightarrow> typed n s'"
proof (erule typedI)
  fix n assume s: "typed n s"
  have "typed n t" if "socket_alloc (sockets (NET s)) = (Some i, tab)"
      "install_fd (FdSocket i) (s\<lparr>NET := (NET s)\<lparr>sockets := tab\<rparr>\<rparr>) = Some (q, t)" for i tab q t
    using socket_alloc_typed [OF that(1) typedD(4) [OF s]] s by (intro install_fd_typed [OF that(2)]) (simp_all add: fd_typed_def)
  moreover have "typed n (s\<lparr>NET := (NET s)\<lparr>sockets := tab\<rparr>\<rparr>)" if "socket_alloc (sockets (NET s)) = (None, tab)" for tab
    using socket_alloc_typed [OF that typedD(4) [OF s]] s by simp
  ultimately show "when_returns (\<lambda>(r, s'). typed n s') (sys_socket s)"
    using s by (auto simp: sys_socket_def split: option.split prod.split)
qed

lemma sys_bind_typed [typing]: "sys_bind s = Some (r, s') \<Longrightarrow> \<forall>n. typed n s \<longrightarrow> typed n s'"
  by (erule typedI)
     (auto simp: sys_bind_def split: option.split sum.split prod.split intro!: typed_sockets intro: socket_bind_typed typedD(4))

lemma sys_sendto_typed [typing]: "sys_sendto e s = Some (r, s') \<Longrightarrow> \<forall>n. typed n s \<longrightarrow> typed n s'"
proof (erule typedI)
  fix n assume s: "typed n s"
  have b: "typed n (s\<lparr>NET := (NET s)\<lparr>sockets := t\<rparr>\<rparr>)" if "auto_bind i (sockets (NET s)) = (q, t)" for i q t
    using auto_bind_typed [OF that typedD(4) [OF s]] s by simp
  have u: "typed n (s\<lparr>NET := m\<rparr>)"
    if "auto_bind i (sockets (NET s)) = (q, t)" "send_udp send ip dp sp bs ((NET s)\<lparr>sockets := t\<rparr>) d = (r, m, d')" for i q t send ip dp sp bs d r m d'
    using send_udp_wf [OF that(2)] typedD(3) [OF b [OF that(1)]] s by simp
  show "when_returns (\<lambda>(r, s'). typed n s') (sys_sendto e s)"
    using s by (auto simp: sys_sendto_def Let_def split: option.split sum.split prod.split intro: b u)
qed

lemma sys_recvfrom_typed [typing]: "sys_recvfrom e s = Some (r, s') \<Longrightarrow> \<forall>n. typed n s \<longrightarrow> typed n s'"
  by (erule typedI) (auto simp: sys_recvfrom_def Let_def split: option.split sum.split prod.split dest!: typing)

section \<open>Traps and runs\<close>

lemma sys_parking_typed [typing]:
  "sys_exit s = Some (r, s') \<Longrightarrow> \<forall>n. typed n s \<longrightarrow> typed n s'"
  "sys_wait4 s = Some (r, s') \<Longrightarrow> \<forall>n. typed n s \<longrightarrow> typed n s'"
  "sys_fork e s = Some (r, s') \<Longrightarrow> \<forall>n. typed n s \<longrightarrow> typed n s'"
  by (erule typedI; auto simp: sys_exit_def sys_wait4_def sys_fork_def dest!: typing)+

lemma syscall_typed [typing]: "syscall e nr s = Some (r, s') \<Longrightarrow> \<forall>n. typed n s \<longrightarrow> typed n s'"
  unfolding syscall_def by (auto split: if_splits dest!: typing)

lemma dispatch_typed [typing]: "dispatch e s = Some (r, s') \<Longrightarrow> \<forall>n. typed n s \<longrightarrow> typed n s'"
  by (erule typedI) (auto simp: dispatch_def split: sysret.split dest!: typing)

lemma usertrap_typed [typing]:
  assumes "usertrap e scause s = Some (r, s')"
  shows "\<forall>n. typed n s \<longrightarrow> typed n s'"
proof (rule typedI [OF assms])
  fix n assume s: "typed n s"
  have cur: "typed n (set_tf (CURRENT s) ((cur_tf s)\<lparr>sepc := a\<rparr>) s)" for a
  proof (cases "CURRENT s < 64")
    case True
    then show ?thesis using s typed_tf [OF s True] by (simp add: cur_tf_def)
  next
    case False
    then show ?thesis using s by (simp add: set_tf_def typed_def list_update_beyond)
  qed
  show "when_returns (\<lambda>(r, s'). typed n s') (usertrap e scause s)"
    unfolding usertrap_def Let_def using s cur by (auto intro!: typed_tailI dest!: typing)
qed

lemma idle_interrupt_typed [typing]: "idle_interrupt e scause s = Some s' \<Longrightarrow> \<forall>n. typed n s \<longrightarrow> typed n s'"
  by (erule typedI1) (auto simp: idle_interrupt_def trap_handler_def Let_def split: if_splits dest!: typing)

lemma spawn_typed [typing]: "spawn e name s = Some (r, s') \<Longrightarrow> \<forall>n. typed n s \<longrightarrow> typed n s'"
  by (erule typedI)
     (auto simp: spawn_def Let_def split: option.split sum.split prod.split intro!: typed_intros dest!: typing)

lemma kinit_spawn_typed: "kinit_spawn e s = Some s' \<Longrightarrow> \<forall>n. typed n s \<longrightarrow> typed n s'"
  by (erule typedI1) (auto simp: kinit_spawn_def split: sum.split dest!: typing)

lemma kstep_typed: "kstep e s s' \<Longrightarrow> typed n s \<Longrightarrow> typed n s'"
  by (cases rule: kstep.cases) (auto dest!: typing)



end
