(* ===== verification/Kalloc.thy ===== *)
theory Kalloc
  imports Page_Alloc
begin

unbundle bit_operations_syntax

text \<open>
  \<open>kernel/mem/kalloc.rs\<close>: the kernel heap, an address-ordered first-fit free list whose
  headers (\<open>Block\<close>: size, then next) live in the free memory itself. The operations are
  modelled on the byte store, pointer by pointer; the loops chase \<open>next\<close> pointers and are
  partial functions, so that not returning is \<open>None\<close>. The abstract view is the list of
  (address, size) blocks that the chain of headers spells, and the set of bytes they cover;
  the lemmas show that the pointer code terminates, implements the list operations and
  moves exactly the right bytes.
\<close>

section \<open>The free list in memory\<close>

definition MIN_BLOCK :: usize where [simp]: "MIN_BLOCK = 16"
definition INITIAL_HEAP_PAGES :: nat where [simp]: "INITIAL_HEAP_PAGES = 1024"

text \<open>Field access of \<open>struct Block\<close> (\<open>repr(C)\<close>: size at offset 0, next at offset 8).\<close>

definition blk_size :: "pmem \<Rightarrow> usize \<Rightarrow> usize" where "blk_size m b = load64 m b"
definition blk_next :: "pmem \<Rightarrow> usize \<Rightarrow> usize" where "blk_next m b = load64 m (b + 8)"
definition set_size :: "usize \<Rightarrow> usize \<Rightarrow> pmem \<Rightarrow> pmem" where "set_size b v m = store64 m b v"
definition set_next :: "usize \<Rightarrow> usize \<Rightarrow> pmem \<Rightarrow> pmem" where "set_next b v m = store64 m (b + 8) v"

text \<open>\<open>block_size\<close> of a layout of \<open>sz\<close> bytes.\<close>

definition block_size :: "usize \<Rightarrow> usize" where
  "block_size sz = max MIN_BLOCK ((sz + MIN_BLOCK - 1) AND NOT (MIN_BLOCK - 1))"

text \<open>The state of \<open>HEAP\<close> beside the memory it lives in.\<close>

record kheap = machine +
  heap_head :: usize

text \<open>
  The search loop of \<open>insert\<close>: the last block below \<open>addr\<close> and the first one not below it
  (0 is the null pointer).
\<close>

partial_function (option) insert_search :: "pmem \<Rightarrow> usize \<Rightarrow> usize \<Rightarrow> usize \<Rightarrow> (usize \<times> usize) option" where
  "insert_search m addr prev cur =
     (if cur \<noteq> 0 \<and> cur < addr then insert_search m addr cur (blk_next m cur)
      else Some (prev, cur))"

text \<open>The two merges of \<open>insert\<close>: with the block that follows, then with the one before.\<close>

definition merge_forward :: "usize \<Rightarrow> usize \<Rightarrow> usize \<Rightarrow> pmem \<Rightarrow> pmem" where
  "merge_forward addr sz cur m =
     (if cur \<noteq> 0 \<and> addr + sz = cur
      then (let m = set_size addr (blk_size m addr + blk_size m cur) m
            in set_next addr (blk_next m cur) m)
      else m)"

definition merge_backward :: "usize \<Rightarrow> usize \<Rightarrow> pmem \<Rightarrow> usize \<Rightarrow> pmem \<times> usize" where
  "merge_backward prev addr m head =
     (if prev = 0 then (m, addr)
      else if prev + blk_size m prev = addr
      then (let m = set_size prev (blk_size m prev + blk_size m addr) m
            in (set_next prev (blk_next m addr) m, head))
      else (set_next prev addr m, head))"

definition FreeList_insert :: "usize \<Rightarrow> usize \<Rightarrow> pmem \<Rightarrow> usize \<Rightarrow> (pmem \<times> usize) option" where
  "FreeList_insert addr sz m head =
     do { (prev, cur) \<leftarrow> insert_search m addr 0 head;
          let m = set_next addr cur (set_size addr sz m);
          Some (merge_backward prev addr (merge_forward addr sz cur m) head) }"

text \<open>The search loop of \<open>take\<close>: the first block that fits, with its predecessor.\<close>

definition align_up :: "usize \<Rightarrow> usize \<Rightarrow> usize" where
  "align_up start align = (start + align - 1) AND NOT (align - 1)"

partial_function (option) take_search ::
  "pmem \<Rightarrow> usize \<Rightarrow> usize \<Rightarrow> usize \<Rightarrow> usize \<Rightarrow> (usize \<times> usize) option option" where
  "take_search m sz align prev cur =
     (if cur = 0 then Some None
      else if blk_size m cur \<ge> align_up cur align - cur + sz then Some (Some (prev, cur))
      else take_search m sz align cur (blk_next m cur))"

definition FreeList_take :: "usize \<Rightarrow> usize \<Rightarrow> pmem \<Rightarrow> usize \<Rightarrow> (usize \<times> pmem \<times> usize) option" where
  "FreeList_take sz align m head =
     do { found \<leftarrow> take_search m sz align 0 head;
          case found of
            None \<Rightarrow> Some (0, m, head)
          | Some (prev, cur) \<Rightarrow>
              (let start = cur; aligned = align_up start align; pad = aligned - start;
                   total = blk_size m cur; next = blk_next m cur;
                   (m, head) = (if prev = 0 then (m, next) else (set_next prev next m, head))
               in do { (m, head) \<leftarrow> (if pad > 0 then FreeList_insert start pad m head else Some (m, head));
                       let tail = total - pad - sz;
                       (m, head) \<leftarrow> (if tail > 0 then FreeList_insert (aligned + sz) tail m head
                                     else Some (m, head));
                       Some (aligned, m, head) }) }"

section \<open>The global allocator\<close>

definition kalloc_grow_pages :: "usize \<Rightarrow> usize \<Rightarrow> nat" where
  "kalloc_grow_pages sz align = unat (max ((sz + align) div PAGE_SIZE + 1) 16)"

definition kalloc_alloc :: "usize \<Rightarrow> usize \<Rightarrow> 'a kheap_scheme \<Rightarrow> (usize \<times> 'a kheap_scheme) option" where
  "kalloc_alloc layout_size layout_align s =
     (let sz = block_size layout_size; align = max layout_align MIN_BLOCK in
      do { (p, m, head) \<leftarrow> FreeList_take sz align (phys s) (heap_head s);
           let s = s\<lparr>phys := m, heap_head := head\<rparr>;
           if p \<noteq> 0 then Some (p, s)
           else (let grow_pages = kalloc_grow_pages sz align in
             case page_alloc grow_pages s of
               (Some mem, s) \<Rightarrow>
                 do { (m, head) \<leftarrow> FreeList_insert mem (word_of_nat grow_pages * PAGE_SIZE) (phys s) (heap_head s);
                      (p, m, head) \<leftarrow> FreeList_take sz align m head;
                      Some (p, s\<lparr>phys := m, heap_head := head\<rparr>) }
             | (None, s) \<Rightarrow> Some (0, s)) })"

definition kalloc_dealloc :: "usize \<Rightarrow> usize \<Rightarrow> 'a kheap_scheme \<Rightarrow> 'a kheap_scheme option" where
  "kalloc_dealloc ptr layout_size s =
     do { (m, head) \<leftarrow> FreeList_insert ptr (block_size layout_size) (phys s) (heap_head s);
          Some (s\<lparr>phys := m, heap_head := head\<rparr>) }"

text \<open>\<open>init\<close> panics when the initial heap does not fit.\<close>

definition kalloc_init :: "'a kheap_scheme \<Rightarrow> 'a kheap_scheme run" where
  "kalloc_init s =
     (case page_alloc INITIAL_HEAP_PAGES s of
        (None, s) \<Rightarrow> None
      | (Some mem, s) \<Rightarrow>
          do { (m, head) \<leftarrow> FreeList_insert mem (word_of_nat INITIAL_HEAP_PAGES * PAGE_SIZE) (phys s) (heap_head s);
               Some (s\<lparr>phys := m, heap_head := head\<rparr>) })"

section \<open>Headers of separate blocks\<close>

definition hdr_ok :: "usize \<Rightarrow> bool" where "hdr_ok p \<longleftrightarrow> unat p + 16 \<le> 2 ^ 64"

definition hdr_sep :: "usize \<Rightarrow> usize \<Rightarrow> bool" where
  "hdr_sep p q \<longleftrightarrow> unat p + 16 \<le> unat q \<or> unat q + 16 \<le> unat p"

lemma unat_hdr_next: "hdr_ok p \<Longrightarrow> unat (p + 8) = unat p + 8"
  using unat_add_no_wrap [of p 8] by (simp add: hdr_ok_def)

lemma hdr_same [simp]:
  "blk_size (set_size p v m) p = v" "blk_next (set_next p v m) p = v"
  by (simp_all add: blk_size_def set_size_def blk_next_def set_next_def)

lemma hdr_fields [simp]:
  assumes "hdr_ok p"
  shows "blk_size (set_next p v m) p = blk_size m p" "blk_next (set_size p v m) p = blk_next m p"
  using assms unat_hdr_next [OF assms]
  by (auto simp: blk_size_def set_size_def blk_next_def set_next_def hdr_ok_def intro!: load64_store64_sep)

lemma hdr_other [simp]:
  assumes "hdr_ok p" "hdr_ok q" "hdr_sep p q"
  shows "blk_size (set_size p v m) q = blk_size m q" "blk_next (set_size p v m) q = blk_next m q"
    "blk_size (set_next p v m) q = blk_size m q" "blk_next (set_next p v m) q = blk_next m q"
  using assms unat_hdr_next [OF assms(1)] unat_hdr_next [OF assms(2)]
  by (auto simp: blk_size_def set_size_def blk_next_def set_next_def hdr_ok_def hdr_sep_def
      intro!: load64_store64_sep)

lemma hdr_outside:
  assumes "hdr_ok p" and "unat x \<notin> {unat p..<unat p + 16}"
  shows "set_size p v m x = m x" "set_next p v m x = m x"
  using assms unat_hdr_next [OF assms(1)]
  by (auto simp: set_size_def set_next_def hdr_ok_def intro!: store64_outside)

section \<open>The abstract free list\<close>

type_synonym blocks = "(nat \<times> nat) list"

fun join :: "nat \<times> nat \<Rightarrow> blocks \<Rightarrow> blocks" where
  "join (a, s) [] = [(a, s)]"
| "join (a, s) ((b, t) # xs) = (if a + s = b then (a, s + t) # xs else (a, s) # (b, t) # xs)"

fun ins :: "nat \<Rightarrow> nat \<Rightarrow> blocks \<Rightarrow> blocks" where
  "ins a s [] = [(a, s)]"
| "ins a s ((b, t) # xs) = (if b < a then join (b, t) (ins a s xs) else join (a, s) ((b, t) # xs))"

definition fbytes :: "blocks \<Rightarrow> nat set" where
  "fbytes xs = (\<Union>(a, s) \<in> set xs. {a..<a + s})"

definition block_ok :: "nat \<Rightarrow> nat \<Rightarrow> bool" where
  "block_ok a s \<longleftrightarrow> 16 \<le> a \<and> 16 dvd a \<and> 16 \<le> s \<and> 16 dvd s \<and> a + s \<le> 2 ^ 63"

text \<open>Address-ordered, 16-byte granular, and coalesced: no two blocks touch.\<close>

fun fl_wf :: "blocks \<Rightarrow> bool" where
  "fl_wf [] \<longleftrightarrow> True"
| "fl_wf ((a, s) # xs) \<longleftrightarrow> block_ok a s \<and> (case xs of [] \<Rightarrow> True | (b, t) # _ \<Rightarrow> a + s < b) \<and> fl_wf xs"

lemma fbytes_simps [simp]:
  "fbytes [] = {}" "fbytes ((a, s) # xs) = {a..<a + s} \<union> fbytes xs"
  "fbytes (xs @ ys) = fbytes xs \<union> fbytes ys"
  by (auto simp: fbytes_def)

lemma fl_wf_later:
  assumes "fl_wf ((a, s) # xs)" and "(b, t) \<in> set xs"
  shows "a + s < b"
  using assms
proof (induction xs arbitrary: a s)
  case Nil
  then show ?case by simp
next
  case (Cons x xs)
  obtain c u where x: "x = (c, u)" by fastforce
  show ?case
  proof (cases "(b, t) = x")
    case True
    with Cons.prems x show ?thesis by simp
  next
    case False
    with Cons.prems have "(b, t) \<in> set xs" by simp
    with Cons.IH [of c u] Cons.prems x show ?thesis by simp
  qed
qed

lemma fl_wf_append:
  "fl_wf (xs @ ys) \<longleftrightarrow> fl_wf xs \<and> fl_wf ys \<and> (\<forall>(a, s) \<in> set xs. \<forall>(b, t) \<in> set ys. a + s < b)"
proof (induction xs)
  case Nil
  then show ?case by simp
next
  case (Cons x xs)
  obtain a s where x: "x = (a, s)" by fastforce
  have later: "fl_wf ((a, s) # zs) \<longleftrightarrow> block_ok a s \<and> fl_wf zs \<and> (\<forall>(b, t) \<in> set zs. a + s < b)" for zs
  proof
    assume "fl_wf ((a, s) # zs)"
    then show "block_ok a s \<and> fl_wf zs \<and> (\<forall>(b, t) \<in> set zs. a + s < b)"
      using fl_wf_later [of a s zs] by auto
  next
    assume "block_ok a s \<and> fl_wf zs \<and> (\<forall>(b, t) \<in> set zs. a + s < b)"
    then show "fl_wf ((a, s) # zs)" by (cases zs) auto
  qed
  show ?case
    unfolding x append_Cons later Cons.IH by auto
qed

lemma fl_wf_Cons:
  "fl_wf ((a, s) # xs) \<longleftrightarrow> block_ok a s \<and> fl_wf xs \<and> (\<forall>(b, t) \<in> set xs. a + s < b)"
  using fl_wf_append [of "[(a, s)]" xs] by simp

lemma fl_wf_block: "fl_wf xs \<Longrightarrow> (a, s) \<in> set xs \<Longrightarrow> block_ok a s"
  by (induction xs) (auto simp del: fl_wf.simps simp: fl_wf_Cons)

declare fl_wf.simps(2) [simp del]

text \<open>Joining a block in front of a list whose blocks all lie at or above its end.\<close>

lemma join_spec:
  assumes "fl_wf zs" and "block_ok b t" and "\<forall>(c, u) \<in> set zs. b + t \<le> c"
  shows "fl_wf (join (b, t) zs)" and "fbytes (join (b, t) zs) = {b..<b + t} \<union> fbytes zs"
    and "\<forall>(c, u) \<in> set (join (b, t) zs). b \<le> c"
proof -
  have "fl_wf (join (b, t) zs) \<and> fbytes (join (b, t) zs) = {b..<b + t} \<union> fbytes zs \<and>
    (\<forall>(c, u) \<in> set (join (b, t) zs). b \<le> c)"
  proof (cases zs)
    case Nil
    with assms(2) show ?thesis by (simp add: fl_wf_Cons)
  next
    case (Cons z xs)
    obtain c u where z: "z = (c, u)" by fastforce
    show ?thesis
    proof (cases "b + t = c")
      case True
      then have "block_ok b (t + u)" and "{b..<b + (t + u)} = {b..<b + t} \<union> {c..<c + u}"
        using assms Cons z by (auto simp: fl_wf_Cons block_ok_def)
      with True assms Cons z show ?thesis by (force simp: fl_wf_Cons)
    next
      case False
      with assms Cons z show ?thesis by (force simp: fl_wf_Cons)
    qed
  qed
  then show "fl_wf (join (b, t) zs)" and "fbytes (join (b, t) zs) = {b..<b + t} \<union> fbytes zs"
    and "\<forall>(c, u) \<in> set (join (b, t) zs). b \<le> c" by auto
qed

lemma disjoint_ranges:
  "0 < s \<Longrightarrow> 0 < t \<Longrightarrow> {a..<a + s} \<inter> {b..<b + t} = {} \<longleftrightarrow> a + s \<le> b \<or> b + t \<le> (a :: nat)"
  by (auto simp: disjoint_iff)

lemma ins_spec:
  assumes "fl_wf xs" and "block_ok a s" and "{a..<a + s} \<inter> fbytes xs = {}"
  shows "fl_wf (ins a s xs) \<and> fbytes (ins a s xs) = {a..<a + s} \<union> fbytes xs \<and>
    (\<forall>k. k \<le> a \<and> (\<forall>(b, t) \<in> set xs. k \<le> b) \<longrightarrow> (\<forall>(b, t) \<in> set (ins a s xs). k \<le> b))"
  using assms
proof (induction a s xs rule: ins.induct)
  case (1 a s)
  then show ?case by (simp add: fl_wf_Cons)
next
  case (2 a s b t xs)
  have wf: "block_ok b t" "fl_wf xs" "\<forall>(c, u) \<in> set xs. b + t < c"
    using 2(2) by (auto simp: fl_wf_Cons)
  have "{a..<a + s} \<inter> {b..<b + t} = {}" using 2(4) by (auto simp: Int_Un_distrib)
  then have apart: "a + s \<le> b \<or> b + t \<le> a"
    using 2(3) wf(1) by (auto simp: block_ok_def)
  show ?case
  proof (cases "b < a")
    case True
    with apart have "b + t \<le> a" using 2(3) by (auto simp: block_ok_def)
    moreover have "{a..<a + s} \<inter> fbytes xs = {}" using 2(4) by auto
    from 2(1) [OF True wf(2) 2(3) this] have IH: "fl_wf (ins a s xs)"
        "fbytes (ins a s xs) = {a..<a + s} \<union> fbytes xs"
        "\<And>k. k \<le> a \<Longrightarrow> \<forall>(b, t) \<in> set xs. k \<le> b \<Longrightarrow> \<forall>(b, t) \<in> set (ins a s xs). k \<le> b"
      by blast+
    moreover have "\<forall>(c, u) \<in> set xs. b + t \<le> c" using wf(3) by (auto intro: less_imp_le)
    ultimately have above: "\<forall>(c, u) \<in> set (ins a s xs). b + t \<le> c" by (intro IH(3))
    note J = join_spec [OF IH(1) wf(1) above]
    have "\<forall>(c, u) \<in> set (join (b, t) (ins a s xs)). k \<le> c"
      if "\<forall>(c, u) \<in> set ((b, t) # xs). k \<le> c" for k
      using J(3) that by (auto intro: order_trans)
    with J(1,2) IH(2) True show ?thesis by auto
  next
    case False
    with apart have "a + s \<le> b" using 2(3) wf(1) by (auto simp: block_ok_def)
    with wf(3) have above: "\<forall>(c, u) \<in> set ((b, t) # xs). a + s \<le> c" by (auto intro: order_trans less_imp_le)
    note J = join_spec [OF 2(2,3) above]
    have "\<forall>(c, u) \<in> set (join (a, s) ((b, t) # xs)). k \<le> c" if "k \<le> a" for k
      using J(3) that by (auto simp del: join.simps intro: order_trans)
    with J(1,2) False show ?thesis by (auto simp del: join.simps)
  qed
qed

lemma ins_wf:
  assumes "fl_wf xs" and "block_ok a s" and "{a..<a + s} \<inter> fbytes xs = {}"
  shows "fl_wf (ins a s xs)" and "fbytes (ins a s xs) = {a..<a + s} \<union> fbytes xs"
  using ins_spec [OF assms] by auto

text \<open>The shape of an insertion between the blocks below \<open>a\<close> and those above it.\<close>

lemma ins_split:
  assumes "\<forall>(c, u) \<in> set ys. c < a" and "zs = [] \<or> a \<le> fst (hd zs)"
  shows "ins a s (ys @ zs) = foldr join ys (join (a, s) zs)"
  using assms(1)
proof (induction ys)
  case Nil
  then show ?case using assms(2) by (cases zs) (auto split: prod.splits)
next
  case (Cons y ys)
  then show ?case by (cases y) auto
qed

lemma join_head: "fst (hd (join (a, s) zs)) = a \<and> join (a, s) zs \<noteq> []"
  by (cases "((a, s), zs)" rule: join.cases) auto

lemma join_no_merge: "zs = [] \<or> a + s < fst (hd zs) \<Longrightarrow> join (a, s) zs = (a, s) # zs"
  by (cases zs) (auto split: prod.splits)

lemma foldr_join_append:
  assumes "fl_wf (ys @ [(b, t)])" and "fst (hd ws) = b" and "ws \<noteq> []"
  shows "foldr join ys ws = ys @ ws"
  using assms(1)
proof (induction ys)
  case Nil
  then show ?case by simp
next
  case (Cons y ys)
  obtain c u where y: "y = (c, u)" by fastforce
  have IH: "foldr join ys ws = ys @ ws" using Cons by (simp add: y fl_wf_Cons)
  have "c + u < fst (hd (ys @ ws))"
    using Cons.prems assms(2,3) by (cases ys) (auto simp: y fl_wf_Cons)
  then show ?case by (simp add: IH y join_no_merge)
qed

section \<open>The chain of headers spells the abstract list\<close>

fun lseg :: "pmem \<Rightarrow> usize \<Rightarrow> blocks \<Rightarrow> usize \<Rightarrow> bool" where
  "lseg m p [] q \<longleftrightarrow> p = q"
| "lseg m p ((a, s) # xs) q \<longleftrightarrow> unat p = a \<and> unat (blk_size m p) = s \<and> lseg m (blk_next m p) xs q"

lemma lseg_append: "lseg m p (xs @ ys) q \<longleftrightarrow> (\<exists>r. lseg m p xs r \<and> lseg m r ys q)"
  by (induction xs arbitrary: p) auto

lemma lseg_keep:
  assumes "lseg m p xs q" and "hdr_ok b"
    and "\<forall>(a, s) \<in> set xs. a + 16 \<le> 2 ^ 64 \<and> (a + 16 \<le> unat b \<or> unat b + 16 \<le> a)"
  shows "lseg (set_size b v m) p xs q" and "lseg (set_next b v m) p xs q"
proof -
  have "lseg (set_size b v m) p xs q \<and> lseg (set_next b v m) p xs q"
    using assms(1,3)
  proof (induction xs arbitrary: p)
    case Nil
    then show ?case by simp
  next
    case (Cons x xs)
    obtain a s where x: "x = (a, s)" by fastforce
    with Cons.prems have "hdr_ok p" and "hdr_sep b p" by (auto simp: hdr_ok_def hdr_sep_def)
    with assms(2) Cons x show ?case by auto
  qed
  then show "lseg (set_size b v m) p xs q" and "lseg (set_next b v m) p xs q" by simp_all
qed

lemma insert_search_spec:
  assumes "lseg m cur xs 0" and "\<forall>(a, s) \<in> set xs. 0 < a"
    and "ys = takeWhile (\<lambda>b. fst b < unat addr) xs" and "zs = dropWhile (\<lambda>b. fst b < unat addr) xs"
  shows "\<exists>prev' cur'. insert_search m addr prev cur = Some (prev', cur') \<and>
     lseg m cur ys cur' \<and> lseg m cur' zs 0 \<and>
     (if ys = [] then prev' = prev else unat prev' = fst (last ys))"
  using assms
proof (induction xs arbitrary: prev cur ys)
  case Nil
  then show ?case by (auto simp: insert_search.simps)
next
  case (Cons x xs)
  obtain a s where x: "x = (a, s)" by fastforce
  with Cons.prems have a: "unat cur = a" "cur \<noteq> 0" by auto
  show ?case
  proof (cases "a < unat addr")
    case True
    then have lt: "cur < addr" by (simp add: word_less_nat_alt a)
    let ?ys = "takeWhile (\<lambda>b. fst b < unat addr) xs"
    have ys: "ys = x # ?ys" using True x Cons.prems(3) by simp
    have zs: "zs = dropWhile (\<lambda>b. fst b < unat addr) xs" using True x Cons.prems(4) by simp
    have "\<exists>prev' cur'. insert_search m addr cur (blk_next m cur) = Some (prev', cur') \<and>
      lseg m (blk_next m cur) ?ys cur' \<and> lseg m cur' zs 0 \<and>
      (if ?ys = [] then prev' = cur else unat prev' = fst (last ?ys))"
      using Cons.prems x by (intro Cons.IH) (auto simp: zs)
    with lt a Cons.prems x show ?thesis
      by (subst insert_search.simps) (auto simp: ys split: if_splits)
  next
    case False
    then have "\<not> cur < addr" by (simp add: word_less_nat_alt a)
    with False Cons.prems x show ?thesis by (subst insert_search.simps) auto
  qed
qed

text \<open>What each merge does, given a chain \<open>zs\<close> at or above the end of the block.\<close>

lemma block_ok_hdr: "block_ok (unat p) s \<Longrightarrow> hdr_ok p"
  by (simp add: block_ok_def hdr_ok_def)

lemma unat_add_small: "unat x + unat y < 2 ^ 64 \<Longrightarrow> unat (x + y :: usize) = unat x + unat y"
  by (simp add: unat_word_ariths)

lemma merge_forward_spec:
  assumes "lseg m cur zs 0" and "blk_size m addr = sz" and "blk_next m addr = cur"
    and "fl_wf zs" and ok: "block_ok (unat addr) (unat sz)"
    and above: "\<forall>(c, u) \<in> set zs. unat addr + unat sz \<le> c"
  shows "lseg (merge_forward addr sz cur m) addr (join (unat addr, unat sz) zs) 0"
proof (cases zs)
  case Nil
  with assms show ?thesis by (simp add: merge_forward_def)
next
  case (Cons z zs')
  obtain c u where z: "z = (c, u)" by fastforce
  have c: "unat cur = c" "unat (blk_size m cur) = u" "lseg m (blk_next m cur) zs' 0"
    using assms(1) Cons z by auto
  have cok: "block_ok c u" and later: "\<forall>(d, v) \<in> set zs'. c + u < d"
    using assms(4) Cons z by (auto simp: fl_wf_Cons)
  have sum: "unat (addr + sz) = unat addr + unat sz"
    using ok by (intro unat_add_small) (simp add: block_ok_def)
  then have iff: "addr + sz = cur \<longleftrightarrow> unat addr + unat sz = c"
    by (simp add: word_unat_eq_iff c)
  have cur0: "cur \<noteq> 0" using cok c(1) by (auto simp: block_ok_def)
  show ?thesis
  proof (cases "addr + sz = cur")
    case True
    have hok: "hdr_ok addr" "hdr_ok cur" "hdr_sep addr cur"
      using ok cok c(1) True iff by (auto simp: block_ok_def hdr_ok_def hdr_sep_def)
    have far: "\<forall>(d, v) \<in> set zs'. d + 16 \<le> 2 ^ 64 \<and> (d + 16 \<le> unat addr \<or> unat addr + 16 \<le> d)"
    proof clarify
      fix d v assume d: "(d, v) \<in> set zs'"
      with assms(4) Cons have "block_ok d v" by (intro fl_wf_block [of zs]) auto
      with d later ok above cok Cons z True iff
      show "d + 16 \<le> 2 ^ 64 \<and> (d + 16 \<le> unat addr \<or> unat addr + 16 \<le> d)"
        by (fastforce simp: block_ok_def)
    qed
    have "unat (sz + blk_size m cur) = unat sz + u"
      using ok cok c True iff by (subst unat_add_small) (auto simp: block_ok_def)
    then show ?thesis
      using True cur0 iff c hok assms(2) Cons z lseg_keep [OF c(3) hok(1) far]
      by (simp add: merge_forward_def Let_def lseg_keep [OF _ hok(1) far])
  next
    case False
    with assms Cons z iff c show ?thesis by (simp add: merge_forward_def)
  qed
qed

lemma merge_backward_spec:
  assumes low: "lseg m head (ys @ [(unat prev, t)]) cur" and high: "lseg m addr ((unat addr, s) # ws) 0"
    and wf: "fl_wf (ys @ [(unat prev, t)])" "fl_wf ((unat addr, s) # ws)"
    and below: "\<forall>(c, u) \<in> set (ys @ [(unat prev, t)]). c + u \<le> unat addr"
    and res: "merge_backward prev addr m head = (m', head')"
  shows "lseg m' head' (ys @ join (unat prev, t) ((unat addr, s) # ws)) 0"
proof -
  have p: "unat (blk_size m prev) = t" "lseg m head ys prev"
    using low by (auto simp: lseg_append simp flip: word_unat_eq_iff)
  have a: "unat (blk_size m addr) = s" "lseg m (blk_next m addr) ws 0"
    using high by auto
  have oks: "block_ok (unat prev) t" "block_ok (unat addr) s"
    using wf by (auto simp: fl_wf_append fl_wf_Cons)
  have le: "unat prev + t \<le> unat addr" using below by auto
  have hok: "hdr_ok prev" "hdr_ok addr" "hdr_sep prev addr" "prev \<noteq> 0"
    using oks le by (auto simp: block_ok_def hdr_ok_def hdr_sep_def)
  have far: "c + 16 \<le> 2 ^ 64 \<and> (c + 16 \<le> unat prev \<or> unat prev + 16 \<le> c)"
    if mem: "(c, u) \<in> set ys \<union> set ((unat addr, s) # ws)" for c u
  proof -
    have cok: "block_ok c u" using mem wf fl_wf_block fl_wf_append by blast
    consider "c + u < unat prev" | "unat addr \<le> c"
      using mem wf by (fastforce simp: fl_wf_append fl_wf_Cons)
    then show ?thesis using cok oks le by cases (auto simp: block_ok_def)
  qed
  have far_ys: "\<forall>(c, u) \<in> set ys. c + 16 \<le> 2 ^ 64 \<and> (c + 16 \<le> unat prev \<or> unat prev + 16 \<le> c)"
    and far_ws: "\<forall>(c, u) \<in> set ws. c + 16 \<le> 2 ^ 64 \<and> (c + 16 \<le> unat prev \<or> unat prev + 16 \<le> c)"
    using far by (blast, force)
  note kys = lseg_keep [OF _ hok(1) far_ys] and kws = lseg_keep [OF _ hok(1) far_ws]
  have sum: "unat (prev + blk_size m prev) = unat prev + t"
    using oks p(1) by (subst unat_add_small) (auto simp: block_ok_def)
  show ?thesis
  proof (cases "prev + blk_size m prev = addr")
    case True
    then have eq: "unat prev + t = unat addr" using sum by simp
    have "unat (blk_size m prev + blk_size m addr) = t + s"
      using oks p(1) a(1) eq by (subst unat_add_small) (auto simp: block_ok_def)
    moreover have m': "m' = set_next prev (blk_next m addr) (set_size prev (blk_size m prev + blk_size m addr) m)"
      "head' = head"
      using True res hok by (simp_all add: merge_backward_def Let_def)
    moreover have "lseg m' head ys prev" "lseg m' (blk_next m addr) ws 0"
      by (simp_all add: m' kys kws p a)
    ultimately show ?thesis
      using hok eq by (auto simp: lseg_append intro!: exI [of _ prev])
  next
    case False
    then have "unat prev + t \<noteq> unat addr" using sum by (metis word_unat_eq_iff)
    moreover have "m' = set_next prev addr m" "head' = head"
      using False res hok by (auto simp: merge_backward_def)
    moreover have "lseg m' head ys prev" "lseg m' (blk_next m addr) ws 0"
      by (simp_all add: calculation kys kws p a)
    ultimately show ?thesis
      using hok a p by (auto simp: lseg_append intro!: exI [of _ prev])
  qed
qed

lemma merge_forward_keep:
  assumes "lseg m head ys cur" and "hdr_ok addr"
    and "\<forall>(a, s) \<in> set ys. a + 16 \<le> 2 ^ 64 \<and> (a + 16 \<le> unat addr \<or> unat addr + 16 \<le> a)"
  shows "lseg (merge_forward addr sz c m) head ys cur"
  using assms by (auto simp: merge_forward_def Let_def intro!: lseg_keep)

lemma merge_outside:
  assumes "hdr_ok addr" and "unat x \<notin> {unat addr..<unat addr + 16}"
  shows "merge_forward addr sz cur m x = m x"
    and "prev = 0 \<or> hdr_ok prev \<and> unat x \<notin> {unat prev..<unat prev + 16} \<Longrightarrow>
      fst (merge_backward prev addr m head) x = m x"
  using assms by (auto simp: merge_forward_def merge_backward_def Let_def hdr_outside)

lemma ins_shape:
  assumes wf: "fl_wf (ys @ zs)" and ok: "block_ok a s" and dis: "{a..<a + s} \<inter> fbytes (ys @ zs) = {}"
    and low: "\<forall>(c, u) \<in> set ys. c < a" and high: "zs = [] \<or> a \<le> fst (hd zs)"
  shows "\<forall>(c, u) \<in> set ys. c + u \<le> a" and "\<forall>(c, u) \<in> set zs. a + s \<le> c"
    and "fl_wf (join (a, s) zs)" and "fst (hd (join (a, s) zs)) = a" and "join (a, s) zs \<noteq> []"
    and "ys = [] \<Longrightarrow> ins a s (ys @ zs) = join (a, s) zs"
    and "ys = ys' @ [(b, t)] \<Longrightarrow> ins a s (ys @ zs) = ys' @ join (b, t) (join (a, s) zs)"
proof -
  have block: "(c, u) \<in> set (ys @ zs) \<Longrightarrow> block_ok c u \<and> (a + s \<le> c \<or> c + u \<le> a)" for c u
  proof -
    assume c: "(c, u) \<in> set (ys @ zs)"
    then have cok: "block_ok c u" using wf fl_wf_block by blast
    moreover have "{c..<c + u} \<subseteq> fbytes (ys @ zs)"
      unfolding fbytes_def using UN_upper [OF c, of "\<lambda>(a, s). {a..<a + s}"] by simp
    then have "{a..<a + s} \<inter> {c..<c + u} = {}"
      using dis by blast
    ultimately show ?thesis using ok by (auto simp: block_ok_def)
  qed
  show 1: "\<forall>(c, u) \<in> set ys. c + u \<le> a"
  proof clarify
    fix c u assume "(c, u) \<in> set ys"
    with block [of c u] low show "c + u \<le> a" by auto
  qed
  show 2: "\<forall>(c, u) \<in> set zs. a + s \<le> c"
  proof clarify
    fix c u assume c: "(c, u) \<in> set zs"
    then obtain d v zs' where zs: "zs = (d, v) # zs'" by (cases zs) auto
    with wf c have "d \<le> c" by (fastforce simp: fl_wf_append fl_wf_Cons)
    with high zs have "a \<le> c" by simp
    with block [of c u] c ok show "a + s \<le> c" by (auto simp: block_ok_def)
  qed
  show 3: "fl_wf (join (a, s) zs)" using wf ok 2 by (intro join_spec) (auto simp: fl_wf_append)
  show 4: "fst (hd (join (a, s) zs)) = a" "join (a, s) zs \<noteq> []"
    using join_head by auto
  have ins: "ins a s (ys @ zs) = foldr join ys (join (a, s) zs)" by (rule ins_split [OF low high])
  then show "ys = [] \<Longrightarrow> ins a s (ys @ zs) = join (a, s) zs" by simp
  assume ys: "ys = ys' @ [(b, t)]"
  then have "fl_wf (ys' @ [(b, t)])" using wf by (auto simp: fl_wf_append fl_wf_Cons)
  moreover have "fst (hd (join (b, t) (join (a, s) zs))) = b" "join (b, t) (join (a, s) zs) \<noteq> []"
    using join_head by auto
  ultimately show "ins a s (ys @ zs) = ys' @ join (b, t) (join (a, s) zs)"
    using ins ys by (simp add: foldr_join_append)
qed

lemma FreeList_insert_spec:
  assumes seg: "lseg m head xs 0" and wf: "fl_wf xs" and ok: "block_ok (unat addr) (unat sz)"
    and dis: "{unat addr..<unat addr + unat sz} \<inter> fbytes xs = {}"
  obtains m' head' where "FreeList_insert addr sz m head = Some (m', head')"
    and "lseg m' head' (ins (unat addr) (unat sz) xs) 0"
    and "\<And>x. unat x \<notin> fbytes xs \<union> {unat addr..<unat addr + unat sz} \<Longrightarrow> m' x = m x"
proof -
  define ys where "ys = takeWhile (\<lambda>b. fst b < unat addr) xs"
  define zs where "zs = dropWhile (\<lambda>b. fst b < unat addr) xs"
  have xs: "xs = ys @ zs" by (simp add: ys_def zs_def)
  have low: "\<forall>(c, u) \<in> set ys. c < unat addr" by (auto simp: ys_def dest: set_takeWhileD)
  have high: "zs = [] \<or> unat addr \<le> fst (hd zs)"
    using hd_dropWhile [of "\<lambda>b. fst b < unat addr" xs] unfolding zs_def linorder_not_less by blast
  have pos: "\<forall>(a, s) \<in> set xs. 0 < a"
    using fl_wf_block [OF wf] by (fastforce simp: block_ok_def)
  obtain prev cur where search: "insert_search m addr 0 head = Some (prev, cur)"
    and seg1: "lseg m head ys cur" "lseg m cur zs 0"
    and prev: "if ys = [] then prev = 0 else unat prev = fst (last ys)"
    using insert_search_spec [OF seg pos ys_def zs_def, of 0] by blast
  note shape = ins_shape [OF wf [unfolded xs] ok dis [unfolded xs] low high]
  have hok: "hdr_ok addr" using ok by (rule block_ok_hdr)
  have far: "c + 16 \<le> 2 ^ 64 \<and> (c + 16 \<le> unat addr \<or> unat addr + 16 \<le> c)"
    if "(c, u) \<in> set ys \<union> set zs" for c u
    using that shape(1,2) ok fl_wf_block [OF wf, of c u] by (fastforce simp: xs block_ok_def)
  define m1 where "m1 = set_next addr cur (set_size addr sz m)"
  define m2 where "m2 = merge_forward addr sz cur m1"
  have hdr: "blk_size m1 addr = sz" "blk_next m1 addr = cur" using hok by (simp_all add: m1_def)
  have seg_low: "lseg m2 head ys cur"
    unfolding m2_def m1_def using seg1(1) far hok by (intro merge_forward_keep lseg_keep) auto
  have "lseg m1 cur zs 0"
    unfolding m1_def using seg1(2) far hok by (intro lseg_keep) auto
  then have seg_high: "lseg m2 addr (join (unat addr, unat sz) zs) 0"
    unfolding m2_def using hdr ok shape(2) wf
    by (intro merge_forward_spec) (auto simp: xs fl_wf_append)
  obtain m' head' where bk: "merge_backward prev addr m2 head = (m', head')" by fastforce
  have res: "FreeList_insert addr sz m head = Some (m', head')"
    by (simp add: FreeList_insert_def search Let_def bk flip: m1_def m2_def)
  have out: "m' x = m x" if x: "unat x \<notin> fbytes xs \<union> {unat addr..<unat addr + unat sz}" for x
  proof -
    have xa: "unat x \<notin> {unat addr..<unat addr + 16}" using x ok by (auto simp: block_ok_def)
    have "prev = 0 \<or> hdr_ok prev \<and> unat x \<notin> {unat prev..<unat prev + 16}"
    proof (cases "ys = []")
      case False
      then obtain t where last: "(unat prev, t) \<in> set xs" using prev xs
        by (metis Un_iff last_in_set prod.collapse set_append)
      then have "block_ok (unat prev) t" and "{unat prev..<unat prev + t} \<subseteq> fbytes xs"
        using wf fl_wf_block by (auto simp: fbytes_def)
      moreover from this(2) x have "unat x \<notin> {unat prev..<unat prev + t}" by blast
      ultimately show ?thesis by (auto simp: block_ok_def hdr_ok_def)
    qed (use prev in simp)
    then show ?thesis
      using merge_outside [OF hok xa] hdr_outside [OF hok xa] bk by (metis fst_conv m1_def m2_def)
  qed
  have "lseg m' head' (ins (unat addr) (unat sz) xs) 0"
  proof (cases ys rule: rev_cases)
    case Nil
    with prev bk seg_high shape(6) xs show ?thesis by (auto simp: merge_backward_def)
  next
    case (snoc ys' y)
    then have y: "y = (unat prev, snd y)" using prev by (simp add: prod_eq_iff)
    obtain s ws where J: "join (unat addr, unat sz) zs = (unat addr, s) # ws"
      using shape(4,5) by (metis list.collapse prod.collapse)
    have "lseg m' head' (ys' @ join (unat prev, snd y) ((unat addr, s) # ws)) 0"
      using seg_low seg_high shape(1,3) wf bk y
      by (intro merge_backward_spec) (auto simp: J snoc [folded y] xs fl_wf_append fl_wf_Cons simp flip: y)
    moreover have "ins (unat addr) (unat sz) xs = ys' @ join (unat prev, snd y) ((unat addr, s) # ws)"
      using shape(7) [of ys' "unat prev" "snd y"] snoc xs y J by simp
    ultimately show ?thesis by simp
  qed
  from res this out show thesis by (rule that)
qed

section \<open>Alignment\<close>

text \<open>The first multiple of \<open>al\<close> at or above \<open>a\<close>, and whether \<open>n\<close> bytes fit from there.\<close>

definition aup :: "nat \<Rightarrow> nat \<Rightarrow> nat" where "aup a al = (a + al - 1) div al * al"

definition fits :: "nat \<Rightarrow> nat \<Rightarrow> nat \<times> nat \<Rightarrow> bool" where
  "fits n al b \<longleftrightarrow> aup (fst b) al - fst b + n \<le> snd b"

lemma aup_bounds: "0 < al \<Longrightarrow> a \<le> aup a al" "0 < al \<Longrightarrow> aup a al < a + al" "al dvd aup a al"
proof -
  assume al: "0 < al"
  define q where "q = (a + al - 1) div al"
  have "q * al + (a + al - 1) mod al = a + al - 1" by (simp add: q_def)
  moreover have "(a + al - 1) mod al < al" using al by simp
  ultimately show "a \<le> aup a al" "aup a al < a + al" 
    using al by (auto simp only: aup_def q_def [symmetric])
next
  show "al dvd aup a al" by (simp add: aup_def)
qed

lemma unat_pow2: "k < 64 \<Longrightarrow> unat (2 ^ k :: usize) = 2 ^ k"
  using unat_word_of_nat_less [of "2 ^ k"] power_strict_increasing [of k 64 "2 :: nat"] by simp

lemma unat_and_not_mask:
  assumes "k < 64"
  shows "unat (a AND NOT (2 ^ k - 1) :: usize) = unat a div 2 ^ k * 2 ^ k"
proof -
  have split: "a AND NOT (mask k) = push_bit k (drop_bit k a)"
    by (rule bit_word_eqI) (auto simp: bit_simps)
  have "(a AND NOT (mask k)) + take_bit k a = a"
    unfolding split by (rule bits_ident)
  then have "(a AND NOT (2 ^ k - 1)) + take_bit k a = a"
    by (simp only: mask_eq_exp_minus_1)
  then have eq: "a AND NOT (2 ^ k - 1) = a - take_bit k a" by (simp add: eq_diff_eq)
  have tb: "unat (take_bit k a) = unat a mod 2 ^ k"
    by (simp only: unsigned_take_bit_eq) (simp add: take_bit_eq_mod)
  then have "take_bit k a \<le> a" by (simp add: word_le_nat_alt)
  with eq tb show ?thesis by (simp add: unat_sub minus_mod_eq_div_mult)
qed

text \<open>
  The sizes and alignments that reach the free list: what \<open>core::alloc::Layout\<close> guarantees
  (a power of two, and a size that stays below \<open>isize::MAX\<close> when rounded up to it), after
  \<open>block_size\<close> and the minimum alignment.
\<close>

definition req_ok :: "usize \<Rightarrow> usize \<Rightarrow> bool" where
  "req_ok sz align \<longleftrightarrow> 16 \<le> unat sz \<and> 16 dvd unat sz \<and>
     (\<exists>k. 4 \<le> k \<and> k < 63 \<and> align = 2 ^ k) \<and> unat align \<le> 2 ^ 63 \<and> unat sz + unat align \<le> 2 ^ 63 + 16"

lemma req_ok_align:
  assumes "req_ok sz align"
  shows "0 < unat align" and "16 dvd unat align" and "unat align \<le> 2 ^ 63"
proof -
  from assms obtain k where k: "4 \<le> k" "k < 63" "align = 2 ^ k" by (auto simp: req_ok_def)
  then have al: "unat align = 2 ^ k" by (simp add: unat_pow2)
  then show "0 < unat align" by simp
  have "(2 :: nat) ^ 4 dvd 2 ^ k" using k(1) by (rule le_imp_power_dvd)
  with al show "16 dvd unat align" by simp
  show "unat align \<le> 2 ^ 63" using assms by (simp add: req_ok_def)
qed

lemma unat_align_up:
  assumes "req_ok sz align" and "unat start \<le> 2 ^ 63"
  shows "unat (align_up start align) = aup (unat start) (unat align)"
proof -
  from assms(1) obtain k where k: "4 \<le> k" "k < 63" "align = 2 ^ k" by (auto simp: req_ok_def)
  then have al: "unat align = 2 ^ k" by (simp add: unat_pow2)
  have lt: "(2 :: nat) ^ k < 2 ^ 63" using k(2) by (rule power_strict_increasing) simp
  have "align \<noteq> 0" using al by auto
  then have "unat (align - 1) = 2 ^ k - 1" using al by (simp add: unat_minus_one)
  moreover from this have "unat (start + (align - 1)) = unat start + unat (align - 1)"
    using assms(2) lt by (intro unat_add_small) simp
  ultimately have "unat (start + (align - 1)) = unat start + 2 ^ k - 1" by simp
  then show ?thesis
    using k(2) by (simp add: align_up_def aup_def al add_diff_eq k(3) unat_and_not_mask unat_pow2)
qed

lemma unat_pad:
  assumes "req_ok sz align" and "unat start \<le> 2 ^ 63"
  shows "unat (align_up start align - start) = aup (unat start) (unat align) - unat start"
proof -
  have "unat start \<le> unat (align_up start align)"
    using unat_align_up [OF assms] aup_bounds(1) req_ok_align(1) [OF assms(1)] by simp
  then show ?thesis using unat_align_up [OF assms] by (simp add: unat_sub word_le_nat_alt)
qed

lemma fits_iff:
  assumes "req_ok sz align" and "unat cur \<le> 2 ^ 63" 
  shows "align_up cur align - cur + sz \<le> blk_size m cur \<longleftrightarrow>
    fits (unat sz) (unat align) (unat cur, unat (blk_size m cur))"
proof -
  have pad: "unat (align_up cur align - cur) < unat align"
    using unat_pad [OF assms] aup_bounds(2) [OF req_ok_align(1) [OF assms(1)], of "unat cur"]
      req_ok_align(1) [OF assms(1)] by linarith
  then have "unat (align_up cur align - cur + sz) = unat (align_up cur align - cur) + unat sz"
    using assms(1) by (intro unat_add_small) (simp add: req_ok_def)
  then show ?thesis
    using unat_pad [OF assms] by (simp add: fits_def word_le_nat_alt)
qed

section \<open>Allocation from the free list\<close>

lemma take_search_spec:
  assumes "lseg m cur xs 0" and "\<forall>(a, t) \<in> set xs. block_ok a t" and req: "req_ok sz align"
  shows "if \<forall>b \<in> set xs. \<not> fits (unat sz) (unat align) b
    then take_search m sz align prev cur = Some None
    else \<exists>ys a t zs prev' cur'. xs = ys @ (a, t) # zs \<and> fits (unat sz) (unat align) (a, t) \<and>
      take_search m sz align prev cur = Some (Some (prev', cur')) \<and> unat cur' = a \<and>
      lseg m cur ys cur' \<and> unat (blk_size m cur') = t \<and> lseg m (blk_next m cur') zs 0 \<and>
      (if ys = [] then prev' = prev else unat prev' = fst (last ys))"
  using assms(1,2)
proof (induction xs arbitrary: prev cur)
  case Nil
  then show ?case by (simp add: take_search.simps)
next
  case (Cons x xs)
  obtain a t where x: "x = (a, t)" by fastforce
  have c: "unat cur = a" "unat (blk_size m cur) = t" "lseg m (blk_next m cur) xs 0"
    and ok: "block_ok a t" using Cons.prems x by auto
  have c0: "cur \<noteq> 0" "unat cur \<le> 2 ^ 63" using c(1) ok by (auto simp: block_ok_def)
  note fit = fits_iff [OF req c0(2), of m, unfolded c(1,2)]
  show ?case
  proof (cases "fits (unat sz) (unat align) x")
    case True
    then have "take_search m sz align prev cur = Some (Some (prev, cur))"
      using c0 fit x by (simp add: take_search.simps)
    with True c x show ?thesis by (auto intro!: exI [of _ "[]"])
  next
    case False
    then have step: "take_search m sz align prev cur = take_search m sz align cur (blk_next m cur)"
      using c0 fit x by (subst take_search.simps) simp
    have IH: "if \<forall>b \<in> set xs. \<not> fits (unat sz) (unat align) b
      then take_search m sz align cur (blk_next m cur) = Some None
      else \<exists>ys a t zs prev' cur'. xs = ys @ (a, t) # zs \<and> fits (unat sz) (unat align) (a, t) \<and>
        take_search m sz align cur (blk_next m cur) = Some (Some (prev', cur')) \<and> unat cur' = a \<and>
        lseg m (blk_next m cur) ys cur' \<and> unat (blk_size m cur') = t \<and> lseg m (blk_next m cur') zs 0 \<and>
        (if ys = [] then prev' = cur else unat prev' = fst (last ys))"
      using Cons.prems(2) by (intro Cons.IH c(3)) auto
    show ?thesis
    proof (cases "\<forall>b \<in> set xs. \<not> fits (unat sz) (unat align) b")
      case True
      with IH False step show ?thesis by simp
    next
      case some: False
      with IH obtain ys a' t' zs prev' cur' where *: "xs = ys @ (a', t') # zs"
        "fits (unat sz) (unat align) (a', t')"
        "take_search m sz align cur (blk_next m cur) = Some (Some (prev', cur'))" "unat cur' = a'"
        "lseg m (blk_next m cur) ys cur'" "unat (blk_size m cur') = t'" "lseg m (blk_next m cur') zs 0"
        "if ys = [] then prev' = cur else unat prev' = fst (last ys)" by auto
      have "\<exists>ys a t zs prev' cur'. x # xs = ys @ (a, t) # zs \<and> fits (unat sz) (unat align) (a, t) \<and>
        take_search m sz align prev cur = Some (Some (prev', cur')) \<and> unat cur' = a \<and>
        lseg m cur ys cur' \<and> unat (blk_size m cur') = t \<and> lseg m (blk_next m cur') zs 0 \<and>
        (if ys = [] then prev' = prev else unat prev' = fst (last ys))"
        by (rule exI [of _ "x # ys"], rule exI [of _ a'], rule exI [of _ t'], rule exI [of _ zs],
            rule exI [of _ prev'], rule exI [of _ cur']) (use * step c x in \<open>auto split: if_splits\<close>)
      then show ?thesis using some by (subst if_not_P) auto
    qed
  qed
qed

text \<open>Unlinking the block after \<open>prev\<close>.\<close>

lemma unlink_spec:
  assumes seg: "lseg m head ys cur" "lseg m next zs 0" and wf: "fl_wf (ys @ zs)"
    and prev: "if ys = [] then prev = 0 else unat prev = fst (last ys)"
    and res: "(m', head') = (if prev = 0 then (m, next) else (set_next prev next m, head))"
  shows "lseg m' head' (ys @ zs) 0" and "unat x \<notin> fbytes ys \<Longrightarrow> m' x = m x"
proof -
  have "lseg m' head' (ys @ zs) 0 \<and> (unat x \<notin> fbytes ys \<longrightarrow> m' x = m x)"
  proof (cases ys rule: rev_cases)
    case Nil
    with assms show ?thesis by auto
  next
    case (snoc ys' y)
    then have y: "y = (unat prev, snd y)" using prev by (simp add: prod_eq_iff)
    then obtain t where ys: "ys = ys' @ [(unat prev, t)]" using snoc by metis
    have p: "lseg m head ys' prev" "unat (blk_size m prev) = t"
      using seg(1) by (auto simp: ys lseg_append simp flip: word_unat_eq_iff)
    have pok: "block_ok (unat prev) t" using wf by (auto simp: ys fl_wf_append fl_wf_Cons)
    then have hok: "hdr_ok prev" and p0: "prev \<noteq> 0" by (auto simp: block_ok_def hdr_ok_def)
    have far: "c + 16 \<le> 2 ^ 64 \<and> (c + 16 \<le> unat prev \<or> unat prev + 16 \<le> c)"
      if "(c, u) \<in> set ys' \<union> set zs" for c u
    proof -
      have "block_ok c u" using that by (intro fl_wf_block [OF wf]) (auto simp: ys)
      moreover have "c + u < unat prev \<or> unat prev + t < c"
        using that wf by (force simp: ys fl_wf_append fl_wf_Cons)
      ultimately show ?thesis using pok by (auto simp: block_ok_def)
    qed
    have m': "m' = set_next prev next m" "head' = head" using res p0 by auto
    have "lseg m' head ys' prev" "lseg m' next zs 0"
      unfolding m'(1) by (rule lseg_keep(2) [OF p(1) hok], use far in blast,
        rule lseg_keep(2) [OF seg(2) hok], use far in blast)
    moreover have "unat x \<notin> fbytes ys \<Longrightarrow> m' x = m x"
      using pok by (auto simp: ys m'(1) block_ok_def intro!: hdr_outside(2) [OF hok])
    ultimately show ?thesis
      using p hok by (auto simp: ys lseg_append m' intro!: exI [of _ prev])
  qed
  then show "lseg m' head' (ys @ zs) 0" and "unat x \<notin> fbytes ys \<Longrightarrow> m' x = m x" by simp_all
qed

text \<open>Giving back what is left of a split block, when anything is left.\<close>

lemma give_back_spec:
  assumes "lseg m head xs 0" and "fl_wf xs" and "sz = 0 \<or> block_ok (unat addr) (unat sz)"
    and "{unat addr..<unat addr + unat sz} \<inter> fbytes xs = {}"
  obtains m' head' xs' where
    "(if 0 < sz then FreeList_insert addr sz m head else Some (m, head)) = Some (m', head')"
    and "lseg m' head' xs' 0" and "fl_wf xs'"
    and "fbytes xs' = {unat addr..<unat addr + unat sz} \<union> fbytes xs"
    and "\<And>x. unat x \<notin> {unat addr..<unat addr + unat sz} \<union> fbytes xs \<Longrightarrow> m' x = m x"
proof (cases "sz = 0")
  case True
  with assms that [of m head xs] show thesis by simp
next
  case False
  then have pos: "0 < sz" by (simp add: word_greater_zero_iff)
  from False assms(3) have ok: "block_ok (unat addr) (unat sz)" by simp
  obtain m' head' where "FreeList_insert addr sz m head = Some (m', head')"
    and "lseg m' head' (ins (unat addr) (unat sz) xs) 0"
    and "\<And>x. unat x \<notin> fbytes xs \<union> {unat addr..<unat addr + unat sz} \<Longrightarrow> m' x = m x"
    using FreeList_insert_spec [OF assms(1,2) ok assms(4)] by blast
  with pos ins_wf [OF assms(2) ok assms(4)] that [of m' head'] show thesis by (simp add: Un_commute)
qed

lemma FreeList_take_none:
  assumes "lseg m head xs 0" and "fl_wf xs" and "req_ok sz align"
    and "\<forall>b \<in> set xs. \<not> fits (unat sz) (unat align) b"
  shows "FreeList_take sz align m head = Some (0, m, head)"
proof -
  have "\<forall>(a, t) \<in> set xs. block_ok a t" using assms(2) fl_wf_block by auto
  with take_search_spec [OF assms(1) this assms(3), of 0] assms(4) show ?thesis
    by (simp add: FreeList_take_def)
qed

lemma split_block:
  assumes req: "req_ok sz align" and ok: "block_ok (unat cur) t" and fit: "fits (unat sz) (unat align) (unat cur, t)"
    and size: "unat tot = t"
  defines "al \<equiv> align_up cur align"
  defines "tail \<equiv> tot - (al - cur) - sz"
  shows "unat al = aup (unat cur) (unat align)"
    and "unat cur \<le> unat al" and "unat (al - cur) = unat al - unat cur"
    and "unat (al + sz) = unat al + unat sz"
    and "unat tail = t - (unat al - unat cur) - unat sz" and "unat al + unat sz + unat tail = unat cur + t"
    and "al - cur = 0 \<or> block_ok (unat cur) (unat (al - cur))"
    and "tail = 0 \<or> block_ok (unat (al + sz)) (unat tail)"
proof -
  have c63: "unat cur \<le> 2 ^ 63" using ok by (simp add: block_ok_def)
  note al0 = req_ok_align(1) [OF req]
  show 1: "unat al = aup (unat cur) (unat align)" unfolding al_def by (rule unat_align_up [OF req c63])
  show 2: "unat cur \<le> unat al" using aup_bounds(1) [OF al0] 1 by simp
  show 3: "unat (al - cur) = unat al - unat cur" using 2 by (simp add: unat_sub word_le_nat_alt)
  have fit': "unat al - unat cur + unat sz \<le> t" using fit 1 by (simp add: fits_def)
  have "unat al + unat sz \<le> unat cur + t" using fit' 2 by linarith
  with ok have "unat al + unat sz < 2 ^ 64" by (simp add: block_ok_def)
  then show 4: "unat (al + sz) = unat al + unat sz" by (rule unat_add_small)
  have "unat (tot - (al - cur)) = t - (unat al - unat cur)"
    using fit' 3 size by (subst unat_sub) (simp_all add: word_le_nat_alt)
  then show 5: "unat tail = t - (unat al - unat cur) - unat sz"
    unfolding tail_def using fit' by (subst unat_sub) (simp_all add: word_le_nat_alt)
  show 6: "unat al + unat sz + unat tail = unat cur + t" using 5 fit' 2 by simp
  have dvd: "16 dvd unat al" "16 dvd unat cur" "16 dvd t" "16 dvd unat sz"
    using 1 aup_bounds(3) [of "unat align" "unat cur"] req_ok_align(2) [OF req] ok req
    by (auto simp: block_ok_def req_ok_def intro: dvd_trans)
  then have dvd': "16 dvd unat al - unat cur" "16 dvd unat tail"
    by (simp_all add: 5 dvd_diff_nat)
  have le: "16 dvd n \<Longrightarrow> n \<noteq> 0 \<Longrightarrow> 16 \<le> n" for n :: nat by (rule dvd_imp_le) simp_all
  show "al - cur = 0 \<or> block_ok (unat cur) (unat (al - cur))"
    using le [OF dvd'(1)] dvd' ok fit' 2 3
    by (auto simp: block_ok_def word_unat_eq_iff)
  show "tail = 0 \<or> block_ok (unat (al + sz)) (unat tail)"
    using le [OF dvd'(2)] dvd' dvd ok 2 4 6
    by (auto simp: block_ok_def unsigned_eq_0_iff)
qed

lemma FreeList_take_some:
  assumes seg: "lseg m head xs 0" and wf: "fl_wf xs" and req: "req_ok sz align"
    and fit: "b \<in> set xs" "fits (unat sz) (unat align) b"
  obtains p m' head' xs' where "FreeList_take sz align m head = Some (p, m', head')"
    and "p \<noteq> 0" and "unat align dvd unat p" and "{unat p..<unat p + unat sz} \<subseteq> fbytes xs"
    and "lseg m' head' xs' 0" and "fl_wf xs'"
    and "fbytes xs' = fbytes xs - {unat p..<unat p + unat sz}"
    and "\<And>x. unat x \<notin> fbytes xs \<Longrightarrow> m' x = m x"
proof -
  have all: "\<forall>(a, t) \<in> set xs. block_ok a t" using wf fl_wf_block by auto
  have "\<not> (\<forall>b \<in> set xs. \<not> fits (unat sz) (unat align) b)" using fit by blast
  from take_search_spec [OF seg all req, of 0, unfolded if_not_P [OF this]]
  obtain ys a t zs prev cur where xs: "xs = ys @ (a, t) # zs"
    and fita: "fits (unat sz) (unat align) (a, t)"
    and search: "take_search m sz align 0 head = Some (Some (prev, cur))" and a: "unat cur = a"
    and segs: "lseg m head ys cur" "unat (blk_size m cur) = t" "lseg m (blk_next m cur) zs 0"
    and prev: "if ys = [] then prev = 0 else unat prev = fst (last ys)"
    by blast
  define p where "p = align_up cur align"
  define tail where "tail = blk_size m cur - (p - cur) - sz"
  have ok: "block_ok (unat cur) t" using wf a by (auto simp: xs fl_wf_append fl_wf_Cons)
  note split = split_block [OF req ok fita [folded a] segs(2), folded p_def, folded tail_def]
  have wf1: "fl_wf (ys @ zs)" using wf by (auto simp: xs fl_wf_append fl_wf_Cons)
  have apart: "{a..<a + t} \<inter> fbytes (ys @ zs) = {}"
    using wf by (fastforce simp: xs fl_wf_append fl_wf_Cons fbytes_def simp del: fbytes_simps)
  obtain m1 head1 where u: "(m1, head1) =
      (if prev = 0 then (m, blk_next m cur) else (set_next prev (blk_next m cur) m, head))"
    by (metis surj_pair)
  note un = unlink_spec [OF segs(1,3) wf1 prev u]
  have part1: "{unat cur..<unat cur + unat (p - cur)} \<inter> fbytes (ys @ zs) = {}"
    using apart a split(2,3,6) by fastforce
  obtain m2 head2 xs2 where g2: "(if 0 < p - cur then FreeList_insert cur (p - cur) m1 head1 else Some (m1, head1))
      = Some (m2, head2)" "lseg m2 head2 xs2 0" "fl_wf xs2"
      "fbytes xs2 = {unat cur..<unat cur + unat (p - cur)} \<union> fbytes (ys @ zs)"
      "\<And>x. unat x \<notin> {unat cur..<unat cur + unat (p - cur)} \<union> fbytes (ys @ zs) \<Longrightarrow> m2 x = m1 x"
    using give_back_spec [OF un(1) wf1 split(7) part1] by metis
  have part2: "{unat (p + sz)..<unat (p + sz) + unat tail} \<inter> fbytes xs2 = {}"
  proof -
    have "{unat (p + sz)..<unat (p + sz) + unat tail} \<subseteq> {a..<a + t}"
      and "{unat (p + sz)..<unat (p + sz) + unat tail} \<inter> {unat cur..<unat cur + unat (p - cur)} = {}"
      using a split(2,3,4,6) by auto
    with apart show ?thesis unfolding g2(4) by blast
  qed
  obtain m3 head3 xs3 where g3: "(if 0 < tail then FreeList_insert (p + sz) tail m2 head2 else Some (m2, head2))
      = Some (m3, head3)" "lseg m3 head3 xs3 0" "fl_wf xs3"
      "fbytes xs3 = {unat (p + sz)..<unat (p + sz) + unat tail} \<union> fbytes xs2"
      "\<And>x. unat x \<notin> {unat (p + sz)..<unat (p + sz) + unat tail} \<union> fbytes xs2 \<Longrightarrow> m3 x = m2 x"
    using give_back_spec [OF g2(2,3) split(8) part2] by metis
  have "FreeList_take sz align m head = Some (p, m3, head3)"
    using g2(1) g3(1)
    by (auto simp add: FreeList_take_def search Let_def split: if_splits simp flip: p_def tail_def u)
  moreover have "p \<noteq> 0" using split(2) ok by (auto simp: block_ok_def)
  moreover have "unat align dvd unat p" using split(1) aup_bounds(3) by metis
  moreover have cover: "{a..<a + t} = {unat cur..<unat cur + unat (p - cur)} \<union>
      {unat p..<unat p + unat sz} \<union> {unat (p + sz)..<unat (p + sz) + unat tail}"
    using split(2,3,4,6) a by auto
  then have "{unat p..<unat p + unat sz} \<subseteq> fbytes xs" by (auto simp: xs)
  moreover have "fbytes xs3 = fbytes xs - {unat p..<unat p + unat sz}"
  proof -
    have "fbytes xs = {a..<a + t} \<union> fbytes (ys @ zs)" by (auto simp: xs)
    moreover have "{unat p..<unat p + unat sz} \<inter> fbytes (ys @ zs) = {}" using apart cover by auto
    ultimately show ?thesis
      using split(3,4) unfolding g3(4) g2(4) cover by auto
  qed
  moreover have "m3 x = m x" if "unat x \<notin> fbytes xs" for x
  proof -
    have "unat x \<notin> {a..<a + t} \<union> fbytes (ys @ zs)" using that by (auto simp: xs)
    then have "unat x \<notin> {unat (p + sz)..<unat (p + sz) + unat tail} \<union> fbytes xs2"
      and "unat x \<notin> {unat cur..<unat cur + unat (p - cur)} \<union> fbytes (ys @ zs)"
      and "unat x \<notin> fbytes ys" unfolding cover g2(4) by auto
    with g3(5) g2(5) un(2) show ?thesis by metis
  qed
  ultimately show thesis using g3(2,3) that by blast
qed

section \<open>The heap as a set of bytes\<close>

text \<open>
  The invariant of the heap: the chain of headers spells a well-formed list whose bytes lie
  in no frame the page allocator considers free. The bytes an allocation may come from are
  those of the list and those of the free frames.
\<close>

definition heap_inv :: "blocks \<Rightarrow> 'a kheap_scheme \<Rightarrow> bool" where
  "heap_inv xs s \<longleftrightarrow> machine_ok s \<and> lseg (phys s) (heap_head s) xs 0 \<and> fl_wf xs \<and>
     (\<forall>b \<in> fbytes xs. b div 4096 \<notin> free_pages s)"

definition avail_bytes :: "blocks \<Rightarrow> 'a kheap_scheme \<Rightarrow> nat set" where
  "avail_bytes xs s = fbytes xs \<union> {b. b div 4096 \<in> free_pages s}"

text \<open>What \<open>core::alloc::Layout\<close> promises of the layouts \<open>alloc\<close> is called with.\<close>

definition layout_ok :: "usize \<Rightarrow> usize \<Rightarrow> bool" where
  "layout_ok n al \<longleftrightarrow> 0 < n \<and> (\<exists>k < 64. al = 2 ^ k) \<and> unat n + unat al \<le> 2 ^ 63"

lemma unat_block_size:
  assumes "0 < n" and "unat n \<le> 2 ^ 63"
  shows "unat (block_size n) = (unat n + 15) div 16 * 16"
proof -
  have "unat (n + 15) = unat n + 15" using assms(2) unat_add_no_wrap [of n 15] by simp
  then have round: "unat ((n + MIN_BLOCK - 1) AND NOT (MIN_BLOCK - 1)) = (unat n + 15) div 16 * 16"
    using unat_and_not_mask [of 4 "n + 15"] by (simp add: add.commute)
  have "1 \<le> unat n" using assms(1) by (simp add: word_less_nat_alt)
  then have "1 \<le> (unat n + 15) div 16" by simp
  then have "16 \<le> (unat n + 15) div 16 * 16" by simp
  with round show ?thesis
    by (simp add: block_size_def max_def word_le_nat_alt)
qed

lemma layout_req_ok:
  assumes "layout_ok n al"
  shows "req_ok (block_size n) (max al MIN_BLOCK)" and "unat al dvd unat (max al MIN_BLOCK)"
proof -
  from assms obtain k where k: "k < 64" "al = 2 ^ k" and n: "0 < n" "unat n + unat al \<le> 2 ^ 63"
    by (auto simp: layout_ok_def)
  have al: "unat al = 2 ^ k" using k by (simp add: unat_pow2)
  have n1: "1 \<le> unat n" using n(1) by (simp add: word_less_nat_alt)
  have k63: "k < 63"
  proof (rule ccontr)
    assume "\<not> k < 63"
    then have "(2 :: nat) ^ 63 \<le> 2 ^ k" by (intro power_increasing) auto
    with al n(2) n1 show False by simp
  qed
  have bs: "unat (block_size n) = (unat n + 15) div 16 * 16" using n by (intro unat_block_size) auto
  then have bs_le: "unat (block_size n) \<le> unat n + 15" "16 dvd unat (block_size n)"
    "16 \<le> unat (block_size n)" using n1 by auto
  have "req_ok (block_size n) (max al MIN_BLOCK) \<and> unat al dvd unat (max al MIN_BLOCK)"
  proof (cases "k < 4")
    case True
    then have "al \<le> 16" using al power_increasing [of k 4 "2 :: nat"] by (simp add: word_le_nat_alt)
    then have "max al MIN_BLOCK = 2 ^ 4" by (simp add: max_def)
    moreover have "(2 :: nat) ^ k dvd 2 ^ 4" using True by (intro le_imp_power_dvd) simp
    ultimately show ?thesis
      using bs_le n al True by (auto simp: req_ok_def intro!: exI [of _ "4 :: nat"])
  next
    case False
    then have "16 \<le> al" using al power_increasing [of 4 k "2 :: nat"] by (simp add: word_le_nat_alt)
    then have "max al MIN_BLOCK = al" by (simp add: max_def)
    then show ?thesis
      using bs_le n False k k63 by (auto simp: req_ok_def intro!: exI [of _ k])
  qed
  then show "req_ok (block_size n) (max al MIN_BLOCK)" and "unat al dvd unat (max al MIN_BLOCK)" by simp_all
qed

lemma lseg_agree:
  assumes "lseg m p xs q" and "fl_wf xs" and "\<And>x. unat x \<in> fbytes xs \<Longrightarrow> m' x = m x"
  shows "lseg m' p xs q"
  using assms
proof (induction xs arbitrary: p)
  case Nil
  then show ?case by simp
next
  case (Cons y xs)
  obtain a s where y: "y = (a, s)" by fastforce
  have p: "unat p = a" and ok: "block_ok a s" using Cons.prems y by (auto simp: fl_wf_Cons)
  have agree: "m' (p + word_of_nat i) = m (p + word_of_nat i)" if "i < 16" for i
  proof -
    have "unat (p + word_of_nat i) = a + i"
      using that p ok by (subst unat_add_no_wrap) (auto simp: block_ok_def)
    with that ok y show ?thesis by (intro Cons.prems(3)) (auto simp: block_ok_def)
  qed
  have "m' (p + 8 + word_of_nat i) = m (p + 8 + word_of_nat i)" if "i < 8" for i
    using agree [of "8 + i"] that by (simp add: add.assoc)
  with agree have "blk_size m' p = blk_size m p" and "blk_next m' p = blk_next m p"
    unfolding blk_size_def blk_next_def by (intro load64_cong; simp)+
  with Cons y show ?case by (auto simp: fl_wf_Cons)
qed

text \<open>A run of fresh pages as a block.\<close>

lemma fresh_region:
  assumes "machine_ok s" and "page_alloc n s = (Some mem, s')"
  shows "block_ok (unat mem) (n * 4096)" and "unat (word_of_nat n * PAGE_SIZE :: usize) = n * 4096"
    and "b \<in> {unat mem..<unat mem + n * 4096} \<longleftrightarrow> b div 4096 \<in> {frame_of mem..<frame_of mem + n}"
proof -
  obtain f where f: "mem = frame_to_addr f" "0 < n" "f + n \<le> MAX_FRAMES"
    using page_alloc_Some [OF assms] by metis
  then have mem: "unat mem = 0x80000000 + f * 4096" by (simp add: unat_frame_to_addr)
  then show "block_ok (unat mem) (n * 4096)"
    using f by (auto simp: block_ok_def MAX_FRAMES_eq)
  have "word_of_nat n * PAGE_SIZE = (word_of_nat (n * 4096) :: usize)" by simp
  also have "unat \<dots> = n * 4096" using f by (intro unat_word_of_nat_less) (simp add: MAX_FRAMES_eq)
  finally show "unat (word_of_nat n * PAGE_SIZE :: usize) = n * 4096" .
  show "b \<in> {unat mem..<unat mem + n * 4096} \<longleftrightarrow> b div 4096 \<in> {frame_of mem..<frame_of mem + n}"
    by (auto simp: frame_of_def mem div_less_iff_less_mult less_eq_div_iff_mult_less_eq algebra_simps)
qed

lemma page_alloc_head: "page_alloc n s = (r, s') \<Longrightarrow> heap_head s' = heap_head s"
  by (auto simp: page_alloc_def split: prod.splits option.splits)

lemma inv_update [simp]:
  "machine_ok (s\<lparr>phys := m, heap_head := h\<rparr>) = machine_ok s"
  "free_pages (s\<lparr>phys := m, heap_head := h\<rparr>) = free_pages s"
  by (simp_all add: machine_ok_def free_pages_def)

text \<open>Adding a run of fresh pages to the free list moves no byte in or out of the heap's reach.\<close>

lemma heap_grow:
  assumes inv: "heap_inv xs s" and pa: "page_alloc n s = (Some mem, s')"
  obtains m head where
    "FreeList_insert mem (word_of_nat n * PAGE_SIZE) (phys s') (heap_head s') = Some (m, head)"
    and "heap_inv (ins (unat mem) (n * 4096) xs) (s'\<lparr>phys := m, heap_head := head\<rparr>)"
    and "avail_bytes (ins (unat mem) (n * 4096) xs) (s'\<lparr>phys := m, heap_head := head\<rparr>) = avail_bytes xs s"
    and "\<forall>x. unat x \<notin> avail_bytes xs s \<longrightarrow> m x = phys s x"
proof -
  have ok: "machine_ok s" and seg: "lseg (phys s) (heap_head s) xs 0" and wf: "fl_wf xs"
    and used: "\<forall>b \<in> fbytes xs. b div 4096 \<notin> free_pages s" using inv by (auto simp: heap_inv_def)
  note region = fresh_region [OF ok pa]
  let ?R = "{unat mem..<unat mem + n * 4096}"
  have fresh: "b \<in> ?R \<Longrightarrow> b div 4096 \<in> free_pages s" for b
    using region(3) pages.palloc_fresh [OF ok pa] by blast
  then have dis: "?R \<inter> fbytes xs = {}" using used by blast
  have kept: "phys s' x = phys s x" if "unat x div 4096 \<notin> free_pages s" for x
    using pages.palloc_keeps [OF ok pa] that by (simp add: frame_of_def)
  have seg': "lseg (phys s') (heap_head s') xs 0"
    using lseg_agree [OF seg wf, of "phys s'"] kept used page_alloc_head [OF pa] by simp
  obtain m head where ins: "FreeList_insert mem (word_of_nat n * PAGE_SIZE) (phys s') (heap_head s') = Some (m, head)"
    and seg2: "lseg m head (ins (unat mem) (n * 4096) xs) 0"
    and out: "\<And>x. unat x \<notin> fbytes xs \<union> ?R \<Longrightarrow> m x = phys s' x"
    using FreeList_insert_spec [OF seg' wf, of mem "word_of_nat n * PAGE_SIZE"] region(1,2) dis by metis
  note W = ins_wf [OF wf region(1) dis]
  have free: "free_pages s' = free_pages s - {frame_of mem..<frame_of mem + n}"
    by (rule pages.palloc_avail [OF ok pa])
  have "heap_inv (ins (unat mem) (n * 4096) xs) (s'\<lparr>phys := m, heap_head := head\<rparr>)"
    using pages.palloc_ok [OF ok pa] seg2 W region(3) used free by (auto simp: heap_inv_def)
  moreover have "avail_bytes (ins (unat mem) (n * 4096) xs) (s'\<lparr>phys := m, heap_head := head\<rparr>) = avail_bytes xs s"
    using W(2) region(3) free fresh by (auto simp: avail_bytes_def)
  moreover have "m x = phys s x" if "unat x \<notin> avail_bytes xs s" for x
    using that out [of x] kept [of x] fresh [of "unat x"] by (auto simp: avail_bytes_def)
  ultimately show thesis using ins that by blast
qed

text \<open>Taking a block out of the free list.\<close>

lemma heap_take:
  assumes inv: "heap_inv xs s" and req: "req_ok sz align"
    and fit: "b \<in> set xs" "fits (unat sz) (unat align) b"
  obtains p m head xs' where "FreeList_take sz align (phys s) (heap_head s) = Some (p, m, head)"
    and "p \<noteq> 0" and "unat align dvd unat p" and "heap_inv xs' (s\<lparr>phys := m, heap_head := head\<rparr>)"
    and "{unat p..<unat p + unat sz} \<subseteq> avail_bytes xs s"
    and "avail_bytes xs' (s\<lparr>phys := m, heap_head := head\<rparr>) = avail_bytes xs s - {unat p..<unat p + unat sz}"
    and "\<forall>x. unat x \<notin> avail_bytes xs s \<longrightarrow> m x = phys s x"
proof -
  have ok: "machine_ok s" and seg: "lseg (phys s) (heap_head s) xs 0" and wf: "fl_wf xs"
    and used: "\<forall>b \<in> fbytes xs. b div 4096 \<notin> free_pages s" using inv by (auto simp: heap_inv_def)
  obtain p m head xs' where t: "FreeList_take sz align (phys s) (heap_head s) = Some (p, m, head)"
    "p \<noteq> 0" "unat align dvd unat p" "{unat p..<unat p + unat sz} \<subseteq> fbytes xs" "lseg m head xs' 0"
    "fl_wf xs'" "fbytes xs' = fbytes xs - {unat p..<unat p + unat sz}"
    "\<And>x. unat x \<notin> fbytes xs \<Longrightarrow> m x = phys s x"
    using FreeList_take_some [OF seg wf req fit] by blast
  moreover have "heap_inv xs' (s\<lparr>phys := m, heap_head := head\<rparr>)"
    using ok t used by (auto simp: heap_inv_def)
  moreover have "avail_bytes xs' (s\<lparr>phys := m, heap_head := head\<rparr>) = avail_bytes xs s - {unat p..<unat p + unat sz}"
    using t(4,7) used by (auto simp: avail_bytes_def)
  moreover have "{unat p..<unat p + unat sz} \<subseteq> avail_bytes xs s" and "fbytes xs \<subseteq> avail_bytes xs s"
    using t(4) by (auto simp: avail_bytes_def)
  ultimately show thesis using that by blast
qed

lemma join_covers: "b \<in> set ((a, s) # zs) \<Longrightarrow>
   \<exists>c \<in> set (join (a, s) zs). fst c \<le> fst b \<and> fst b + snd b \<le> fst c + snd c"
  by (cases "((a, s), zs)" rule: join.cases) auto

lemma ins_covers: "\<exists>c \<in> set (ins a s xs). fst c \<le> a \<and> a + s \<le> fst c + snd c"
proof (induction a s xs rule: ins.induct)
  case (1 a s)
  then show ?case by simp
next
  case (2 a s b t xs)
  show ?case
  proof (cases "b < a")
    case True
    with 2 obtain c where c: "c \<in> set (ins a s xs)" "fst c \<le> a" "a + s \<le> fst c + snd c" by auto
    then obtain d where "d \<in> set (join (b, t) (ins a s xs))" "fst d \<le> fst c"
      "fst c + snd c \<le> fst d + snd d" using join_covers [of c b t "ins a s xs"] by auto
    with c True show ?thesis by (intro bexI [of _ d]) auto
  next
    case False
    with join_covers [of "(a, s)" a s "(b, t) # xs"] show ?thesis by (simp del: join.simps)
  qed
qed

lemma grown_block_fits:
  assumes "req_ok sz align"
  shows "\<exists>b \<in> set (ins a (kalloc_grow_pages sz align * 4096) xs). fits (unat sz) (unat align) b"
proof -
  let ?n = "kalloc_grow_pages sz align"
  have "unat (sz + align) = unat sz + unat align"
    using assms by (intro unat_add_small) (simp add: req_ok_def)
  then have d: "unat ((sz + align) div PAGE_SIZE) = (unat sz + unat align) div 4096"
    by (simp add: unat_div)
  have "(unat sz + unat align) div 4096 \<le> unat sz + unat align" by (rule div_le_dividend)
  also have "\<dots> < 2 ^ 64 - 1" using assms by (simp add: req_ok_def)
  finally have "unat ((sz + align) div PAGE_SIZE + 1) = unat ((sz + align) div PAGE_SIZE) + 1"
    using d unat_add_no_wrap [of "(sz + align) div PAGE_SIZE" 1] by simp
  then have "(unat sz + unat align) div 4096 + 1 \<le> ?n"
    using d by (simp add: kalloc_grow_pages_def max_def word_le_nat_alt)
  then have n: "unat sz + unat align \<le> ?n * 4096" by linarith
  obtain c where c: "c \<in> set (ins a (?n * 4096) xs)" "fst c \<le> a" "a + ?n * 4096 \<le> fst c + snd c"
    using ins_covers by blast
  with n aup_bounds(2) [OF req_ok_align(1) [OF assms], of "fst c"] show ?thesis
    by (intro bexI [of _ c]) (simp add: fits_def)
qed

section \<open>The global allocator on sets of bytes\<close>

definition out_of_memory :: "usize \<Rightarrow> usize \<Rightarrow> blocks \<Rightarrow> 'a kheap_scheme \<Rightarrow> bool" where
  "out_of_memory n al xs s \<longleftrightarrow>
     (\<forall>b \<in> set xs. \<not> fits (unat (block_size n)) (unat (max al MIN_BLOCK)) b) \<and>
     page_alloc (kalloc_grow_pages (block_size n) (max al MIN_BLOCK)) s = (None, s)"

lemma kalloc_alloc_works:
  assumes inv: "heap_inv xs s" and layout: "layout_ok n al"
  obtains p s' xs' where "kalloc_alloc n al s = Some (p, s')" and "heap_inv xs' s'"
    and "p = 0 \<longleftrightarrow> out_of_memory n al xs s" and "p = 0 \<longrightarrow> s' = s \<and> xs' = xs"
    and "p \<noteq> 0 \<longrightarrow> unat al dvd unat p \<and> 16 dvd unat p \<and>
      {unat p..<unat p + unat (block_size n)} \<subseteq> avail_bytes xs s \<and>
      avail_bytes xs' s' = avail_bytes xs s - {unat p..<unat p + unat (block_size n)}"
    and "\<forall>x. unat x \<notin> avail_bytes xs s \<longrightarrow> phys s' x = phys s x"
proof -
  let ?sz = "block_size n" and ?al = "max al MIN_BLOCK"
  let ?n = "kalloc_grow_pages ?sz ?al"
  note req = layout_req_ok(1) [OF layout] and dvd = layout_req_ok(2) [OF layout]
  note dvd16 = req_ok_align(2) [OF req]
  have seg: "lseg (phys s) (heap_head s) xs 0" "fl_wf xs" and mok: "machine_ok s"
    using inv by (auto simp: heap_inv_def)
  show thesis
  proof (cases "\<exists>b \<in> set xs. fits (unat ?sz) (unat ?al) b")
    case True
    then obtain b where "b \<in> set xs" "fits (unat ?sz) (unat ?al) b" by blast
    then obtain p m head xs' where t:
      "FreeList_take ?sz ?al (phys s) (heap_head s) = Some (p, m, head)" "p \<noteq> 0"
      "unat ?al dvd unat p" "heap_inv xs' (s\<lparr>phys := m, heap_head := head\<rparr>)"
      "{unat p..<unat p + unat ?sz} \<subseteq> avail_bytes xs s"
      "avail_bytes xs' (s\<lparr>phys := m, heap_head := head\<rparr>) = avail_bytes xs s - {unat p..<unat p + unat ?sz}"
      "\<forall>x. unat x \<notin> avail_bytes xs s \<longrightarrow> m x = phys s x" by (rule heap_take [OF inv req])
    have "kalloc_alloc n al s = Some (p, s\<lparr>phys := m, heap_head := head\<rparr>)"
      using t(1,2) by (simp add: kalloc_alloc_def Let_def del: MIN_BLOCK_def)
    from this t(4) show thesis
    proof (rule that [of p])
      show "p = 0 \<longleftrightarrow> out_of_memory n al xs s"
        using t(2) True unfolding out_of_memory_def by blast
    qed (use t dvd_trans [OF dvd t(3)] dvd_trans [OF dvd16 t(3)] in simp_all)
  next
    case False
    then have none: "FreeList_take ?sz ?al (phys s) (heap_head s) = Some (0, phys s, heap_head s)"
      by (intro FreeList_take_none [OF seg req]) blast
    obtain r s1 where pa: "page_alloc ?n s = (r, s1)" by fastforce
    show thesis
    proof (cases r)
      case None
      then have "s1 = s" using pa page_alloc_None [OF mok] by simp
      with False pa none None inv show thesis
        by (intro that [of 0 s xs]) (auto simp: kalloc_alloc_def out_of_memory_def Let_def)
    next
      case (Some mem)
      note pa' = pa [unfolded Some]
      obtain m1 head1 where g:
        "FreeList_insert mem (word_of_nat ?n * PAGE_SIZE) (phys s1) (heap_head s1) = Some (m1, head1)"
        "heap_inv (ins (unat mem) (?n * 4096) xs) (s1\<lparr>phys := m1, heap_head := head1\<rparr>)"
        "avail_bytes (ins (unat mem) (?n * 4096) xs) (s1\<lparr>phys := m1, heap_head := head1\<rparr>) = avail_bytes xs s"
        "\<forall>x. unat x \<notin> avail_bytes xs s \<longrightarrow> m1 x = phys s x" by (rule heap_grow [OF inv pa'])
      obtain b where "b \<in> set (ins (unat mem) (?n * 4096) xs)" "fits (unat ?sz) (unat ?al) b"
        using grown_block_fits [OF req] by blast
      then obtain p m head xs' where t:
        "FreeList_take ?sz ?al (phys (s1\<lparr>phys := m1, heap_head := head1\<rparr>))
          (heap_head (s1\<lparr>phys := m1, heap_head := head1\<rparr>)) = Some (p, m, head)" "p \<noteq> 0" "unat ?al dvd unat p"
        "heap_inv xs' (s1\<lparr>phys := m1, heap_head := head1\<rparr>\<lparr>phys := m, heap_head := head\<rparr>)"
        "{unat p..<unat p + unat ?sz} \<subseteq> avail_bytes xs s"
        "avail_bytes xs' (s1\<lparr>phys := m1, heap_head := head1\<rparr>\<lparr>phys := m, heap_head := head\<rparr>) =
          avail_bytes xs s - {unat p..<unat p + unat ?sz}"
        "\<forall>x. unat x \<notin> avail_bytes xs s \<longrightarrow> m x = phys (s1\<lparr>phys := m1, heap_head := head1\<rparr>) x"
        by (rule heap_take [OF g(2) req, unfolded g(3)])
      then have "kalloc_alloc n al s = Some (p, s1\<lparr>phys := m, heap_head := head\<rparr>)"
        using none pa' g(1) by (simp add: kalloc_alloc_def Let_def)
      then show thesis
        by (rule that [of p "s1\<lparr>phys := m, heap_head := head\<rparr>" xs'])
          (use t g(4) dvd_trans [OF dvd t(3)] dvd_trans [OF dvd16 t(3)] pa' in \<open>auto simp: out_of_memory_def\<close>)
    qed
  qed
qed

text \<open>
  C12: an allocation from the kernel heap always returns. It fails, changing nothing, exactly
  when no free block fits and the frame allocator has no run long enough; otherwise the result
  is aligned as the layout asks, its bytes were available (in the free list or in free
  frames), they and no others become unavailable, and no byte outside the available ones is
  written. The retry after growing the heap never fails.
\<close>

theorem kalloc_alloc_refines:
  assumes "heap_inv xs s" and "layout_ok n al"
  shows "\<exists>p s' xs'. kalloc_alloc n al s = Some (p, s') \<and> heap_inv xs' s' \<and>
    (p = 0 \<longleftrightarrow> out_of_memory n al xs s) \<and>
    (if p = 0 then s' = s
     else unat al dvd unat p \<and> {unat p..<unat p + unat (block_size n)} \<subseteq> avail_bytes xs s \<and>
       avail_bytes xs' s' = avail_bytes xs s - {unat p..<unat p + unat (block_size n)}) \<and>
    (\<forall>x. unat x \<in> avail_bytes xs s \<or> phys s' x = phys s x)"
  using kalloc_alloc_works [OF assms] by metis

lemma kalloc_dealloc_works:
  assumes inv: "heap_inv xs s" and blk: "block_ok (unat p) (unat (block_size n))"
    and live: "{unat p..<unat p + unat (block_size n)} \<inter> avail_bytes xs s = {}"
  obtains s' xs' where "kalloc_dealloc p n s = Some s'" and "heap_inv xs' s'"
    and "avail_bytes xs' s' = avail_bytes xs s \<union> {unat p..<unat p + unat (block_size n)}"
    and "\<forall>x. unat x \<notin> avail_bytes xs' s' \<longrightarrow> phys s' x = phys s x"
proof -
  let ?R = "{unat p..<unat p + unat (block_size n)}"
  have ok: "machine_ok s" and seg: "lseg (phys s) (heap_head s) xs 0" and wf: "fl_wf xs"
    and used: "\<forall>b \<in> fbytes xs. b div 4096 \<notin> free_pages s" using inv by (auto simp: heap_inv_def)
  have dis: "?R \<inter> fbytes xs = {}" using live by (auto simp: avail_bytes_def)
  obtain m head where ins: "FreeList_insert p (block_size n) (phys s) (heap_head s) = Some (m, head)"
    and seg2: "lseg m head (ins (unat p) (unat (block_size n)) xs) 0"
    and out: "\<And>x. unat x \<notin> fbytes xs \<union> ?R \<Longrightarrow> m x = phys s x"
    using FreeList_insert_spec [OF seg wf blk dis] by metis
  note W = ins_wf [OF wf blk dis]
  let ?s = "s\<lparr>phys := m, heap_head := head\<rparr>" and ?xs = "ins (unat p) (unat (block_size n)) xs"
  have "b div 4096 \<notin> free_pages s" if "b \<in> ?R" for b
    using live that by (auto simp: avail_bytes_def)
  with ok seg2 W used have "heap_inv ?xs ?s" by (auto simp: heap_inv_def)
  moreover have "avail_bytes ?xs ?s = avail_bytes xs s \<union> ?R" using W(2) by (auto simp: avail_bytes_def)
  moreover have "fbytes xs \<subseteq> avail_bytes xs s" by (simp add: avail_bytes_def)
  ultimately show thesis
    using that [of ?s ?xs] out by (auto simp: kalloc_dealloc_def ins)
qed

text \<open>Bytes that were available lie below the limit of \<open>block_ok\<close>, and a block of them never
  starts at the first 16 bytes of the address space.\<close>

lemma avail_below: "heap_inv xs s \<Longrightarrow> b \<in> avail_bytes xs s \<Longrightarrow> b < 2 ^ 63"
proof -
  assume inv: "heap_inv xs s" and b: "b \<in> avail_bytes xs s"
  consider "b \<in> fbytes xs" | "b div 4096 \<in> free_pages s" using b by (auto simp: avail_bytes_def)
  then show "b < 2 ^ 63"
  proof cases
    case 1
    then obtain a t where "(a, t) \<in> set xs" "b < a + t" by (auto simp: fbytes_def)
    moreover from this inv have "block_ok a t" by (auto simp: heap_inv_def intro: fl_wf_block)
    ultimately show ?thesis by (simp add: block_ok_def)
  next
    case 2
    then have "b div 4096 < 0x80000 + MAX_FRAMES" by (auto simp: free_pages_def free_set_def)
    then show ?thesis by (simp add: MAX_FRAMES_eq div_less_iff_less_mult)
  qed
qed

lemma avail_block_ok:
  assumes "heap_inv xs s" and "16 \<le> n" and "16 dvd n" and sub: "{a..<a + n} \<subseteq> avail_bytes xs s"
    and "16 dvd a" and "a \<noteq> 0"
  shows "block_ok a n"
proof -
  have "a + n - 1 \<in> avail_bytes xs s" using sub assms(2) by auto
  then have "a + n - 1 < 2 ^ 63" using avail_below [OF assms(1)] by blast
  moreover have "16 \<le> a" using assms(5,6) by (intro dvd_imp_le) auto
  ultimately show ?thesis using assms(2,3,5) by (simp add: block_ok_def)
qed

text \<open>
  C13: a successful allocation followed by \<open>dealloc\<close> with the same layout returns, and makes
  exactly the bytes available that were available before the allocation; nothing outside them
  is written by either call.
\<close>

theorem kalloc_alloc_dealloc_roundtrip:
  assumes inv: "heap_inv xs s" and layout: "layout_ok n al"
    and alloc: "kalloc_alloc n al s = Some (p, s1)" "p \<noteq> 0"
  shows "\<exists>s2 xs2. kalloc_dealloc p n s1 = Some s2 \<and> heap_inv xs2 s2 \<and>
    avail_bytes xs2 s2 = avail_bytes xs s \<and>
    (\<forall>x. unat x \<in> avail_bytes xs s \<or> phys s2 x = phys s x)"
proof -
  let ?R = "{unat p..<unat p + unat (block_size n)}"
  obtain q s' xs1 where w: "kalloc_alloc n al s = Some (q, s')" "heap_inv xs1 s'"
    "q = 0 \<longleftrightarrow> out_of_memory n al xs s" "q = 0 \<longrightarrow> s' = s \<and> xs1 = xs"
    "q \<noteq> 0 \<longrightarrow> unat al dvd unat q \<and> 16 dvd unat q \<and>
      {unat q..<unat q + unat (block_size n)} \<subseteq> avail_bytes xs s \<and>
      avail_bytes xs1 s' = avail_bytes xs s - {unat q..<unat q + unat (block_size n)}"
    "\<forall>x. unat x \<notin> avail_bytes xs s \<longrightarrow> phys s' x = phys s x"
    by (rule kalloc_alloc_works [OF inv layout])
  then have "q = p" "s' = s1" using alloc(1) by simp_all
  note w = w [unfolded this]
  have inv1: "heap_inv xs1 s1" and sub: "?R \<subseteq> avail_bytes xs s" and al: "16 dvd unat p"
    and av1: "avail_bytes xs1 s1 = avail_bytes xs s - ?R" using w(2,5) alloc(2) by simp_all
  obtain s2 xs2 where d: "kalloc_dealloc p n s1 = Some s2" "heap_inv xs2 s2"
      "avail_bytes xs2 s2 = avail_bytes xs1 s1 \<union> ?R"
      "\<forall>x. unat x \<notin> avail_bytes xs2 s2 \<longrightarrow> phys s2 x = phys s1 x"
  proof (rule kalloc_dealloc_works [OF inv1])
    show "?R \<inter> avail_bytes xs1 s1 = {}" using av1 by blast
    show "block_ok (unat p) (unat (block_size n))"
      using avail_block_ok [OF inv _ _ sub al] layout_req_ok(1) [OF layout] alloc(2)
      by (simp add: req_ok_def unsigned_eq_0_iff)
  qed
  have "avail_bytes xs2 s2 = avail_bytes xs s" using d(3) av1 sub by blast
  with d w(6) show ?thesis by metis
qed

text \<open>
  \<open>kalloc::init\<close> on the empty heap panics exactly when the frame allocator has no run of
  1024 frames; otherwise it leaves a heap of one 4 MiB block, and the bytes within reach of
  the allocator are those of the frames that were free before.
\<close>

lemma kalloc_init_establishes:
  assumes ok: "machine_ok s" and empty: "heap_head s = 0"
  shows "if fst (page_alloc INITIAL_HEAP_PAGES s) = None then kalloc_init s = None
    else \<exists>s' a. kalloc_init s = Some s' \<and> heap_inv [(a, 4194304)] s' \<and>
      avail_bytes [(a, 4194304)] s' = {b. b div 4096 \<in> free_pages s}"
proof -
  have inv: "heap_inv [] s" using ok empty by (simp add: heap_inv_def)
  obtain r s1 where pa: "page_alloc INITIAL_HEAP_PAGES s = (r, s1)" by fastforce
  show ?thesis
  proof (cases r)
    case None
    with pa show ?thesis by (simp add: kalloc_init_def)
  next
    case (Some mem)
    note pa' = pa [unfolded Some]
    obtain m head where
      g: "FreeList_insert mem (word_of_nat INITIAL_HEAP_PAGES * PAGE_SIZE) (phys s1) (heap_head s1) = Some (m, head)"
      "heap_inv (ins (unat mem) (INITIAL_HEAP_PAGES * 4096) []) (s1\<lparr>phys := m, heap_head := head\<rparr>)"
      "avail_bytes (ins (unat mem) (INITIAL_HEAP_PAGES * 4096) []) (s1\<lparr>phys := m, heap_head := head\<rparr>) = avail_bytes [] s"
      "\<forall>x. unat x \<notin> avail_bytes [] s \<longrightarrow> m x = phys s x"
      by (rule heap_grow [OF inv pa'])
    have "kalloc_init s = Some (s1\<lparr>phys := m, heap_head := head\<rparr>)"
      unfolding kalloc_init_def using pa' g(1) by simp
    with pa' g(2,3) show ?thesis by (auto simp: avail_bytes_def)
  qed
qed

section \<open>Witnesses on the heap at boot\<close>

definition boot_heap :: kheap where
  "boot_heap = \<lparr>phys = (\<lambda>_. 0), frames = boot_frames, heap_head = 0\<rparr>"

lemma boot_heap_inv: "heap_inv [] boot_heap" "machine_ok boot_heap" "heap_head boot_heap = 0"
  using boot_frames_props(1) by (simp_all add: heap_inv_def boot_heap_def machine_ok_def)

lemma boot_heap_alloc: "0 < n \<Longrightarrow> n \<le> 32256 \<Longrightarrow> fst (page_alloc n boot_heap) = Some (frame_to_addr 512)"
  using boot_frames_alloc [of n] by (auto simp: page_alloc_def boot_heap_def)

lemma boot_layout: "layout_ok 100 8"
  by (auto simp: layout_ok_def intro!: exI [of _ "3 :: nat"])

lemma boot_heap_has_memory: "\<not> out_of_memory 100 8 [] boot_heap"
proof -
  have "kalloc_grow_pages (block_size 100) (max 8 MIN_BLOCK) = 16"
    by (simp add: kalloc_grow_pages_def block_size_def max_def)
  then show ?thesis using boot_heap_alloc [of 16] by (auto simp: out_of_memory_def)
qed

theorem kalloc_alloc_refines_witness:
  "\<exists>p s'. kalloc_alloc 100 8 boot_heap = Some (p, s') \<and> p \<noteq> 0 \<and> 8 dvd unat p"
  using kalloc_alloc_refines [OF boot_heap_inv(1) boot_layout] boot_heap_has_memory by fastforce

theorem kalloc_alloc_dealloc_roundtrip_witness:
  "\<exists>p s1 s2 xs2. kalloc_alloc 100 8 boot_heap = Some (p, s1) \<and> kalloc_dealloc p 100 s1 = Some s2 \<and>
     avail_bytes xs2 s2 = avail_bytes [] boot_heap"
proof -
  obtain p s1 where "kalloc_alloc 100 8 boot_heap = Some (p, s1)" "p \<noteq> 0"
    by (rule kalloc_alloc_works [OF boot_heap_inv(1) boot_layout]) (simp add: boot_heap_has_memory)
  with kalloc_alloc_dealloc_roundtrip [OF boot_heap_inv(1) boot_layout this] show ?thesis by blast
qed

end
