(* ===== verification/Sched_Fair.thy ===== *)
theory Sched_Fair
  imports Kernel_Run
begin

text \<open>
  The round-robin choice: which process \<open>pick_next\<close> takes, and that a process which stays ready is
  reached after at most 63 others. The measure is the distance from the slot that ran last.
\<close>

section \<open>The choice\<close>

definition ready_at :: "'d kernel \<Rightarrow> nat \<Rightarrow> bool" where
  "ready_at s i \<longleftrightarrow> (case proc_at s i of Some p \<Rightarrow> pstate p = Ready | None \<Rightarrow> False)"

lemma pick_loop_None: "pick_loop is s = (None, t) \<longleftrightarrow> t = s \<and> (\<forall>d \<in> set is. \<not> ready_at s ((last_run s + d) mod 64))"
  by (induction "is") (auto simp: Let_def ready_at_def split: option.splits)

lemma pick_loop_Some:
  "pick_loop is s = (Some (i, root), t) \<Longrightarrow>
     \<exists>pre d post p. is = pre @ d # post \<and> i = (last_run s + d) mod 64 \<and> proc_at s i = Some p \<and> pstate p = Ready \<and>
       root = root_pa p \<and> (\<forall>c \<in> set pre. \<not> ready_at s ((last_run s + c) mod 64)) \<and>
       t = (set_proc i (Some (p\<lparr>pstate := Running\<rparr>)) s)\<lparr>last_run := i\<rparr>"
proof (induction "is")
  case (Cons d ds)
  let ?i = "(last_run s + d) mod 64"
  show ?case
  proof (cases "ready_at s ?i")
    case True
    then obtain p where "proc_at s ?i = Some p" "pstate p = Ready" by (auto simp: ready_at_def split: option.splits)
    then show ?thesis using Cons.prems by (intro exI [of _ "[]"]) (auto simp: Let_def)
  next
    case False
    then have "pick_loop ds s = (Some (i, root), t)"
      using Cons.prems by (auto simp: Let_def ready_at_def split: option.splits if_splits)
    from Cons.IH [OF this] obtain pre c post p where *: "ds = pre @ c # post" "i = (last_run s + c) mod 64"
      "proc_at s i = Some p" "pstate p = Ready" "root = root_pa p" "\<forall>c \<in> set pre. \<not> ready_at s ((last_run s + c) mod 64)"
      "t = (set_proc i (Some (p\<lparr>pstate := Running\<rparr>)) s)\<lparr>last_run := i\<rparr>" by blast
    show ?thesis by (rule exI [of _ "d # pre"], rule exI [of _ c], rule exI [of _ post]) (use * False in auto)
  qed
qed simp

lemma pick_next_Some:
  assumes "pick_next s = (Some (i, root), t)"
  obtains d p where "1 \<le> d" "d \<le> 64" "i = (last_run s + d) mod 64" "proc_at s i = Some p" "pstate p = Ready" "root = root_pa p"
    "\<And>c. 1 \<le> c \<Longrightarrow> c < d \<Longrightarrow> \<not> ready_at s ((last_run s + c) mod 64)"
    "t = (set_proc i (Some (p\<lparr>pstate := Running\<rparr>)) s)\<lparr>last_run := i\<rparr>"
proof -
  from pick_loop_Some [OF assms [unfolded pick_next_def]] obtain pre d post p where
    l: "[1..<65] = pre @ d # post" and *: "i = (last_run s + d) mod 64" "proc_at s i = Some p" "pstate p = Ready"
    "root = root_pa p" "\<forall>c \<in> set pre. \<not> ready_at s ((last_run s + c) mod 64)"
    "t = (set_proc i (Some (p\<lparr>pstate := Running\<rparr>)) s)\<lparr>last_run := i\<rparr>" by (auto simp del: upt_rec_numeral upt_Suc)
  have pre: "pre = [1..<1 + length pre]" and d: "d = 1 + length pre" and "length pre < 64"
    using arg_cong [OF l, of "take (length pre)"] arg_cong [OF l, of "\<lambda>xs. xs ! length pre"] arg_cong [OF l, of length]
    by (simp_all del: upt_rec_numeral upt_Suc)
  show thesis
  proof (rule that [OF _ _ *(1-4) _ *(6)])
    show "\<not> ready_at s ((last_run s + c) mod 64)" if "1 \<le> c" "c < d" for c
    proof -
      have "c \<in> set pre" using that d by (subst pre) auto
      then show ?thesis using *(5) by blast
    qed
  qed (use d \<open>length pre < 64\<close> in auto)
qed

text \<open>The offset at which the loop reaches a slot.\<close>

definition slot_dist :: "nat \<Rightarrow> nat \<Rightarrow> nat" where
  "slot_dist l i = (if l mod 64 < i then i - l mod 64 else i + 64 - l mod 64)"

lemma slot_dist_bounds: "i < 64 \<Longrightarrow> 1 \<le> slot_dist l i \<and> slot_dist l i \<le> 64"
  using mod_less_divisor [of 64 l] by (auto simp: slot_dist_def)

lemma slot_dist_reaches: "i < 64 \<Longrightarrow> (l + slot_dist l i) mod 64 = i"
proof -
  assume i: "i < 64"
  have "(l + slot_dist l i) mod 64 = (l mod 64 + slot_dist l i) mod 64" by (simp add: mod_add_left_eq)
  also have "\<dots> = i" using i mod_less_divisor [of 64 l] by (auto simp: slot_dist_def)
  finally show ?thesis .
qed

lemma slot_dist_unique:
  assumes "1 \<le> d" "d \<le> 64"
  shows "slot_dist l ((l + d) mod 64) = d"
proof -
  define m where "m = l mod 64"
  have m: "m < 64" by (simp add: m_def)
  have e: "(l + d) mod 64 = (m + d) mod 64" by (simp add: m_def mod_add_left_eq)
  show ?thesis
  proof (cases "m + d < 64")
    case True
    then show ?thesis using assms unfolding e slot_dist_def m_def [symmetric] by simp
  next
    case False
    then have "(m + d) mod 64 = m + d - 64" using m assms by (simp add: le_mod_geq)
    then show ?thesis using False m assms unfolding e slot_dist_def m_def [symmetric] by simp
  qed
qed

lemma pick_next_None: "pick_next s = (None, t) \<longleftrightarrow> t = s \<and> (\<forall>i < 64. \<not> ready_at s i)"
proof -
  have "(\<forall>d \<in> set [1..<65]. \<not> ready_at s ((last_run s + d) mod 64)) \<longleftrightarrow> (\<forall>i < 64. \<not> ready_at s i)"
  proof (intro iffI allI impI ballI)
    fix i :: nat assume a: "\<forall>d \<in> set [1..<65]. \<not> ready_at s ((last_run s + d) mod 64)" and i: "i < 64"
    have "slot_dist (last_run s) i \<in> set [1..<65]"
      using slot_dist_bounds [OF i, of "last_run s"] by (simp del: upt_rec_numeral)
    then show "\<not> ready_at s i" using a slot_dist_reaches [OF i, of "last_run s"] by fastforce
  qed auto
  then show ?thesis by (simp add: pick_next_def pick_loop_None del: upt_rec_numeral upt_Suc)
qed

section \<open>Progress\<close>

lemma ready_at_slots: "ready_at s i \<Longrightarrow> i < length (slots s)"
  by (auto simp: ready_at_def split: option.splits dest: proc_at_Some)

lemma ready_at_enter_user [simp]: "ready_at (enter_user i r s) = ready_at s"
  by (simp add: fun_eq_iff ready_at_def enter_user_def Let_def)

lemma enter_user_last_run [simp]: "last_run (enter_user i r s) = last_run s"
  by (simp add: enter_user_def Let_def)

text \<open>If a slot is ready both before and after a choice, the choice came closer to it.\<close>

lemma schedule_closer:
  assumes after: "ready_at (schedule s) j" and len: "length (slots s) = 64"
  shows "slot_dist (last_run (schedule s)) j < slot_dist (last_run s) j"
proof (cases "fst (pick_next s)")
  case None
  then have pn: "pick_next s = (None, s)" using pick_next_None [of s] by (metis prod.collapse)
  then have "schedule s = s" by (simp add: schedule_def)
  then show ?thesis using after pn pick_next_None [of s s] ready_at_slots len by metis
next
  case (Some ir)
  then obtain i root t where pn: "pick_next s = (Some (i, root), t)" by (metis prod.collapse)
  from pick_next_Some [OF this] obtain d p where d: "1 \<le> d" "d \<le> 64" "i = (last_run s + d) mod 64"
    and p: "proc_at s i = Some p" "pstate p = Ready"
    and no: "\<And>c. 1 \<le> c \<Longrightarrow> c < d \<Longrightarrow> \<not> ready_at s ((last_run s + c) mod 64)"
    and t: "t = (set_proc i (Some (p\<lparr>pstate := Running\<rparr>)) s)\<lparr>last_run := i\<rparr>" by metis
  have sch: "schedule s = enter_user i root (t\<lparr>CURRENT := i\<rparr>)" using pn by (simp add: schedule_def)
  have lr: "last_run (schedule s) = i" by (simp add: sch t)
  have rt: "ready_at (schedule s) k \<longleftrightarrow> k \<noteq> i \<and> ready_at s k" for k
    using proc_at_Some [OF p(1)] by (auto simp: sch t ready_at_def proc_at_set_proc)
  have j: "j < 64" "j \<noteq> i" "ready_at s j" using after rt [of j] ready_at_slots [of s j] len by auto
  let ?dj = "slot_dist (last_run s) j"
  have dj: "1 \<le> ?dj" "?dj \<le> 64" "(last_run s + ?dj) mod 64 = j"
    using slot_dist_bounds [OF j(1)] slot_dist_reaches [OF j(1)] by auto
  have lt: "d < ?dj" using no [of ?dj] dj j d by (metis linorder_neqE_nat)
  have "(i + (?dj - d)) mod 64 = (last_run s + d + (?dj - d)) mod 64" unfolding d(3) by (rule mod_add_left_eq)
  also have "\<dots> = j" using dj(3) lt by simp
  finally have "slot_dist i j = ?dj - d" using slot_dist_unique [of "?dj - d" i] lt dj by simp
  then show ?thesis using lt d lr by simp
qed

section \<open>Every trap leaves the position alone or chooses once\<close>

definition resched :: "'d kernel \<Rightarrow> 'd kernel \<Rightarrow> bool" where
  "resched s u \<longleftrightarrow> last_run u = last_run s \<or>
     (\<exists>t :: 'd kernel. last_run t = last_run s \<and> length (slots t) = length (slots s) \<and> ptab u = ptab (schedule t))"

lemma resched_quiet: "ptab u = ptab s \<Longrightarrow> resched s u"
  by (simp add: resched_def ptab_eq)

lemma resched_sched: "last_run t = last_run s \<Longrightarrow> length (slots t) = length (slots s) \<Longrightarrow> resched s (schedule t)"
  unfolding resched_def by blast

lemma resched_then_quiet: "resched s t \<Longrightarrow> ptab u = ptab t \<Longrightarrow> resched s u"
  by (auto simp: resched_def ptab_eq)

lemma ready_at_ptab:
  assumes "ptab u = ptab t"
  shows "ready_at u i = ready_at t i"
proof -
  have "map_option pentry_of (proc_at u i) = map_option pentry_of (proc_at t i)"
    using assms unfolding ptab_eq absp_simps(1) [symmetric] by metis
  then show ?thesis by (cases "proc_at u i"; cases "proc_at t i") (auto simp: ready_at_def pentry_of_def)
qed

lemma yield_current_resched: "yield_current s = Some u \<Longrightarrow> \<exists>t. last_run t = last_run s \<and> length (slots t) = length (slots s) \<and> u = schedule t"
  by (rule exI [of _ "(upd_proc (CURRENT s) (\<lambda>p. if pstate p = Running then p\<lparr>pstate := Ready\<rparr> else p) s)\<lparr>CURRENT := NO_PROC\<rparr>"])
     (auto simp: yield_current_def Let_def split: if_splits)

lemma block_on_console_resched: "block_on_console va len s = Some u \<Longrightarrow> resched s u"
  by (auto simp: block_on_console_def split: option.splits intro!: resched_sched)

lemma complete_wait_pos:
  "complete_wait ps cs s = Some u \<Longrightarrow> last_run u = last_run s \<and> length (slots u) = length (slots s)"
  by (erule when_returnsD)
     (auto simp: complete_wait_def Let_def bind_eq_Some_conv split: option.split dest!: quiet simp: ptab_eq)

lemma reparent_pos [simp]: "last_run (reparent c s) = last_run s" "length (slots (reparent c s)) = length (slots s)"
  by (simp_all add: reparent_def Let_def)

lemma exit_current_resched: "exit_current code s = Some u \<Longrightarrow> resched s u"
  by (erule when_returnsD)
     (auto simp: exit_current_def Let_def ptab_eq split: option.splits if_splits
      intro!: resched_sched dest!: free_user_space_statics [THEN ptab_statics] complete_wait_pos)

lemma wait_current_resched: "wait_current va s = Some u \<Longrightarrow> resched s u"
  by (erule when_returnsD)
     (auto simp: wait_current_def Let_def split: option.splits if_splits intro!: resched_sched dest!: complete_wait_pos)

lemma fork_current_resched: "fork_current e s = Some (r, u) \<Longrightarrow> resched s u"
  using fork_current_outcome by (fastforce simp: resched_def ptab_eq)

lemma wake_console_reader_pos: "wake_console_reader s = Some u \<Longrightarrow> last_run u = last_run s \<and> length (slots u) = length (slots s)"
  by (erule when_returnsD)
     (auto simp: wake_console_reader_def Let_def ptab_eq split: option.split prod.split sum.split
      dest!: copy_out_statics [THEN ptab_statics])

lemma external_interrupt_pos: "external_interrupt e s = Some u \<Longrightarrow> last_run u = last_run s \<and> length (slots u) = length (slots s)"
  by (erule when_returnsD)
     (auto simp: external_interrupt_def handle_interrupt_def Let_def split: prod.split if_splits
      dest!: wake_console_reader_pos)

lemma sys_read_resched: "sys_read e s = Some (r, u) \<Longrightarrow> resched s u"
proof -
  have blk: "resched s t" if "block_on_console va len (s\<lparr>RX := rx\<rparr>) = Some t" for va len rx t
    using block_on_console_resched [OF that] by (simp add: resched_def)
  have "when_returns (\<lambda>(r, s'). resched s s') (sys_read e s)"
    unfolding sys_read_def Let_def
    by (auto split: prod.split sum.split intro: blk resched_quiet dest!: quiet)
  then show "sys_read e s = Some (r, u) \<Longrightarrow> resched s u" by (auto dest: when_returnsD)
qed

lemma syscall_resched: "syscall e nr s = Some (r, u) \<Longrightarrow> resched s u"
  unfolding syscall_def
  by (auto split: if_splits intro: sys_read_resched resched_quiet dest!: quiet
      simp: sys_exit_def sys_wait4_def sys_fork_def bind_eq_Some_conv
      dest: exit_current_resched wait_current_resched fork_current_resched)

lemma usertrap_resched:
  assumes "usertrap e scause s = Some (r, u)"
  shows "resched s u"
proof -
  have tick: "last_run (timer_tick e s) = last_run s" "slots (timer_tick e s) = slots s"
    by (simp_all add: timer_tick_def clint_set_next_def split: prod.split)
  have y: "resched s t" if "yield_current (timer_tick e s) = Some t" for t
    using yield_current_resched [OF that] tick unfolding resched_def by metis
  have x: "resched s t" if "external_interrupt e s = Some v" "resume_current v = Some t" for t v
    using external_interrupt_pos [OF that(1)] resume_current_quiet [OF that(2)] by (simp add: resched_def ptab_eq)
  have dw: "when_returns (\<lambda>(r, t). resched s t) (dispatch e (set_tf i tf s))" for i tf
    unfolding dispatch_def
    by (auto split: sysret.split dest!: syscall_resched resume_current_quiet intro: resched_then_quiet)
      (auto simp: resched_def ptab_eq)
  have "when_returns (\<lambda>(r, s'). resched s s') (usertrap e scause s)"
    unfolding usertrap_def Let_def
    by (auto intro: y x exit_current_resched resched_quiet dest: quiet simp: dw)
  from when_returnsD [OF assms this] show ?thesis by simp
qed

lemma kstep_resched:
  assumes "kstep e s u"
  shows "resched s u"
  using assms
proof (cases rule: kstep.cases)
  case (idle_wakes scause d)
  then obtain t where t: "trap_handler e scause (s\<lparr>device := d\<rparr>) = Some t" "u = schedule t"
    by (auto simp: idle_interrupt_def bind_eq_Some_conv)
  have "last_run t = last_run s \<and> length (slots t) = length (slots s)"
    using t(1) by (auto simp: trap_handler_def Let_def timer_tick_def clint_set_next_def split: if_splits prod.splits
        dest!: external_interrupt_pos)
  then show ?thesis unfolding t(2) by (simp add: resched_sched)
next
  case (user_traps scause r)
  then show ?thesis using usertrap_resched by blast
qed (simp add: resched_def)

section \<open>Fairness\<close>

lemma resched_closer:
  assumes "resched s u" "ready_at u j" "length (slots s) = 64"
  shows "slot_dist (last_run u) j \<le> slot_dist (last_run s) j"
  using assms(1) unfolding resched_def
proof (elim disjE exE conjE)
  fix t :: "'a kernel"
  assume t: "last_run t = last_run s" "length (slots t) = length (slots s)" "ptab u = ptab (schedule t)"
  have "ready_at (schedule t) j" using ready_at_ptab [OF t(3)] assms(2) by simp
  then show ?thesis using schedule_closer [of t j] t assms(3) by (simp add: ptab_eq)
qed simp

definition TIMER_CAUSE :: usize where [simp]: "TIMER_CAUSE = 0x8000000000000005"

lemma timer_closer:
  assumes "usertrap e TIMER_CAUSE s = Some (r, u)" "ready_at u j" "length (slots s) = 64"
  shows "slot_dist (last_run u) j < slot_dist (last_run s) j"
proof -
  have tick: "last_run (timer_tick e s) = last_run s" "slots (timer_tick e s) = slots s"
    by (simp_all add: timer_tick_def clint_set_next_def split: prod.split)
  have "yield_current (timer_tick e s) = Some u"
    using assms(1) by (simp add: usertrap_def Let_def bind_eq_Some_conv)
  then obtain t where "last_run t = last_run s" "length (slots t) = 64" "u = schedule t"
    using yield_current_resched tick assms(3) by metis
  then show ?thesis using schedule_closer [of t j] assms(2) by simp
qed

text \<open>
  A run in which slot \<open>j\<close> is ready in every state: \<open>passed_over e j n s u\<close> with \<open>n\<close> the number of timer
  interrupts taken in user mode.
\<close>

inductive passed_over :: "'d env \<Rightarrow> nat \<Rightarrow> nat \<Rightarrow> 'd kernel \<Rightarrow> 'd kernel \<Rightarrow> bool" for e j where
  po_start: "ready_at s j \<Longrightarrow> passed_over e j 0 s s"
| po_timer: "passed_over e j n s t \<Longrightarrow> CURRENT t \<noteq> NO_PROC \<Longrightarrow> usertrap e TIMER_CAUSE t = Some (r, u) \<Longrightarrow>
    ready_at u j \<Longrightarrow> passed_over e j (n + 1) s u"
| po_other: "passed_over e j n s t \<Longrightarrow> kstep e t u \<Longrightarrow> ready_at u j \<Longrightarrow> passed_over e j n s u"

lemma passed_over_bound:
  "passed_over e j n s u \<Longrightarrow> pinv (absp s) \<Longrightarrow> length (slots s) = 64 \<Longrightarrow>
     n + slot_dist (last_run u) j \<le> slot_dist (last_run s) j \<and> pinv (absp u) \<and> length (slots u) = 64"
proof (induction rule: passed_over.induct)
  case (po_timer n s t r u)
  then have "tsteps t u" using usertrap_steps by blast
  moreover have "slot_dist (last_run u) j < slot_dist (last_run t) j" using timer_closer po_timer by blast
  ultimately show ?case using po_timer tsteps_pinv [of t u] by (auto simp: tsteps_def)
next
  case (po_other n s t u)
  then have "tsteps t u" using kstep_steps by blast
  moreover have "slot_dist (last_run u) j \<le> slot_dist (last_run t) j"
    using resched_closer kstep_resched po_other by blast
  ultimately show ?case using po_other tsteps_pinv [of t u] by (auto simp: tsteps_def)
qed auto

section \<open>Properties of the scheduler\<close>

text \<open>
  \<open>pick_next\<close> takes the first ready slot in cyclic order after the one that ran last, marks it running
  and remembers it, touching nothing else; it finds none exactly when no slot is ready.
\<close>

lemma pick_next_cyclic:
  "case pick_next s of
     (None, t) \<Rightarrow> t = s \<and> (\<forall>i. i < MAX_PROCS \<longrightarrow> \<not> ready_at s i)
   | (Some (i, root), t) \<Rightarrow>
       i < MAX_PROCS \<and> ready_at s i \<and> root = root_pa (the (proc_at s i)) \<and>
       (\<forall>j. j < MAX_PROCS \<and> ready_at s j \<longrightarrow> slot_dist (last_run s) i \<le> slot_dist (last_run s) j) \<and>
       t = (upd_proc i (\<lambda>p. p\<lparr>pstate := Running\<rparr>) s)\<lparr>last_run := i\<rparr>"
proof (cases "pick_next s")
  case (Pair r t)
  show ?thesis
  proof (cases r)
    case None
    then show ?thesis using Pair pick_next_None [of s t] by simp
  next
    case (Some ir)
    obtain i root where ir: "ir = (i, root)" by (cases ir)
    from pick_next_Some [of s i root t] Pair Some ir obtain d p where d: "1 \<le> d" "d \<le> 64" "i = (last_run s + d) mod 64"
      and p: "proc_at s i = Some p" "pstate p = Ready" "root = root_pa p"
      and no: "\<And>c. 1 \<le> c \<Longrightarrow> c < d \<Longrightarrow> \<not> ready_at s ((last_run s + c) mod 64)"
      and t: "t = (set_proc i (Some (p\<lparr>pstate := Running\<rparr>)) s)\<lparr>last_run := i\<rparr>" by metis
    have "d \<le> slot_dist (last_run s) j" if "j < 64" "ready_at s j" for j
      using no [of "slot_dist (last_run s) j"] slot_dist_bounds [OF that(1), of "last_run s"]
        slot_dist_reaches [OF that(1), of "last_run s"] that(2) by (metis not_less)
    moreover have "slot_dist (last_run s) i = d" unfolding d(3) using d by (simp add: slot_dist_unique)
    ultimately show ?thesis
      using Pair Some ir d p t by (simp add: ready_at_def upd_proc_def)
  qed
qed

text \<open>Three processes, the first running: a timer interrupt dispatches the second and passes over the third.\<close>

definition three_procs :: "unit kernel" where
  "three_procs = init_running\<lparr>slots := Some (init_proc\<lparr>pstate := Running\<rparr>) # Some (init_proc\<lparr>pid := 2, parent := 0\<rparr>) #
     Some (init_proc\<lparr>pid := 3, parent := 0\<rparr>) # replicate 61 None, next_pid := 4\<rparr>"

lemma three_procs_statics [simp]:
  "next_pid three_procs = 4" "CURRENT three_procs = 0" "length (slots three_procs) = 64" "last_run three_procs = 0"
  by (simp_all add: three_procs_def init_running_def init_kernel_def)

lemma three_procs_at:
  "proc_at three_procs i = (if i = 0 then Some (init_proc\<lparr>pstate := Running\<rparr>)
     else if i = 1 then Some (init_proc\<lparr>pid := 2, parent := 0\<rparr>)
     else if i = 2 then Some (init_proc\<lparr>pid := 3, parent := 0\<rparr>) else None)"
proof -
  have "slots three_procs ! i = None" if "3 \<le> i" "i < 64"
    using that by (simp add: three_procs_def nth_Cons' nth_replicate)
  then show ?thesis unfolding proc_at_def by (auto simp: three_procs_def nth_Cons')
qed

lemma three_procs_pinv: "pinv (absp three_procs)"
proof -
  have n: "(0 :: nat) \<noteq> NO_PROC" by (simp add: NO_PROC_def)
  have at: "T (absp three_procs) i = Some e \<longleftrightarrow>
      i = 0 \<and> e = \<lparr>epid = 1, estate = Running, eparent = NO_PROC\<rparr> \<or>
      i = 1 \<and> e = \<lparr>epid = 2, estate = Ready, eparent = 0\<rparr> \<or>
      i = 2 \<and> e = \<lparr>epid = 3, estate = Ready, eparent = 0\<rparr>" for i e
    by (auto simp: three_procs_at pentry_of_def init_proc_def)
  show ?thesis
    by (rule pinvI; unfold at absp_simps(2,3)) (use n in force)+
qed

lemma three_procs_tick:
  "\<exists>u. usertrap silent_env TIMER_CAUSE three_procs = Some (Scheduled, u) \<and> ready_at u 2"
proof -
  let ?t = "(upd_proc 0 (\<lambda>p. if pstate p = Running then p\<lparr>pstate := Ready\<rparr> else p) (timer_tick silent_env three_procs))\<lparr>CURRENT := NO_PROC\<rparr>"
  have tick: "proc_at (timer_tick silent_env three_procs) = proc_at three_procs"
    "length (slots (timer_tick silent_env three_procs)) = 64" "CURRENT (timer_tick silent_env three_procs) = 0"
    "last_run (timer_tick silent_env three_procs) = 0"
    by (simp_all add: timer_tick_def clint_set_next_def silent_env_def)
  have l: "[1..<64 + 1] = (1 :: nat) # [2..<65]" by (simp add: upt_conv_Cons del: upt_rec_numeral)
  have "pick_next ?t = (Some (1, 0), (set_proc 1 (Some (init_proc\<lparr>pid := 2, parent := 0, pstate := Running\<rparr>)) ?t)\<lparr>last_run := 1\<rparr>)"
    unfolding pick_next_def MAX_PROCS_def
    unfolding l by (simp add: tick proc_at_upd_proc three_procs_at init_proc_def del: upt_rec_numeral)
  then have "ready_at (schedule ?t) 2"
    by (simp add: schedule_def ready_at_def proc_at_set_proc tick proc_at_upd_proc three_procs_at init_proc_def)
  moreover have "usertrap silent_env TIMER_CAUSE three_procs = Some (Scheduled, schedule ?t)"
    by (simp add: usertrap_def yield_current_def Let_def tick)
  ultimately show ?thesis by blast
qed

text \<open>
  C8: round robin is fair. In any run of the kernel in which a process is ready in every state, fewer than
  64 timer interrupts are taken in user mode: after that many ticks it has been dispatched.
\<close>

theorem round_robin_fair:
  assumes "passed_over e j n s s'" "pinv (absp s)" "length (slots s) = MAX_PROCS"
  shows "n < MAX_PROCS"
proof -
  have "ready_at s' j" using assms(1) by (rule passed_over.cases) auto
  moreover have b: "n + slot_dist (last_run s') j \<le> slot_dist (last_run s) j" "length (slots s') = 64"
    using passed_over_bound [OF assms(1,2)] assms(3) by auto
  ultimately have "j < 64" using ready_at_slots by fastforce
  then show ?thesis using b slot_dist_bounds [of j "last_run s"] slot_dist_bounds [of j "last_run s'"] by simp
qed

theorem round_robin_fair_witness:
  "passed_over silent_env 2 1 three_procs (snd (the (usertrap silent_env TIMER_CAUSE three_procs))) \<and> (1 :: nat) < MAX_PROCS"
proof -
  let ?s' = "snd (the (usertrap silent_env TIMER_CAUSE three_procs))"
  have t: "usertrap silent_env TIMER_CAUSE three_procs = Some (Scheduled, ?s')" "ready_at ?s' 2"
    using three_procs_tick by auto
  have "ready_at three_procs 2" by (simp add: ready_at_def three_procs_at init_proc_def)
  from po_timer [OF po_start [OF this] _ t] have p: "passed_over silent_env 2 1 three_procs ?s'"
    by (simp add: NO_PROC_def)
  from round_robin_fair [OF this three_procs_pinv] p show ?thesis by simp
qed

end
