(* ===== verification/User_Space.thy ===== *)
theory User_Space
  imports Mmu
begin

unbundle bit_operations_syntax

text \<open>
  User address spaces as their owners see them. \<open>install_page\<close> is what program loading, stack set-up,
  \<open>mmap\<close> and \<open>fork\<close> have in common: a fresh frame is filled and mapped. The theory ends with the proof that
  \<open>clone_user_space\<close> duplicates the parent's pages into frames of the child's own.
\<close>

section \<open>Installing a page\<close>

lemma frame_of_page: "page_aligned f \<Longrightarrow> i < 4096 \<Longrightarrow> frame_of (f + word_of_nat i) = frame_of f"
  by (rule frame_of_add)

lemma path_frames_tables:
  assumes "tree_wf m root F"
  shows "path_frames m root v \<inter> F = {}"
  using tree_wfD(2) [OF assms] tpath_prefix [OF _ tpath_va(1)] by (fastforce simp: path_frames_def)

lemma path_frames_agree:
  assumes wf: "tree_wf m root F"
    and same: "\<And>q t i. tpath q \<Longrightarrow> node m root q = Some t \<Longrightarrow> i < 512 \<Longrightarrow> pte m' t i = pte m t i"
  shows "path_frames m' root v = path_frames m root v"
proof -
  have "node m' root q = node m root q" if "tpath q" for q by (rule tree_agree(1) [OF wf _ that]) (use same in auto)
  then show ?thesis
    unfolding path_frames_def by (intro Collect_cong ex_cong1 conj_cong) (simp_all add: tpath_prefix [OF _ tpath_va(1)])
qed

lemma tree_other_frame:
  assumes wf: "tree_wf m root F" and f: "f \<in> F" and out: "\<And>x. frame_of x \<noteq> f \<Longrightarrow> m' x = m x" and "F' \<subseteq> F"
  shows "tree_wf m' root F'" "pte_at m' root v = pte_at m root v" "path_frames m' root v = path_frames m root v"
proof -
  have same: "pte m' t i = pte m t i" if "tpath q" "node m root q = Some t" "i < 512" for q t i
  proof (rule pte_cong [OF node_aligned [OF tree_wfD(1) [OF wf] that(2)] that(3)])
    fix x assume "frame_of x = frame_of t"
    then show "m' x = m x" using tree_wfD(2) [OF wf that(1,2)] f by (intro out) auto
  qed
  show "tree_wf m' root F'" by (rule tree_agree(2) [OF wf]) (use same assms(4) in auto)
  show "pte_at m' root v = pte_at m root v" by (rule tree_agree(3) [OF wf]) (use same in auto)
  show "path_frames m' root v = path_frames m root v" by (rule path_frames_agree [OF wf]) (use same in auto)
qed

text \<open>
  What installing a fresh frame \<open>f\<close> with contents \<open>bs\<close> at \<open>va\<close> promises, from the state \<open>s\<close> before the frame was
  taken to the state \<open>s'\<close> after \<open>map\<close>.
\<close>

definition installed :: "usize \<Rightarrow> usize \<Rightarrow> usize \<Rightarrow> u64 \<Rightarrow> u8 list \<Rightarrow> 'a machine_scheme \<Rightarrow> unit result \<Rightarrow> 'a machine_scheme \<Rightarrow> bool" where
  "installed root va f flags bs s r s' \<longleftrightarrow>
     machine_ok s' \<and> tree_wf (phys s') root (free_pages s') \<and> page_aligned f \<and> frame_of f \<in> free_pages s \<and>
     free_pages s' \<subseteq> free_pages s - {frame_of f} \<and> card (free_pages s) \<le> card (free_pages s') + 3 \<and>
     (\<forall>v. path_frames (phys s') root v \<subseteq> path_frames (phys s) root v \<union> (free_pages s - {frame_of f})) \<and>
     (\<forall>x. frame_of x \<notin> free_pages s \<union> path_frames (phys s) root va \<longrightarrow> phys s' x = phys s x) \<and>
     (\<forall>i < 4096. phys s' (f + word_of_nat i) = (if i < length bs then bs ! i else 0)) \<and>
     (case r of
        Inr _ \<Rightarrow> \<forall>v. pte_at (phys s') root v = (if same_page v va then leaf_entry f flags else pte_at (phys s) root v)
      | Inl e \<Rightarrow> free_pages s' = {} \<and> (\<forall>v. pte_at (phys s') root v = pte_at (phys s) root v))"

lemma install_page:
  assumes ok: "machine_ok s" and wf: "tree_wf (phys s) root (free_pages s)" and un: "\<not> pte_valid (pte_at (phys s) root va)"
    and pa: "page_alloc 1 s = (Some f, s1)" and bs: "length bs \<le> 4096"
  obtains r s' where "PageTable_map root va f flags (s1\<lparr>phys := store_bytes (phys s1) f bs\<rparr>) = Some (r, s')"
    and "installed root va f flags bs s r s'"
proof -
  let ?s2 = "s1\<lparr>phys := store_bytes (phys s1) f bs\<rparr>"
  have f: "page_aligned f" "frame_of f \<in> free_pages s"
    using pages.palloc_aligned [OF ok pa] pages.palloc_fresh [OF ok pa] by auto
  have free: "free_pages s1 = free_pages s - {frame_of f}" using pages.palloc_avail [OF ok pa] by simp
  have fin: "finite (free_pages s)" by (simp add: free_pages_def)
  have ok2: "machine_ok ?s2" using pages.palloc_ok [OF ok pa] by simp
  have out: "phys ?s2 x = phys s x" if "frame_of x \<noteq> frame_of f" for x
    using that store_bytes_other_frame [OF f(1), of 0 bs x] bs pages.palloc_store [OF ok pa] by simp
  have inside: "phys ?s2 (f + word_of_nat i) = (if i < length bs then bs ! i else 0)" if "i < 4096" for i
    using that bs pages.palloc_store [OF ok pa, of "f + word_of_nat i"] frame_of_page [OF f(1) that]
    by (simp add: store_bytes_def)
  note T = tree_other_frame [OF wf f(2) out, of "free_pages ?s2", simplified]
  have wf2: "tree_wf (phys ?s2) root (free_pages ?s2)" using T(1) free by auto
  have pte2: "pte_at (phys ?s2) root v = pte_at (phys s) root v" for v using T(2) free by auto
  have path2: "path_frames (phys ?s2) root v = path_frames (phys s) root v" for v using T(3) free by auto
  obtain r s' where m: "PageTable_map root va f flags ?s2 = Some (r, s')" and post: "page_op_post root va ?s2 s'"
    and c: "case r of
      Inr _ \<Rightarrow> \<not> pte_valid (pte_at (phys ?s2) root va) \<and>
        (\<forall>v. pte_at (phys s') root v = (if same_page v va then leaf_entry f flags else pte_at (phys ?s2) root v))
    | Inl e \<Rightarrow> (\<forall>v. pte_at (phys s') root v = pte_at (phys ?s2) root v) \<and>
        (if pte_valid (pte_at (phys ?s2) root va) \<and> e = ''mmu: va already mapped'' then True
         else free_pages s' = {} \<and> e = ''mmu: out of memory for page table'')"
    and card: "card (free_pages ?s2) \<le> card (free_pages s') + 2"
    by (rule map_spec [OF ok2 wf2])
  have nf: "frame_of f \<notin> free_pages ?s2 \<union> path_frames (phys ?s2) root va"
    using path_frames_tables [OF wf, of va] f(2) path2 free by auto
  have "installed root va f flags bs s r s'"
    unfolding installed_def
  proof (intro conjI allI impI)
    show "machine_ok s'" "tree_wf (phys s') root (free_pages s')" "free_pages s' \<subseteq> free_pages s - {frame_of f}"
      using post free by (auto simp: page_op_post_def)
    show "card (free_pages s) \<le> card (free_pages s') + 3"
      using card f(2) fin by (simp add: free card_Diff_singleton)
    show "path_frames (phys s') root v \<subseteq> path_frames (phys s) root v \<union> (free_pages s - {frame_of f})" for v
    proof -
      have "path_frames (phys s') root v \<subseteq> path_frames (phys ?s2) root v \<union> free_pages ?s2"
        using post unfolding page_op_post_def by blast
      then show ?thesis unfolding path2 using free by simp
    qed
    show "phys s' x = phys s x" if "frame_of x \<notin> free_pages s \<union> path_frames (phys s) root va" for x
    proof -
      have "frame_of x \<noteq> frame_of f" "frame_of x \<notin> free_pages ?s2 \<union> path_frames (phys ?s2) root va"
        using that f(2) path2 free by auto
      then show ?thesis using post out [of x] unfolding page_op_post_def by simp
    qed
    show "phys s' (f + word_of_nat i) = (if i < length bs then bs ! i else 0)" if "i < 4096" for i
      using inside [OF that] nf frame_of_page [OF f(1) that] post unfolding page_op_post_def by simp
    show "case r of
        Inr _ \<Rightarrow> \<forall>v. pte_at (phys s') root v = (if same_page v va then leaf_entry f flags else pte_at (phys s) root v)
      | Inl e \<Rightarrow> free_pages s' = {} \<and> (\<forall>v. pte_at (phys s') root v = pte_at (phys s) root v)"
      using c un pte2 by (auto split: sum.splits)
  qed (rule f)+
  with m that show thesis by blast
qed

section \<open>Pages of the user slot\<close>

definition user_page :: "nat \<Rightarrow> nat \<Rightarrow> usize" where
  "user_page i1 i0 = push_bit 30 (word_of_nat USER_ROOT_SLOT) OR push_bit 21 (word_of_nat i1) OR push_bit 12 (word_of_nat i0)"

lemma three_fields:
  fixes a b c :: usize
  assumes a: "\<And>n. bit a n \<Longrightarrow> n < 9" and b: "\<And>n. bit b n \<Longrightarrow> n < 9" and c: "\<And>n. bit c n \<Longrightarrow> n < 9"
  defines "u \<equiv> push_bit 30 a OR push_bit 21 b OR push_bit 12 c"
  shows "take_bit 9 (drop_bit 30 u) = a" "take_bit 9 (drop_bit 21 u) = b" "take_bit 9 (drop_bit 12 u) = c"
  by (rule bit_word_eqI; force simp: u_def bit_simps dest: a b c)+

lemma small_nat_bit: "k < 512 \<Longrightarrow> bit (word_of_nat k :: usize) n \<Longrightarrow> n < 9"
proof -
  assume k: "k < 512" and n: "bit (word_of_nat k :: usize) n"
  have "take_bit 9 k = k" using k by (simp add: take_bit_nat_eq_self_iff)
  then have "bit k n = (n < 9 \<and> bit k n)" using bit_take_bit_iff [of 9 k n] by simp
  then show ?thesis using n by (simp add: bit_simps)
qed

lemma vpn_user_page:
  assumes "i1 < 512" "i0 < 512"
  shows "vpn (user_page i1 i0) 2 = 1" "vpn (user_page i1 i0) 1 = i1" "vpn (user_page i1 i0) 0 = i0"
proof -
  have "take_bit 9 (drop_bit 30 (user_page i1 i0)) = word_of_nat 1"
    "take_bit 9 (drop_bit 21 (user_page i1 i0)) = word_of_nat i1"
    "take_bit 9 (drop_bit 12 (user_page i1 i0)) = word_of_nat i0"
    unfolding user_page_def USER_ROOT_SLOT_def
    by (rule three_fields; use assms in \<open>auto intro: small_nat_bit small_nat_bit [of 1]\<close>)+
  then show "vpn (user_page i1 i0) 2 = 1" "vpn (user_page i1 i0) 1 = i1" "vpn (user_page i1 i0) 0 = i0"
    using assms by (simp_all add: vpn_take_bit)
qed

lemma same_user_page:
  assumes "i1 < 512" "i0 < 512"
  shows "same_page v (user_page i1 i0) \<longleftrightarrow> vpn v 2 = 1 \<and> (vpn v 1, vpn v 0) = (i1, i0)"
  using vpn_user_page [OF assms] by (auto simp: same_page_def vpath_def)

text \<open>What a process sees of a page: the permissions and the bytes.\<close>

definition page_flags :: "u64 \<Rightarrow> u64" where
  "page_flags e = e AND (PTE_R OR PTE_W OR PTE_X OR PTE_U)"

definition page_view :: "pmem \<Rightarrow> usize \<Rightarrow> usize \<Rightarrow> (u64 \<times> u8 list) option" where
  "page_view m root v =
     (let e = pte_at m root v in if pte_valid e then Some (page_flags e, load_bytes m (pte_pa e) 4096) else None)"

lemma page_flags_bits: "drop_bit 10 (page_flags e) = 0" "page_flags (leaf_entry f (page_flags e)) = page_flags e"
proof -
  have e: "page_flags e = e AND 30" for e by (simp add: page_flags_def)
  have "take_bit 10 (page_flags e) = page_flags e"
    unfolding e take_bit_eq_mask by (simp add: and.assoc mask_eq_exp_minus_1)
  then show "drop_bit 10 (page_flags e) = 0" by (metis drop_bit_take_bit diff_self_eq_0 take_bit_0)
  have "pa_pte f AND 30 = 0" using push_take_disjoint [of 10 "drop_bit 12 f" 30] by (simp add: pa_pte_def)
  then show "page_flags (leaf_entry f (page_flags e)) = page_flags e"
    by (simp add: e leaf_entry_def bit.conj_disj_distrib2 and.assoc)
qed

lemma load_page_cong:
  assumes "page_aligned p" "\<And>x. frame_of x = frame_of p \<Longrightarrow> m' x = m x"
  shows "load_bytes m' p 4096 = load_bytes m p 4096"
  using assms frame_of_page by (intro load_bytes_cong) auto

lemma page_view_None: "page_view m root v = None \<longleftrightarrow> \<not> pte_valid (pte_at m root v)"
  by (simp add: page_view_def Let_def)

lemma page_view_same: "same_page u v \<Longrightarrow> page_view m root u = page_view m root v"
  by (simp add: page_view_def same_page_pte [of u v])

section \<open>Filling an address space\<close>

text \<open>
  The state \<open>s\<close> of a loop that fills the user slot of \<open>dst\<close>, started on memory \<open>m\<close>: memory has changed only in
  the frames \<open>F\<close> and in the root; the owner sees the pages \<open>E\<close>; each of them has a frame of its own among \<open>F\<close>,
  which no table uses.
\<close>

definition own_frame :: "nat set \<Rightarrow> usize \<Rightarrow> 'a machine_scheme \<Rightarrow> usize \<Rightarrow> bool" where
  "own_frame F dst s v \<longleftrightarrow>
     (let f = frame_of (pte_pa (pte_at (phys s) dst v)) in
      f \<in> F - free_pages s \<and>
      (\<forall>u. vpn u 2 = 1 \<longrightarrow> f \<notin> path_frames (phys s) dst u \<and>
         (pte_valid (pte_at (phys s) dst u) \<and> frame_of (pte_pa (pte_at (phys s) dst u)) = f \<longrightarrow> same_page u v)))"

definition space_at :: "pmem \<Rightarrow> nat set \<Rightarrow> usize \<Rightarrow> 'a machine_scheme \<Rightarrow> (usize \<Rightarrow> (u64 \<times> u8 list) option) \<Rightarrow> bool" where
  "space_at m F dst s E \<longleftrightarrow>
     machine_ok s \<and> tree_wf (phys s) dst (free_pages s) \<and> free_pages s \<subseteq> F \<and>
     (\<forall>x. frame_of x \<notin> insert (frame_of dst) F \<longrightarrow> phys s x = m x) \<and>
     (\<forall>v. vpn v 2 = 1 \<longrightarrow> path_frames (phys s) dst v \<subseteq> insert (frame_of dst) F) \<and>
     (\<forall>v. vpn v 2 \<noteq> 1 \<longrightarrow> pte_at (phys s) dst v = pte_at m dst v) \<and>
     (\<forall>v. vpn v 2 = 1 \<longrightarrow> page_view (phys s) dst v = E v) \<and>
     (\<forall>v. vpn v 2 = 1 \<and> pte_valid (pte_at (phys s) dst v) \<longrightarrow> own_frame F dst s v)"

text \<open>A space that is built from nothing takes its frames from the free ones.\<close>

abbreviation space_inv :: "'a machine_scheme \<Rightarrow> usize \<Rightarrow> 'a machine_scheme \<Rightarrow> (usize \<Rightarrow> (u64 \<times> u8 list) option) \<Rightarrow> bool" where
  "space_inv s0 \<equiv> space_at (phys s0) (free_pages s0)"

lemma space_invD:
  assumes "space_at m F dst s E"
  shows "machine_ok s" "tree_wf (phys s) dst (free_pages s)" "free_pages s \<subseteq> F"
    and "frame_of x \<notin> insert (frame_of dst) F \<Longrightarrow> phys s x = m x"
    and "vpn v 2 = 1 \<Longrightarrow> path_frames (phys s) dst v \<subseteq> insert (frame_of dst) F"
    and "vpn v 2 \<noteq> 1 \<Longrightarrow> pte_at (phys s) dst v = pte_at m dst v"
    and "vpn v 2 = 1 \<Longrightarrow> page_view (phys s) dst v = E v"
    and "vpn v 2 = 1 \<Longrightarrow> pte_valid (pte_at (phys s) dst v) \<Longrightarrow> own_frame F dst s v"
  using assms unfolding space_at_def by auto

lemma space_inv_view: "space_at m F dst s E \<Longrightarrow> (\<And>v. vpn v 2 = 1 \<Longrightarrow> E v = E' v) \<Longrightarrow> space_at m F dst s E'"
  by (auto simp: space_at_def)

text \<open>It starts with an empty user slot.\<close>

lemma space_inv_start:
  assumes "machine_ok s" "tree_wf (phys s) dst (free_pages s)" "\<not> pte_valid (pte (phys s) dst 1)"
  shows "space_inv s dst s (\<lambda>_. None)"
proof -
  have un: "pte_at (phys s) dst v = 0" if "vpn v 2 = 1" for v
    using assms(3) that by (simp add: pte_at_def vpath_def)
  have path: "path_frames (phys s) dst v = {frame_of dst}" if "vpn v 2 = 1" for v
    using assms(3) that by (auto simp: path_frames_def vpath_def prefix_Cons split: if_splits)
  show ?thesis unfolding space_at_def using assms(1,2) un path by (auto simp: page_view_None)
qed

lemma installedD:
  assumes "installed root va f flags bs s r s'"
  shows "machine_ok s'" "tree_wf (phys s') root (free_pages s')" "page_aligned f" "frame_of f \<in> free_pages s"
    and "free_pages s' \<subseteq> free_pages s - {frame_of f}" "card (free_pages s) \<le> card (free_pages s') + 3"
    and "path_frames (phys s') root v \<subseteq> path_frames (phys s) root v \<union> (free_pages s - {frame_of f})"
    and "frame_of x \<notin> free_pages s \<union> path_frames (phys s) root va \<Longrightarrow> phys s' x = phys s x"
    and "i < 4096 \<Longrightarrow> phys s' (f + word_of_nat i) = (if i < length bs then bs ! i else 0)"
    and "r = Inr u \<Longrightarrow> pte_at (phys s') root v = (if same_page v va then leaf_entry f flags else pte_at (phys s) root v)"
    and "r = Inl e \<Longrightarrow> free_pages s' = {}" "r = Inl e \<Longrightarrow> pte_at (phys s') root v = pte_at (phys s) root v"
  using assms unfolding installed_def by auto

lemma space_inv_install:
  assumes inv: "space_at m F dst s E" and va2: "vpn va 2 = 1" "E va = None"
    and ins: "installed dst va f flags bs s r s'" and flags: "page_flags flags = flags" and bs: "length bs \<le> 4096"
  shows "space_at m F dst s' (case r of
      Inr _ \<Rightarrow> \<lambda>v. if same_page v va then Some (flags, bs @ replicate (4096 - length bs) 0) else E v
    | Inl _ \<Rightarrow> E)"
proof -
  note I = space_invD [OF inv] and J = installedD [OF ins]
  have pa: "pte_pa (leaf_entry f flags) = f" "page_flags (leaf_entry f flags) = flags"
    using leaf_entry_pa [OF J(3), of flags] page_flags_bits(1) [of flags] page_flags_bits(2) [of f flags] flags by simp_all
  have kept: "pte_at (phys s') dst v = pte_at (phys s) dst v" if "r \<noteq> Inr () \<or> \<not> same_page v va" for v
    using J(10) [of "()" v] J(12) [of _ v] that by (cases r) auto
  have new: "pte_at (phys s') dst v = leaf_entry f flags" if "r = Inr ()" "same_page v va" for v
    using J(10) [OF that(1), of v] that(2) by simp
  have unmapped: "page_view (phys s) dst v = None" if "same_page v va" for v
    using page_view_same [OF that, of "phys s" dst] I(7) [OF va2(1)] va2(2) by simp
  have old_view: "page_view (phys s') dst v = page_view (phys s) dst v" if v: "vpn v 2 = 1" "pte_at (phys s') dst v = pte_at (phys s) dst v" for v
  proof (cases "pte_valid (pte_at (phys s) dst v)")
    case True
    let ?p = "pte_pa (pte_at (phys s) dst v)"
    have "frame_of ?p \<notin> free_pages s \<union> path_frames (phys s) dst va"
      using I(8) [OF v(1) True] va2(1) by (auto simp: own_frame_def Let_def)
    then have "load_bytes (phys s') ?p 4096 = load_bytes (phys s) ?p 4096"
      by (intro load_page_cong J(8)) simp_all
    then show ?thesis using v(2) by (simp add: page_view_def Let_def)
  qed (simp add: page_view_def Let_def v(2))
  have new_view: "page_view (phys s') dst v = Some (flags, bs @ replicate (4096 - length bs) 0)" if "r = Inr ()" "same_page v va" for v
  proof -
    have "load_bytes (phys s') f 4096 = bs @ replicate (4096 - length bs) 0"
      by (rule nth_equalityI) (use bs in \<open>auto simp: J(9) nth_append\<close>)
    then show ?thesis using new [OF that] pa by (simp add: page_view_def Let_def)
  qed
  have f0: "frame_of f \<in> F - free_pages s'" using J(4,5) I(3) by auto
  have ftab: "frame_of f \<notin> path_frames (phys s') dst u" for u
    using J(7) [of u] path_frames_tables [OF I(2), of u] J(4) by auto
  have own: "own_frame F dst s' v" if v: "vpn v 2 = 1" "pte_valid (pte_at (phys s') dst v)" for v
  proof (cases "r = Inr () \<and> same_page v va")
    case True
    have g: "pte_pa (pte_at (phys s') dst v) = f" using new True pa by simp
    have "same_page u v" if u: "vpn u 2 = 1" "pte_valid (pte_at (phys s') dst u)" "frame_of (pte_pa (pte_at (phys s') dst u)) = frame_of f" for u
    proof (rule ccontr)
      assume "\<not> same_page u v"
      then have nu: "\<not> same_page u va" using True by (auto simp: same_page_def)
      then have "own_frame F dst s u" using I(8) [OF u(1)] u(2) kept [of u] by simp
      then show False using u(3) kept [of u] nu J(4) by (simp add: own_frame_def Let_def)
    qed
    then show ?thesis unfolding own_frame_def Let_def g using f0 ftab by blast
  next
    case False
    then have k: "pte_at (phys s') dst v = pte_at (phys s) dst v" using kept by blast
    let ?g = "frame_of (pte_pa (pte_at (phys s) dst v))"
    have o: "?g \<in> F" "?g \<notin> free_pages s"
      and o2: "\<And>u. vpn u 2 = 1 \<Longrightarrow> ?g \<notin> path_frames (phys s) dst u"
      and o3: "\<And>u. vpn u 2 = 1 \<Longrightarrow> pte_valid (pte_at (phys s) dst u) \<Longrightarrow> frame_of (pte_pa (pte_at (phys s) dst u)) = ?g \<Longrightarrow> same_page u v"
      using I(8) [OF v(1)] v(2) k by (auto simp: own_frame_def Let_def)
    have "same_page u v" if u: "vpn u 2 = 1" "pte_valid (pte_at (phys s') dst u)" "frame_of (pte_pa (pte_at (phys s') dst u)) = ?g" for u
    proof (cases "r = Inr () \<and> same_page u va")
      case True
      then show ?thesis using u(3) new pa J(4) o(2) by simp
    qed (use kept [of u] u o3 in auto)
    then show ?thesis unfolding own_frame_def Let_def k using o o2 J(5,7) by blast
  qed
  show ?thesis
    unfolding space_at_def
  proof (intro conjI allI impI)
    show "machine_ok s'" "tree_wf (phys s') dst (free_pages s')" by (rule J)+
    show "free_pages s' \<subseteq> F" using J(5) I(3) by auto
    show "phys s' x = m x" if "frame_of x \<notin> insert (frame_of dst) (F)" for x
      using that J(8) [of x] I(4) [of x] I(5) [OF va2(1)] I(3) by auto
    show "path_frames (phys s') dst v \<subseteq> insert (frame_of dst) (F)" if "vpn v 2 = 1" for v
      using J(7) [of v] I(5) [OF that] I(3) by auto
    show "pte_at (phys s') dst v = pte_at m dst v" if "vpn v 2 \<noteq> 1" for v
      using kept [of v] I(6) [OF that] va2(1) that by (auto simp: same_page_def vpath_def)
    show "own_frame F dst s' v" if "vpn v 2 = 1 \<and> pte_valid (pte_at (phys s') dst v)" for v using own that by blast
    show "page_view (phys s') dst v = (case r of
        Inr _ \<Rightarrow> \<lambda>v. if same_page v va then Some (flags, bs @ replicate (4096 - length bs) 0) else E v | Inl _ \<Rightarrow> E) v"
      if v: "vpn v 2 = 1" for v
      using new_view [of v] kept [of v] old_view [OF v] I(7) [OF v] by (cases r) auto
  qed
qed

section \<open>Cloning\<close>

text \<open>The pages of \<open>D\<close> have been treated: the child sees the parent's pages of \<open>D\<close> and no others.\<close>

definition clone_view :: "'a machine_scheme \<Rightarrow> usize \<Rightarrow> (nat \<times> nat) set \<Rightarrow> usize \<Rightarrow> (u64 \<times> u8 list) option" where
  "clone_view s0 src D v = (if (vpn v 1, vpn v 0) \<in> D then page_view (phys s0) src v else None)"

definition clone_inv :: "'a machine_scheme \<Rightarrow> usize \<Rightarrow> usize \<Rightarrow> 'a machine_scheme \<Rightarrow> (nat \<times> nat) set \<Rightarrow> bool" where
  "clone_inv s0 src dst s D \<longleftrightarrow> space_inv s0 dst s (clone_view s0 src D)"

lemmas clone_invD = space_invD [OF clone_inv_def [THEN iffD1]]

lemma clone_inv_more:
  assumes "clone_inv s0 src dst s D"
    and "\<And>v. vpn v 2 = 1 \<Longrightarrow> (vpn v 1, vpn v 0) \<in> D' \<Longrightarrow> (vpn v 1, vpn v 0) \<notin> D \<Longrightarrow> page_view (phys s0) src v = None"
    and "\<And>v. (vpn v 1, vpn v 0) \<in> D \<Longrightarrow> (vpn v 1, vpn v 0) \<in> D'"
  shows "clone_inv s0 src dst s D'"
  using assms unfolding clone_inv_def by (elim space_inv_view) (auto simp: clone_view_def)

lemma clone_inv_skip:
  assumes inv: "clone_inv s0 src dst s D" and i: "i1 < 512" "i0 < 512"
    and e: "\<not> pte_valid (pte_at (phys s0) src (user_page i1 i0))"
  shows "clone_inv s0 src dst s (insert (i1, i0) D)"
proof (rule clone_inv_more [OF inv])
  fix v assume "vpn v 2 = 1" "(vpn v 1, vpn v 0) \<in> insert (i1, i0) D" "(vpn v 1, vpn v 0) \<notin> D"
  then have "same_page v (user_page i1 i0)" using same_user_page [OF i] by auto
  then show "page_view (phys s0) src v = None" using e by (simp add: page_view_None same_page_pte [of v "user_page i1 i0"])
qed simp

lemma clone_inv_install:
  assumes inv: "clone_inv s0 src dst s D" and i: "i1 < 512" "i0 < 512" "(i1, i0) \<notin> D"
    and ins: "installed dst (user_page i1 i0) f (page_flags e) bs s r s'"
    and e: "e = pte_at (phys s0) src (user_page i1 i0)" "pte_valid e" and bs: "bs = load_bytes (phys s0) (pte_pa e) 4096"
  shows "clone_inv s0 src dst s' (case r of Inr _ \<Rightarrow> insert (i1, i0) D | Inl _ \<Rightarrow> D)"
proof -
  let ?va = "user_page i1 i0"
  have va: "vpn ?va 2 = 1" "clone_view s0 src D ?va = None"
    using vpn_user_page [OF i(1,2)] i(3) by (simp_all add: clone_view_def)
  have "page_flags (page_flags e) = page_flags e" by (simp add: page_flags_def and.assoc)
  moreover have "length bs = 4096" "bs @ replicate (4096 - length bs) 0 = bs" by (simp_all add: bs)
  ultimately have *: "space_inv s0 dst s' (case r of
      Inr _ \<Rightarrow> \<lambda>v. if same_page v ?va then Some (page_flags e, bs) else clone_view s0 src D v
    | Inl _ \<Rightarrow> clone_view s0 src D)"
    using space_inv_install [OF inv [unfolded clone_inv_def] va ins] by (metis order_refl)
  have "Some (page_flags e, bs) = page_view (phys s0) src v" if "same_page v ?va" for v
    unfolding page_view_same [OF that, of "phys s0" src] using e bs by (simp add: page_view_def Let_def)
  then show ?thesis unfolding clone_inv_def
    using * by (cases r) (auto elim!: space_inv_view simp: clone_view_def same_user_page [OF i(1,2)])
qed

text \<open>The parent's tables and pages are allocated frames other than the child's root.\<close>

definition clone_source :: "'a machine_scheme \<Rightarrow> usize \<Rightarrow> usize \<Rightarrow> bool" where
  "clone_source s0 src dst \<longleftrightarrow> tree_wf (phys s0) src (free_pages s0) \<and>
     (\<forall>q t. tpath q \<and> node (phys s0) src q = Some t \<longrightarrow> frame_of t \<noteq> frame_of dst) \<and>
     (\<forall>v. vpn v 2 = 1 \<and> pte_valid (pte_at (phys s0) src v) \<longrightarrow>
        frame_of (pte_pa (pte_at (phys s0) src v)) \<notin> insert (frame_of dst) (free_pages s0))"

lemma clone_source_pte:
  assumes src: "clone_source s0 src dst" and inv: "clone_inv s0 src dst s D"
    and t: "tpath q" "node (phys s0) src q = Some t" "i < 512"
  shows "pte (phys s) t i = pte (phys s0) t i"
proof (rule pte_cong [OF _ t(3)])
  have wf: "tree_wf (phys s0) src (free_pages s0)" using src by (simp add: clone_source_def)
  show "page_aligned t" by (rule node_aligned [OF tree_wfD(1) [OF wf] t(2)])
  fix x assume "frame_of x = frame_of t"
  moreover have "frame_of t \<notin> insert (frame_of dst) (free_pages s0)"
    using tree_wfD(2) [OF wf t(1,2)] src t by (auto simp: clone_source_def)
  ultimately show "phys s x = phys s0 x" using clone_invD(4) [OF inv] by simp
qed

text \<open>The parent is untouched.\<close>

lemma clone_source_kept:
  assumes src: "clone_source s0 src dst" and inv: "clone_inv s0 src dst s D"
  shows "tree_wf (phys s) src (free_pages s)" "pte_at (phys s) src v = pte_at (phys s0) src v"
    and "vpn v 2 = 1 \<Longrightarrow> page_view (phys s) src v = page_view (phys s0) src v"
    and "path_frames (phys s) src v = path_frames (phys s0) src v"
proof -
  have wf: "tree_wf (phys s0) src (free_pages s0)" using src by (simp add: clone_source_def)
  note same = clone_source_pte [OF src inv]
  show "path_frames (phys s) src v = path_frames (phys s0) src v" by (rule path_frames_agree [OF wf]) (use same in auto)
  show "tree_wf (phys s) src (free_pages s)"
    by (rule tree_agree(2) [OF wf]) (use same clone_invD(3) [OF inv] in auto)
  show p: "pte_at (phys s) src v = pte_at (phys s0) src v" for v by (rule tree_agree(3) [OF wf]) (use same in auto)
  show "page_view (phys s) src v = page_view (phys s0) src v" if "vpn v 2 = 1"
  proof (cases "pte_valid (pte_at (phys s0) src v)")
    case True
    then have "frame_of (pte_pa (pte_at (phys s0) src v)) \<notin> insert (frame_of dst) (free_pages s0)"
      using src that by (simp add: clone_source_def)
    then have "load_bytes (phys s) (pte_pa (pte_at (phys s0) src v)) 4096 = load_bytes (phys s0) (pte_pa (pte_at (phys s0) src v)) 4096"
      using clone_invD(4) [OF inv] by (intro load_page_cong) simp_all
    then show ?thesis by (simp add: page_view_def Let_def p)
  qed (simp add: page_view_def Let_def p)
qed

lemma clone_page_step:
  assumes src: "clone_source s0 src dst" and inv: "clone_inv s0 src dst s D"
    and i: "i1 < 512" "i0 < 512" "(i1, i0) \<notin> D"
    and e: "e = pte_at (phys s0) src (user_page i1 i0)" "pte_valid e"
  obtains r s' where "clone_page dst i1 i0 e s = Some (r, s')" and "card (free_pages s) \<le> card (free_pages s') + 3"
    and "clone_inv s0 src dst s' (case r of Inr _ \<Rightarrow> insert (i1, i0) D | Inl _ \<Rightarrow> D)"
    and "r = Inr () \<or> free_pages s' = {}"
proof -
  let ?va = "user_page i1 i0"
  note I = clone_invD [OF inv]
  have va2: "vpn ?va 2 = 1" using vpn_user_page [OF i(1,2)] by simp
  obtain q s1 where pa: "page_alloc 1 s = (q, s1)" by (metis surj_pair)
  show thesis
  proof (cases q)
    case None
    then have n: "s1 = s" "free_pages s = {}" using page_alloc_1_None [OF I(1)] pa by auto
    show thesis
      by (rule that [of "Inl ''fork: out of memory''" s]) (use None pa n inv in \<open>simp_all add: clone_page_def Let_def\<close>)
  next
    case (Some f)
    have sf: "frame_of (pte_pa e) \<notin> insert (frame_of dst) (free_pages s0)"
      using src e va2 by (simp add: clone_source_def)
    have bs: "load_bytes (phys s1) (pte_pa e) 4096 = load_bytes (phys s0) (pte_pa e) 4096"
    proof (rule load_page_cong)
      fix x assume x: "frame_of x = frame_of (pte_pa e)"
      then have "phys s1 x = phys s x" using pages.palloc_keeps [OF I(1) pa, of x] sf I(3) by auto
      then show "phys s1 x = phys s0 x" using I(4) [of x] x sf by simp
    qed simp
    have un: "\<not> pte_valid (pte_at (phys s) dst ?va)"
      using I(7) [OF va2] vpn_user_page [OF i(1,2)] i(3) by (simp add: clone_view_def page_view_None [symmetric])
    obtain r s' where m: "PageTable_map dst ?va f (page_flags e) (s1\<lparr>phys := store_bytes (phys s1) f (load_bytes (phys s1) (pte_pa e) 4096)\<rparr>) = Some (r, s')"
      and ins: "installed dst ?va f (page_flags e) (load_bytes (phys s1) (pte_pa e) 4096) s r s'"
      by (rule install_page [OF I(1,2) un pa [unfolded Some], of "load_bytes (phys s1) (pte_pa e) 4096" "page_flags e"]) auto
    show thesis
    proof (rule that [of r s'])
      show "clone_page dst i1 i0 e s = Some (r, s')"
        using m pa Some by (simp add: clone_page_def Let_def user_page_def page_flags_def)
      show "clone_inv s0 src dst s' (case r of Inr _ \<Rightarrow> insert (i1, i0) D | Inl _ \<Rightarrow> D)"
        by (rule clone_inv_install [OF inv i ins [unfolded bs] e refl])
      show "r = Inr () \<or> free_pages s' = {}" using installedD(11) [OF ins] by (cases r) auto
    qed (use installedD(6) [OF ins] in auto)
  qed
qed

text \<open>The loops: how many pages a table maps, and what has been treated when a loop ends.\<close>

definition mapped :: "pmem \<Rightarrow> usize \<Rightarrow> nat list \<Rightarrow> nat" where
  "mapped m l0 is = length (filter (\<lambda>i. pte_valid (pte m l0 i)) is)"

definition clone_result :: "'a machine_scheme \<Rightarrow> usize \<Rightarrow> usize \<Rightarrow> (nat \<times> nat) set \<Rightarrow> nat \<Rightarrow> 'a machine_scheme \<Rightarrow> unit result \<Rightarrow> 'a machine_scheme \<Rightarrow> bool" where
  "clone_result s0 src dst D n s r s' \<longleftrightarrow> card (free_pages s) \<le> card (free_pages s') + 3 * n \<and>
     (case r of Inr _ \<Rightarrow> clone_inv s0 src dst s' D | Inl _ \<Rightarrow> free_pages s' = {} \<and> (\<exists>D'. clone_inv s0 src dst s' D'))"

lemma clone_leaves_spec:
  assumes src: "clone_source s0 src dst" and l0: "node (phys s0) src [1, i1] = Some l0" "i1 < 512"
    and "clone_inv s0 src dst s D" "distinct is" "\<forall>i \<in> set is. i < 512 \<and> (i1, i) \<notin> D"
  shows "\<exists>r s'. clone_leaves dst i1 l0 is s = Some (r, s') \<and>
    clone_result s0 src dst (D \<union> {i1} \<times> set is) (mapped (phys s0) l0 is) s r s'"
  using assms(4-)
proof (induction "is" arbitrary: s D)
  case (Cons i "is")
  have i: "i < 512" "(i1, i) \<notin> D" "i \<notin> set is" using Cons.prems by auto
  let ?e = "pte (phys s0) l0 i"
  have e: "pte (phys s) l0 i = ?e"
    by (rule clone_source_pte [OF src Cons.prems(1) _ l0(1) i(1)]) (use l0(2) in \<open>simp add: tpath_def\<close>)
  have at: "?e = pte_at (phys s0) src (user_page i1 i)"
    using l0 vpn_user_page [OF l0(2) i(1)] by (simp add: pte_at_def vpath_def)
  have rest: "\<forall>j \<in> set is. j < 512 \<and> (i1, j) \<notin> insert (i1, i) D" using Cons.prems by auto
  have set: "insert (i1, i) D \<union> {i1} \<times> set is = D \<union> {i1} \<times> set (i # is)" by auto
  show ?case
  proof (cases "pte_valid ?e")
    case False
    then have inv: "clone_inv s0 src dst s (insert (i1, i) D)"
      using clone_inv_skip [OF Cons.prems(1) l0(2) i(1)] at by simp
    from Cons.IH [OF inv _ rest] Cons.prems(2) show ?thesis
      unfolding set using False e by (simp add: mapped_def)
  next
    case True
    obtain r s1 where c: "clone_page dst i1 i ?e s = Some (r, s1)" "card (free_pages s) \<le> card (free_pages s1) + 3"
      "clone_inv s0 src dst s1 (case r of Inr _ \<Rightarrow> insert (i1, i) D | Inl _ \<Rightarrow> D)" "r = Inr () \<or> free_pages s1 = {}"
      by (rule clone_page_step [OF src Cons.prems(1) l0(2) i(1,2) at True])
    show ?thesis
    proof (cases r)
      case (Inl er)
      then show ?thesis using True e c by (auto simp: clone_result_def mapped_def)
    next
      case (Inr u)
      then have inv: "clone_inv s0 src dst s1 (insert (i1, i) D)" using c(3) by simp
      from Cons.IH [OF inv _ rest] Cons.prems(2) obtain r' s' where
        "clone_leaves dst i1 l0 is s1 = Some (r', s')"
        "clone_result s0 src dst (D \<union> {i1} \<times> set (i # is)) (mapped (phys s0) l0 is) s1 r' s'"
        unfolding set by auto
      then show ?thesis using True e c(1,2) Inr
        by (intro exI [of _ r'] exI [of _ s']) (auto simp: clone_result_def mapped_def)
    qed
  qed
qed (auto simp: clone_result_def mapped_def)

text \<open>The number of pages an address space maps in the user slot, as the loops count them.\<close>

definition user_pages :: "pmem \<Rightarrow> usize \<Rightarrow> nat list \<Rightarrow> nat" where
  "user_pages m l1 is =
     sum_list (map (\<lambda>i. if pte_valid (pte m l1 i) then mapped m (pte_pa (pte m l1 i)) [0..<512] else 0) is)"

lemma clone_tables_spec:
  assumes src: "clone_source s0 src dst" and l1: "node (phys s0) src [1] = Some l1"
    and "clone_inv s0 src dst s D" "distinct is" "\<forall>i \<in> set is. i < 512 \<and> (\<forall>j. (i, j) \<notin> D)"
  shows "\<exists>r s'. clone_tables dst l1 is s = Some (r, s') \<and>
    clone_result s0 src dst (D \<union> set is \<times> {0..<512}) (user_pages (phys s0) l1 is) s r s'"
  using assms(3-)
proof (induction "is" arbitrary: s D)
  case (Cons i "is")
  have i: "i < 512" "\<And>j. (i, j) \<notin> D" "i \<notin> set is" using Cons.prems by auto
  let ?e = "pte (phys s0) l1 i"
  have e: "pte (phys s) l1 i = ?e"
    by (rule clone_source_pte [OF src Cons.prems(1) _ l1 i(1)]) (simp add: tpath_def)
  let ?D = "D \<union> {i} \<times> {0..<512}"
  have rest: "\<forall>j \<in> set is. j < 512 \<and> (\<forall>k. (j, k) \<notin> ?D)" using Cons.prems by auto
  have set: "?D \<union> set is \<times> {0..<512} = D \<union> set (i # is) \<times> {0..<512}" by auto
  show ?case
  proof (cases "pte_valid ?e")
    case False
    have none: "page_view (phys s0) src v = None" if "vpn v 2 = 1" "vpn v 1 = i" for v
      using l1 False that by (auto simp: page_view_None pte_at_def vpath_def split: if_splits option.splits)
    have inv: "clone_inv s0 src dst s ?D" by (rule clone_inv_more [OF Cons.prems(1)]) (use none in auto)
    from Cons.IH [OF inv _ rest] Cons.prems(2) show ?thesis
      unfolding set using False e by (simp add: user_pages_def)
  next
    case True
    have l0: "node (phys s0) src [1, i] = Some (pte_pa ?e)" using l1 True by (auto split: if_splits)
    obtain r s1 where c: "clone_leaves dst i (pte_pa ?e) [0..<512] s = Some (r, s1)"
      "clone_result s0 src dst ?D (mapped (phys s0) (pte_pa ?e) [0..<512]) s r s1"
      using clone_leaves_spec [OF src l0 i(1) Cons.prems(1), of "[0..<512]"] i(2) by auto
    show ?thesis
    proof (cases r)
      case (Inl er)
      then show ?thesis using True e c by (auto simp: clone_result_def user_pages_def)
    next
      case (Inr u)
      then have inv: "clone_inv s0 src dst s1 ?D" using c(2) by (simp add: clone_result_def)
      from Cons.IH [OF inv _ rest] Cons.prems(2) obtain r' s' where
        "clone_tables dst l1 is s1 = Some (r', s')"
        "clone_result s0 src dst (D \<union> set (i # is) \<times> {0..<512}) (user_pages (phys s0) l1 is) s1 r' s'"
        unfolding set by auto
      then show ?thesis using True e c Inr
        by (intro exI [of _ r'] exI [of _ s']) (auto simp: clone_result_def user_pages_def)
    qed
  qed
qed (auto simp: clone_result_def user_pages_def)

text \<open>How many pages the whole user slot of a root maps.\<close>

definition user_page_count :: "pmem \<Rightarrow> usize \<Rightarrow> nat" where
  "user_page_count m root =
     (if pte_valid (pte m root 1) then user_pages m (pte_pa (pte m root 1)) [0..<512] else 0)"

lemma clone_user_space_spec:
  assumes src: "clone_source s src dst" and ok: "machine_ok s" and wf: "tree_wf (phys s) dst (free_pages s)"
    and slot: "\<not> pte_valid (pte (phys s) dst 1)"
  shows "\<exists>r s'. clone_user_space src dst s = Some (r, s') \<and>
    clone_result s src dst UNIV (user_page_count (phys s) src) s r s'"
proof -
  have "clone_view s src {} = (\<lambda>_. None)" by (simp add: clone_view_def fun_eq_iff)
  then have start: "clone_inv s src dst s {}" using space_inv_start [OF ok wf slot] by (simp add: clone_inv_def)
  show ?thesis
  proof (cases "pte_valid (pte (phys s) src 1)")
    case False
    then have "page_view (phys s) src v = None" if "vpn v 2 = 1" for v
      using that by (simp add: page_view_None pte_at_def vpath_def)
    then have "clone_inv s src dst s UNIV" by (intro clone_inv_more [OF start]) auto
    then show ?thesis using False by (simp add: clone_user_space_def clone_result_def Let_def user_page_count_def)
  next
    case True
    have l1: "node (phys s) src [1] = Some (pte_pa (pte (phys s) src 1))" using True by simp
    obtain r s' where c: "clone_tables dst (pte_pa (pte (phys s) src 1)) [0..<512] s = Some (r, s')"
      and res: "clone_result s src dst ({0..<512} \<times> {0..<512}) (user_pages (phys s) (pte_pa (pte (phys s) src 1)) [0..<512]) s r s'"
      using clone_tables_spec [OF src l1 start, of "[0..<512]"] by auto
    have "clone_inv s src dst s' UNIV" if "clone_inv s src dst s' ({0..<512} \<times> {0..<512})"
      by (rule clone_inv_more [OF that]) (use vpn_less in auto)
    then show ?thesis using c res True
      by (auto simp: clone_user_space_def clone_result_def Let_def user_page_count_def split: sum.splits)
  qed
qed

end
