(* ===== verification/Fork.thy ===== *)
theory Fork
  imports User_Space Kernel_Run
begin

unbundle bit_operations_syntax

text \<open>
  \<open>fork\<close> from the system-call layer down to the page tables: the child is a copy of its parent in frames
  of its own. The witness forks a process with one page.
\<close>

text \<open>
  A usable address space: a well-formed tree whose user pages have allocated frames of their own, which no table
  uses.
\<close>

definition space_ok :: "'a machine_scheme \<Rightarrow> usize \<Rightarrow> bool" where
  "space_ok s root \<longleftrightarrow> tree_wf (phys s) root (free_pages s) \<and>
     (\<forall>v. vpn v 2 = 1 \<and> pte_valid (pte_at (phys s) root v) \<longrightarrow> own_frame UNIV root s v)"

lemma space_ok_at: "space_at m F dst s E \<Longrightarrow> space_ok s dst"
  using space_invD(2,8) [of m F dst s E] by (auto simp: space_ok_def own_frame_def Let_def)

lemma space_ok_kept:
  assumes "space_ok s root" "tree_wf (phys s') root (free_pages s')" "free_pages s' \<subseteq> free_pages s"
    and "\<And>v. pte_at (phys s') root v = pte_at (phys s) root v" "\<And>v. path_frames (phys s') root v = path_frames (phys s) root v"
  shows "space_ok s' root"
  using assms(1-3) unfolding space_ok_def own_frame_def Let_def assms(4,5) by blast

lemma mapped_cong: "(\<And>i. i \<in> set is \<Longrightarrow> pte m' l i = pte m l i) \<Longrightarrow> mapped m' l is = mapped m l is"
  unfolding mapped_def by (metis (mono_tags, lifting) filter_cong)

lemma user_page_count_cong:
  assumes same: "\<And>q t i. tpath q \<Longrightarrow> node m root q = Some t \<Longrightarrow> i < 512 \<Longrightarrow> pte m' t i = pte m t i"
  shows "user_page_count m' root = user_page_count m root"
proof -
  have r: "pte m' root 1 = pte m root 1" using same [of "[]" root 1] by simp
  show ?thesis
  proof (cases "pte_valid (pte m root 1)")
    case True
    let ?l1 = "pte_pa (pte m root 1)"
    have "(if pte_valid (pte m' ?l1 i) then mapped m' (pte_pa (pte m' ?l1 i)) [0..<512] else 0) =
        (if pte_valid (pte m ?l1 i) then mapped m (pte_pa (pte m ?l1 i)) [0..<512] else 0)" if i: "i < 512" for i
    proof -
      have e: "pte m' ?l1 i = pte m ?l1 i" using same [of "[1]" ?l1 i] True i by (simp add: tpath_def)
      have "mapped m' (pte_pa (pte m ?l1 i)) [0..<512] = mapped m (pte_pa (pte m ?l1 i)) [0..<512]" if "pte_valid (pte m ?l1 i)"
        using same [of "[1, i]" "pte_pa (pte m ?l1 i)"] True i that by (intro mapped_cong) (simp add: tpath_def)
      then show ?thesis using e by simp
    qed
    then have "user_pages m' ?l1 [0..<512] = user_pages m ?l1 [0..<512]"
      unfolding user_pages_def by (intro arg_cong [where f = sum_list] map_cong) (auto simp del: upt_rec_numeral)
    then show ?thesis using True r by (simp add: user_page_count_def)
  qed (use r in \<open>simp add: user_page_count_def\<close>)
qed

text \<open>The memory half of fork: a new root, and the clone of the parent in it.\<close>

lemma fork_memory:
  assumes ok: "machine_ok s" and k: "tree_wf (phys s) kroot (free_pages s)" and sp: "space_ok s src"
    and mem: "3 * user_page_count (phys s) src + 1 < card (free_pages s)"
  obtains dst s1 s2 where "new_user_root kroot s = (Some dst, s1)" "clone_user_space src dst s1 = Some (Inr (), s2)"
    "machine_ok s2" "space_ok s2 dst" "space_ok s2 src"
    "\<And>v. vpn v 2 = 1 \<Longrightarrow> page_view (phys s2) dst v = page_view (phys s) src v"
    "\<And>v. vpn v 2 = 1 \<Longrightarrow> page_view (phys s2) src v = page_view (phys s) src v"
    "\<And>u v. vpn u 2 = 1 \<Longrightarrow> vpn v 2 = 1 \<Longrightarrow> pte_valid (pte_at (phys s2) dst u) \<Longrightarrow> pte_valid (pte_at (phys s2) src v) \<Longrightarrow>
       frame_of (pte_pa (pte_at (phys s2) dst u)) \<noteq> frame_of (pte_pa (pte_at (phys s2) src v))"
proof (rule new_user_root_spec [OF ok k], goal_cases none some)
  case none
  then show ?case using mem by simp
next
  case (some dst s1)
  note some = some(2-)
  have wf: "tree_wf (phys s) src (free_pages s)"
    and leaf: "\<And>v. vpn v 2 = 1 \<Longrightarrow> pte_valid (pte_at (phys s) src v) \<Longrightarrow> frame_of (pte_pa (pte_at (phys s) src v)) \<notin> free_pages s"
    using sp by (auto simp: space_ok_def own_frame_def Let_def)
  note T = tree_other_frame [OF wf some(6) some(8), of "free_pages s1"]
  have wf1: "tree_wf (phys s1) src (free_pages s1)" and p1: "\<And>v. pte_at (phys s1) src v = pte_at (phys s) src v"
    using T some(7) by auto
  have same: "pte (phys s1) t i = pte (phys s) t i" if "tpath q" "node (phys s) src q = Some t" "i < 512" for q t i
  proof (rule pte_cong [OF node_aligned [OF tree_wfD(1) [OF wf] that(2)] that(3)])
    fix x assume "frame_of x = frame_of t"
    then have "frame_of x \<noteq> frame_of dst" using some(6) tree_wfD(2) [OF wf that(1,2)] by auto
    then show "phys s1 x = phys s x" by (rule some(8))
  qed
  have node1: "node (phys s1) src q = node (phys s) src q" if "tpath q" for q
    by (rule tree_agree(1) [OF wf _ that]) (use same in auto)
  have source: "clone_source s1 src dst"
    unfolding clone_source_def
  proof (intro conjI allI impI wf1)
    fix q t assume q: "tpath q \<and> node (phys s1) src q = Some t"
    then have "node (phys s) src q = Some t" using node1 [of q] by simp
    then show "frame_of t \<noteq> frame_of dst" using tree_wfD(2) [OF wf, of q t] some(6) q by auto
  next
    fix v assume "vpn v 2 = 1 \<and> pte_valid (pte_at (phys s1) src v)"
    then show "frame_of (pte_pa (pte_at (phys s1) src v)) \<notin> insert (frame_of dst) (free_pages s1)"
      using leaf [of v] p1 some(6,7) by auto
  qed
  have view1: "page_view (phys s1) src v = page_view (phys s) src v" if "vpn v 2 = 1" for v
  proof (cases "pte_valid (pte_at (phys s) src v)")
    case True
    then have "frame_of (pte_pa (pte_at (phys s) src v)) \<noteq> frame_of dst" using leaf [OF that] some(6) by auto
    then show ?thesis using some(8) load_page_cong [of "pte_pa (pte_at (phys s) src v)" "phys s1" "phys s"]
      by (simp add: page_view_def Let_def p1)
  qed (simp add: page_view_def Let_def p1)
  have count: "user_page_count (phys s1) src = user_page_count (phys s) src"
    by (rule user_page_count_cong) (use same in auto)
  have slot: "\<not> pte_valid (pte (phys s1) dst 1)" using some(9) by simp
  obtain r s2 where c: "clone_user_space src dst s1 = Some (r, s2)"
    and res: "clone_result s1 src dst UNIV (user_page_count (phys s) src) s1 r s2"
    using clone_user_space_spec [OF source some(2,3) slot] count by auto
  have "finite (free_pages s)" by (simp add: free_pages_def)
  then have "card (free_pages s1) + 1 = card (free_pages s)"
    using some(6) card.remove [of "free_pages s" "frame_of dst"] unfolding some(7) by simp
  then have "card (free_pages s2) \<noteq> 0" using res mem by (auto simp: clone_result_def)
  then have inv: "clone_inv s1 src dst s2 UNIV" and r: "r = Inr ()"
    using res by (auto simp: clone_result_def split: sum.splits)
  note I = clone_invD [OF inv] and K = clone_source_kept [OF source inv]
  show ?case
  proof (rule that [OF some(1)])
    show "clone_user_space src dst s1 = Some (Inr (), s2)" using c r by simp
    show "machine_ok s2" by (rule I(1))
    show "space_ok s2 dst" by (rule space_ok_at [OF inv [unfolded clone_inv_def]])
    show "space_ok s2 src" by (rule space_ok_kept [OF sp]) (use K(1,2,4) p1 T(3) I(3) some(7) in auto)
    show "page_view (phys s2) dst v = page_view (phys s) src v" "page_view (phys s2) src v = page_view (phys s) src v" if "vpn v 2 = 1" for v
      using I(7) [OF that] K(3) [OF that] view1 [OF that] by (simp_all add: clone_view_def)
    fix u v assume a: "vpn u 2 = 1" "vpn v 2 = 1" "pte_valid (pte_at (phys s2) dst u)" "pte_valid (pte_at (phys s2) src v)"
    then have "frame_of (pte_pa (pte_at (phys s2) dst u)) \<in> free_pages s1" using I(8) by (simp add: own_frame_def Let_def)
    then show "frame_of (pte_pa (pte_at (phys s2) dst u)) \<noteq> frame_of (pte_pa (pte_at (phys s2) src v))"
      using leaf [OF a(2)] a(4) K(2) p1 some(7) by auto
  qed
qed

lemma set_tf_frames: "i < length (TRAPFRAMES s) \<Longrightarrow> tf_at (set_tf i tf s) i = tf"
  by (simp add: tf_at_def set_tf_def)

lemma set_proc_machine [simp]:
  "phys (set_proc i x s) = phys s" "free_pages (set_proc i x s) = free_pages s" "tf_at (set_proc i x s) = tf_at s"
  "phys (set_tf i tf s) = phys s" "free_pages (set_tf i tf s) = free_pages s"
  "space_ok (set_proc i x s) r = space_ok s r" "space_ok (set_tf i tf s) r = space_ok s r"
  "space_ok (s\<lparr>next_pid := n\<rparr>) r = space_ok s r" "free_pages (s\<lparr>next_pid := n\<rparr>) = free_pages s"
  by (simp_all add: space_ok_def own_frame_def set_proc_def set_tf_def free_pages_def tf_at_def fun_eq_iff)


text \<open>A process with one page, mapped at entry 5 of the first table of the user slot.\<close>

lemma one_page_free: "free_pages one_page_machine = {0x80203..<0x88000}"
proof -
  have "{512..<MAX_FRAMES} - {512..<515} = {515..<MAX_FRAMES}" by auto
  then show ?thesis using one_page_frames by (simp add: free_pages_def MAX_FRAMES_eq image_add_atLeastLessThan)
qed

lemma one_page_pte_at:
  assumes "vpn v 2 = 1" "pte_valid (pte_at one_page_mem 0x80000000 v)"
  shows "pte_at one_page_mem 0x80000000 v = leaf_entry 0x80202000 0x16" "vpath v = [1, 0] \<and> vpn v 0 = 5"
  using assms one_page_node [of "vpath v"] one_page_entries(3) [of "vpn v 0"]
  by (auto simp: pte_at_def vpath_def tpath_def split: if_splits option.splits)

lemma one_page_count: "user_page_count one_page_mem 0x80000000 = 1"
proof -
  have pick: "length (filter P is) = 1" if "distinct is" "k \<in> set is" "\<And>i. i \<in> set is \<Longrightarrow> P i \<longleftrightarrow> i = k" for P k and "is" :: "nat list"
  proof -
    have "filter P is = filter (\<lambda>i. i = k) is" by (rule filter_cong) (use that in auto)
    then show ?thesis using that(1,2) by (simp add: distinct_length_filter)
  qed
  have m: "mapped one_page_mem 0x80201000 [0..<512] = 1"
    unfolding mapped_def by (rule pick [of _ 5]) (auto simp: one_page_entries simp del: upt_rec_numeral)
  have e: "pte_pa (pa_pte 0x80200000 OR 1) = 0x80200000" "pte_pa (pa_pte 0x80201000 OR 1) = 0x80201000"
    by (rule table_entry; simp add: one_page_aligned)+
  let ?n = "\<lambda>i. if pte_valid (pte one_page_mem 0x80200000 i) then mapped one_page_mem (pte_pa (pte one_page_mem 0x80200000 i)) [0..<512] else 0"
  have "[0..<512] = (0 :: nat) # [1..<512]" by (simp add: upt_conv_Cons del: upt_rec_numeral)
  moreover have "map ?n [1..<512] = map (\<lambda>_. 0) [1..<512]"
    by (rule map_cong) (auto simp: one_page_entries simp del: upt_rec_numeral)
  ultimately have "user_pages one_page_mem 0x80200000 [0..<512] = ?n 0"
    unfolding user_pages_def by (simp del: upt_rec_numeral add: map_replicate_const sum_list_replicate)
  then have "user_pages one_page_mem 0x80200000 [0..<512] = 1" using one_page_entries(2) [of 0] e m by simp
  then show ?thesis using one_page_entries(1) [of 1] e by (simp add: user_page_count_def)
qed

definition fork_env :: "unit env" where
  "fork_env = silent_env\<lparr>kernel_root_pa := 0x80001000\<rparr>"

definition fork_proc :: Process where
  "fork_proc = init_proc\<lparr>pstate := Running, root_pa := 0x80000000\<rparr>"

definition fork_kernel :: "unit kernel" where
  "fork_kernel = init_running\<lparr>phys := one_page_mem, frames := frames one_page_machine, slots := Some fork_proc # replicate 63 None\<rparr>"

lemma fork_kernel_machine: "machine_ok fork_kernel" "free_pages fork_kernel = {0x80203..<0x88000}" "phys fork_kernel = one_page_mem"
  using one_page_frames one_page_free by (simp_all add: fork_kernel_def machine_ok_def free_pages_def)

lemma kernel_root_tree: "tree_wf one_page_mem 0x80001000 {0x80203..<0x88000}"
proof -
  have z: "pte one_page_mem 0x80001000 i = 0" if "i < 512" for i
    using that unfolding one_page_mem_def
    by (simp add: pte_store_other one_page_aligned boot_roots(2) del: One_nat_def)
  have n: "node one_page_mem 0x80001000 q = (if q = [] then Some 0x80001000 else None)" if "tpath q" for q
    using that z by (cases q) (auto simp: tpath_def)
  show ?thesis
    unfolding tree_wf_def using n z boot_roots
    by (auto simp: tpath_def split: if_splits)
qed

lemma fork_kernel_space: "space_ok fork_kernel 0x80000000"
proof -
  have path: "0x80202 \<notin> path_frames one_page_mem 0x80000000 u" for u
    using one_page_node tpath_prefix [OF _ tpath_va(1)] by (auto simp: path_frames_def frame_of_def split: if_splits)
  show ?thesis
    using one_page_tree [unfolded one_page_free] one_page_pte_at leaf_entry_pa [OF one_page_aligned(4), of "0x16"] path
    by (auto simp: space_ok_def own_frame_def Let_def fork_kernel_machine frame_of_def one_page_machine_def same_page_def)
qed


end
