(* ===== verification/Kernel_Map.thy ===== *)
theory Kernel_Map
  imports User_Space
begin

unbundle bit_operations_syntax

text \<open>
  The kernel's own address space, as \<open>kernel_page_table\<close> of \<open>mem/mmu.rs\<close> builds it. The number of frames the loops
  take is bounded by the number of tables the mapped pages need, so the construction succeeds when a hundred frames
  are free, and it maps exactly the regions of the memory map with their permissions.
\<close>

section \<open>Page numbers\<close>

definition page_no :: "usize \<Rightarrow> nat" where
  "page_no v = unat (take_bit 27 (drop_bit 12 v))"

definition page_va :: "nat \<Rightarrow> usize" where
  "page_va k = word_of_nat (k * 4096)"

lemma same_page_no: "same_page v w \<longleftrightarrow> page_no v = page_no w"
  by (simp add: same_page_iff page_no_def word_unat_eq_iff)

lemma page_no_less: "page_no v < 2 ^ 27"
  using take_bit_nat_less_exp [of 27] by (simp add: page_no_def unsigned_take_bit_eq)

lemma page_no_small: "unat v < 2 ^ 39 \<Longrightarrow> page_no v = unat v div 4096"
proof -
  assume "unat v < 2 ^ 39"
  then have "unat v div 4096 < 2 ^ 27" by (simp add: less_mult_imp_div_less)
  then show ?thesis
    unfolding page_no_def by (simp add: unsigned_take_bit_eq unsigned_drop_bit_eq take_bit_nat_eq_self drop_bit_nat_def)
qed

lemma unat_page_va: "k \<le> 2 ^ 27 \<Longrightarrow> unat (page_va k) = k * 4096"
  unfolding page_va_def by (rule unat_word_of_nat_less) simp

lemma page_no_va: "k < 2 ^ 27 \<Longrightarrow> page_no (page_va k) = k"
  by (subst page_no_small) (simp_all add: unat_page_va)

lemma vpn_page_no: "vpn v 2 = page_no v div 2 ^ 18" "vpn v 1 = page_no v div 2 ^ 9 mod 2 ^ 9"
proof -
  have n: "page_no v = unat v div 2 ^ 12 mod 2 ^ 27"
    by (simp add: page_no_def unsigned_take_bit_eq unsigned_drop_bit_eq drop_bit_nat_def take_bit_nat_def)
  have "unat v div 2 ^ 12 mod 2 ^ 27 div 2 ^ 18 = unat v div 2 ^ 30 mod 2 ^ 9"
    using div_exp_mod_exp_eq [of "unat v div 2 ^ 12" 18 9] by (simp add: div_mult2_eq [symmetric])
  then show "vpn v 2 = page_no v div 2 ^ 18"
    unfolding n by (simp add: vpn_take_bit unsigned_take_bit_eq unsigned_drop_bit_eq drop_bit_nat_def take_bit_nat_def)
  have "unat v div 2 ^ 12 mod 2 ^ 27 div 2 ^ 9 mod 2 ^ 9 = unat v div 2 ^ 21 mod 2 ^ 9"
  proof -
    have "unat v div 2 ^ 12 mod 2 ^ 27 div 2 ^ 9 = unat v div 2 ^ 21 mod 2 ^ 18"
      using div_exp_mod_exp_eq [of "unat v div 2 ^ 12" 9 18] by (simp add: div_mult2_eq [symmetric])
    then show ?thesis by (simp add: mod_mod_cancel)
  qed
  then show "vpn v 1 = page_no v div 2 ^ 9 mod 2 ^ 9"
    unfolding n by (simp add: vpn_take_bit unsigned_take_bit_eq unsigned_drop_bit_eq drop_bit_nat_def take_bit_nat_def)
qed

section \<open>Counting tables\<close>

definition tables :: "pmem \<Rightarrow> usize \<Rightarrow> nat list set" where
  "tables m root = {q. tpath q \<and> node m root q \<noteq> None}"

lemma finite_tables [simp]: "finite (tables m root)"
proof (rule finite_subset)
  show "tables m root \<subseteq> {q. set q \<subseteq> {..<512} \<and> length q \<le> 2}" by (auto simp: tables_def tpath_def)
qed (rule finite_lists_length_le, simp)

text \<open>A walk turns free frames into tables one for one, and only into tables on the path of the address.\<close>

definition tables_post :: "usize \<Rightarrow> usize \<Rightarrow> 'a machine_scheme \<Rightarrow> 'a machine_scheme \<Rightarrow> bool" where
  "tables_post root va s s' \<longleftrightarrow>
     card (free_pages s') + card (tables (phys s') root) = card (free_pages s) + card (tables (phys s) root) \<and>
     tables (phys s') root \<subseteq> tables (phys s) root \<union> set (prefixes (vpath va))"

lemma tables_post_refl: "tables_post root va s s"
  by (simp add: tables_post_def)

lemma tables_post_trans: "tables_post root va s s1 \<Longrightarrow> tables_post root va s1 s' \<Longrightarrow> tables_post root va s s'"
  by (auto simp: tables_post_def)

lemma tables_post_new:
  assumes ok: "machine_ok s" and wf: "tree_wf (phys s) root (free_pages s)" and tp: "tpath (p @ [i])"
    and at: "node (phys s) root p = Some t" and inv: "\<not> pte_valid (pte (phys s) t i)"
    and pa: "page_alloc 1 s = (Some new, s1)" and pre: "prefix (p @ [i]) (vpath va)"
  shows "tables_post root va s (s1\<lparr>phys := store64 (phys s1) (entry t i) (pa_pte new OR PTE_V)\<rparr>)"
proof -
  note L = page_alloc_link [OF ok wf tp at inv pa]
  have free: "free_pages s1 = free_pages s - {frame_of new}" using pages.palloc_avail [OF ok pa] by simp
  have "finite (free_pages s)" by (simp add: free_pages_def)
  then have card: "card (free_pages s1) + 1 = card (free_pages s)"
    using table_linkD(5) [OF L] card.remove [of "free_pages s" "frame_of new"] unfolding free by simp
  have T: "tables (store64 (phys s1) (entry t i) (pa_pte new OR PTE_V)) root = insert (p @ [i]) (tables (phys s) root)"
    using node_new [OF L] tp by (auto simp: tables_def)
  have "p @ [i] \<notin> tables (phys s) root" using table_linkD(12) [OF L] by (simp add: tables_def)
  then show ?thesis using card pre by (auto simp: tables_post_def T [simplified])
qed

lemma walk_levels_tables:
  assumes "machine_ok s" and "tree_wf (phys s) root (free_pages s)"
    and "node (phys s) root p = Some t" and "p @ map (vpn va) ls = vpath va"
    and "walk_levels ls t va True s = Some (r, s')"
  shows "tables_post root va s s'"
  using assms
proof (induction ls arbitrary: p t s)
  case Nil
  then show ?case by (simp add: tables_post_refl)
next
  case (Cons l ls)
  note ok = Cons.prems(1) and wf = Cons.prems(2) and at = Cons.prems(3)
  have path: "(p @ [vpn va l]) @ map (vpn va) ls = vpath va" using Cons.prems(4) by simp
  then have pre: "prefix (p @ [vpn va l]) (vpath va)" by (metis prefixI)
  then have tp: "tpath (p @ [vpn va l])" by (rule tpath_prefix) simp
  let ?e = "pte (phys s) t (vpn va l)"
  show ?case
  proof (cases "pte_valid ?e")
    case True
    moreover have "\<not> pte_leaf ?e" using tree_wfD(3) [OF wf tp at True] .
    moreover have "node (phys s) root (p @ [vpn va l]) = Some (pte_pa ?e)" using True at by (simp add: node_snoc)
    ultimately show ?thesis using Cons.IH [OF ok wf _ path] Cons.prems(5) by (simp add: Let_def pte_def)
  next
    case False
    obtain q s1 where pa: "page_alloc 1 s = (q, s1)" by fastforce
    show ?thesis
    proof (cases q)
      case None
      then have "s' = s"
        using pa page_alloc_1_None(1) [OF ok] Cons.prems(5) False by (simp add: Let_def pte_def PageTable_alloc_def)
      then show ?thesis by (simp add: tables_post_refl)
    next
      case (Some new)
      note pa' = pa [unfolded Some] and L = page_alloc_link [OF ok wf tp at False pa [unfolded Some]]
      let ?s = "s1\<lparr>phys := store64 (phys s1) (entry t (vpn va l)) (pa_pte new OR PTE_V)\<rparr>"
      have free: "free_pages s1 = free_pages s - {frame_of new}" using pages.palloc_avail [OF ok pa'] by simp
      have "machine_ok ?s" using pages.palloc_ok [OF ok pa'] by simp
      moreover have "tree_wf (phys ?s) root (free_pages ?s)" using tree_wf_new [OF L] by (simp add: free)
      moreover have "node (phys ?s) root (p @ [vpn va l]) = Some new" using node_new [OF L tp] by simp
      moreover have "walk_levels ls new va True ?s = Some (r, s')"
        using Cons.prems(5) False pa' table_linkD(4) [OF L] by (simp add: Let_def pte_def PageTable_alloc_def)
      ultimately have "tables_post root va ?s s'" using Cons.IH [OF _ _ _ path] by blast
      with tables_post_new [OF ok wf tp at False pa' pre] show ?thesis by (rule tables_post_trans)
    qed
  qed
qed

lemma map_tables:
  assumes ok: "machine_ok s" and wf: "tree_wf (phys s) root (free_pages s)" and m: "PageTable_map root va pa flags s = Some (r, s')"
  shows "tables_post root va s s'"
proof -
  obtain q s1 where w: "PageTable_walk root va True s = Some (q, s1)" "walk_post root va True s q s1"
    by (rule walk_spec [OF ok wf, of va True])
  have post: "tables_post root va s s1"
    by (rule walk_levels_tables [OF ok wf, of "[]" root va "[2, 1]" q]) (use w(1) in \<open>simp_all add: PageTable_walk_def vpath_def\<close>)
  show ?thesis
  proof (cases q)
    case None
    then show ?thesis using m w(1) post by (simp add: PageTable_map_def)
  next
    case (Some slot)
    with w(2) obtain t where t: "node (phys s1) root (vpath va) = Some t" "slot = entry t (vpn va 0)"
      and wf1: "tree_wf (phys s1) root (free_pages s1)" by (auto simp: walk_post_def)
    have same: "tables (store64 (phys s1) slot e) root = tables (phys s1) root" for e
      using store_leaf(1) [OF wf1 t(1)] t(2) by (auto simp: tables_def)
    then show ?thesis using m w(1) post Some by (auto simp: PageTable_map_def tables_post_def split: if_splits)
  qed
qed


section \<open>Identity-mapping page ranges\<close>

text \<open>
  The state of the construction: the leaf entry of every page is given by \<open>E\<close>, the tables are among \<open>T\<close>, free
  frames and tables together still number \<open>B\<close>, and only memory that was free at the start has changed.
\<close>

definition kmap_inv :: "'a machine_scheme \<Rightarrow> usize \<Rightarrow> nat list set \<Rightarrow> nat \<Rightarrow> 'a machine_scheme \<Rightarrow> (nat \<Rightarrow> u64) \<Rightarrow> bool" where
  "kmap_inv s0 root T B s E \<longleftrightarrow>
     machine_ok s \<and> tree_wf (phys s) root (free_pages s) \<and> free_pages s \<subseteq> free_pages s0 \<and> machine.more s = machine.more s0 \<and>
     (\<forall>v. pte_at (phys s) root v = E (page_no v)) \<and> tables (phys s) root \<subseteq> T \<and>
     card (free_pages s) + card (tables (phys s) root) = B \<and>
     (\<forall>v. path_frames (phys s) root v \<subseteq> free_pages s0) \<and>
     (\<forall>x. frame_of x \<notin> free_pages s0 \<longrightarrow> phys s x = phys s0 x)"

lemma kmap_invD:
  assumes "kmap_inv s0 root T B s E"
  shows "machine_ok s" "tree_wf (phys s) root (free_pages s)" "free_pages s \<subseteq> free_pages s0" "machine.more s = machine.more s0"
    and "pte_at (phys s) root v = E (page_no v)" "tables (phys s) root \<subseteq> T"
    and "card (free_pages s) + card (tables (phys s) root) = B" "path_frames (phys s) root v \<subseteq> free_pages s0"
    and "frame_of x \<notin> free_pages s0 \<Longrightarrow> phys s x = phys s0 x"
  using assms unfolding kmap_inv_def by auto

text \<open>The tables a page needs.\<close>

definition page_tables :: "nat \<Rightarrow> nat list set" where
  "page_tables k = {[], [k div 2 ^ 18], [k div 2 ^ 18, k div 2 ^ 9 mod 2 ^ 9]}"

lemma page_tables_va: "k < 2 ^ 27 \<Longrightarrow> set (prefixes (vpath (page_va k))) = page_tables k"
  by (simp add: vpath_def vpn_page_no page_no_va page_tables_def insert_commute del: One_nat_def)

lemma kmap_step:
  assumes inv: "kmap_inv s0 root T B s E" and k: "k < 2 ^ 27" "\<not> pte_valid (E k)" "page_tables k \<subseteq> T"
    and T: "finite T" "card T < B"
  obtains s' where "PageTable_map root (page_va k) (page_va k) flags s = Some (Inr (), s')"
    and "kmap_inv s0 root T B s' (E(k := leaf_entry (page_va k) flags))"
proof -
  note I = kmap_invD [OF inv]
  obtain r s' where m: "PageTable_map root (page_va k) (page_va k) flags s = Some (r, s')" and post: "page_op_post root (page_va k) s s'"
    and c: "case r of
      Inr _ \<Rightarrow> \<not> pte_valid (pte_at (phys s) root (page_va k)) \<and>
        (\<forall>v. pte_at (phys s') root v = (if same_page v (page_va k) then leaf_entry (page_va k) flags else pte_at (phys s) root v))
    | Inl e \<Rightarrow> (\<forall>v. pte_at (phys s') root v = pte_at (phys s) root v) \<and>
        (if pte_valid (pte_at (phys s) root (page_va k)) \<and> e = ''mmu: va already mapped'' then True
         else free_pages s' = {} \<and> e = ''mmu: out of memory for page table'')"
    by (rule map_spec [OF I(1,2)])
  have un: "\<not> pte_valid (pte_at (phys s) root (page_va k))" using k by (simp add: I(5) page_no_va)
  have tab: "tables (phys s') root \<subseteq> T" "card (free_pages s') + card (tables (phys s') root) = B"
    using map_tables [OF I(1,2) m] I(6,7) k(3) page_tables_va [OF k(1)] by (auto simp: tables_post_def)
  have "free_pages s' \<noteq> {}" using tab T card_mono [OF T(1) tab(1)] by auto
  then obtain u where r: "r = Inr u" using c un by (cases r) auto
  have path: "path_frames (phys s') root v \<subseteq> free_pages s0" for v
    using post I(3) I(8) [of v] unfolding page_op_post_def by blast
  have out: "phys s' x = phys s0 x" if x: "frame_of x \<notin> free_pages s0" for x
  proof -
    have "frame_of x \<notin> free_pages s \<union> path_frames (phys s) root (page_va k)" using x I(3,8) by blast
    then show ?thesis using post I(9) [OF x] by (simp add: page_op_post_def)
  qed
  have pte: "pte_at (phys s') root v = (E(k := leaf_entry (page_va k) flags)) (page_no v)" for v
    using c r k(1) I(5) by (simp add: same_page_no page_no_va)
  have basic: "machine_ok s'" "tree_wf (phys s') root (free_pages s')" "free_pages s' \<subseteq> free_pages s0" "machine.more s' = machine.more s0"
    using post I(3,4) by (auto simp: page_op_post_def)
  show thesis
    by (rule that [of s']) (use m r basic tab path out pte in \<open>simp_all add: kmap_inv_def\<close>)
qed

definition map_pages :: "nat \<Rightarrow> nat \<Rightarrow> u64 \<Rightarrow> (nat \<Rightarrow> u64) \<Rightarrow> nat \<Rightarrow> u64" where
  "map_pages a b flags E k = (if a \<le> k \<and> k < b then leaf_entry (page_va k) flags else E k)"

lemma kmap_loop:
  assumes T: "finite T" "card T < B" and "b \<le> 2 ^ 27" "a + n = b"
    and "kmap_inv s0 root T B s E" "\<And>k. a \<le> k \<Longrightarrow> k < b \<Longrightarrow> \<not> pte_valid (E k) \<and> page_tables k \<subseteq> T"
  shows "\<exists>s'. map_range_loop root (page_va a) (page_va b) flags s = Some (Inr (), s') \<and> kmap_inv s0 root T B s' (map_pages a b flags E)"
  using assms(3-)
proof (induction n arbitrary: a s E)
  case 0
  then have "map_pages a b flags E = E" by (auto simp: map_pages_def fun_eq_iff)
  then show ?case using 0 by (subst map_range_loop.simps) simp
next
  case (Suc n)
  have a: "a < 2 ^ 27" "a < b" using Suc.prems(1,2) by auto
  have lt: "page_va a < page_va b" using a Suc.prems(1) by (simp add: word_less_nat_alt unat_page_va)
  obtain s1 where m: "PageTable_map root (page_va a) (page_va a) flags s = Some (Inr (), s1)"
    and inv: "kmap_inv s0 root T B s1 (E(a := leaf_entry (page_va a) flags))"
    by (rule kmap_step [OF Suc.prems(3) a(1) _ _ T]) (use Suc.prems(4) a in auto)
  have nxt: "page_va a + PAGE_SIZE = page_va (Suc a)" by (simp add: page_va_def algebra_simps)
  have rest: "\<not> pte_valid ((E(a := leaf_entry (page_va a) flags)) k) \<and> page_tables k \<subseteq> T" if "Suc a \<le> k" "k < b" for k
    using that Suc.prems(4) [of k] by simp
  have "Suc a + n = b" using Suc.prems(2) by simp
  from Suc.IH [OF Suc.prems(1) this inv] rest
  obtain s' where l: "map_range_loop root (page_va (Suc a)) (page_va b) flags s1 = Some (Inr (), s')"
    and k: "kmap_inv s0 root T B s' (map_pages (Suc a) b flags (E(a := leaf_entry (page_va a) flags)))"
    by blast
  have "map_pages (Suc a) b flags (E(a := leaf_entry (page_va a) flags)) = map_pages a b flags E"
    using a by (auto simp: map_pages_def fun_eq_iff)
  then show ?case using lt m l k by (subst map_range_loop.simps) (simp add: nxt del: PAGE_SIZE_def)
qed


section \<open>The kernel's regions\<close>

text \<open>The pages a range touches, both ends rounded outwards.\<close>

definition range_pages :: "usize \<times> usize \<times> u64 \<Rightarrow> nat set" where
  "range_pages rng = (case rng of (start, end_va, _) \<Rightarrow> {unat start div 4096..<(unat end_va + 4095) div 4096})"

definition region_pte :: "(usize \<times> usize \<times> u64) list \<Rightarrow> nat \<Rightarrow> u64" where
  "region_pte rngs k =
     (case find (\<lambda>rng. k \<in> range_pages rng) rngs of None \<Rightarrow> 0 | Some (_, _, flags) \<Rightarrow> leaf_entry (page_va k) flags)"

definition range_ok :: "nat list set \<Rightarrow> usize \<times> usize \<times> u64 \<Rightarrow> bool" where
  "range_ok T rng \<longleftrightarrow> (case rng of (start, end_va, _) \<Rightarrow>
     unat start \<le> unat end_va \<and> unat end_va \<le> 2 ^ 39) \<and> (\<forall>k \<in> range_pages rng. page_tables k \<subseteq> T)"

fun disjoint_ranges :: "(usize \<times> usize \<times> u64) list \<Rightarrow> bool" where
  "disjoint_ranges [] \<longleftrightarrow> True"
| "disjoint_ranges (r # rs) \<longleftrightarrow> list_all (\<lambda>r'. range_pages r \<inter> range_pages r' = {}) rs \<and> disjoint_ranges rs"

lemma map_range_expect_spec:
  assumes T: "finite T" "card T < B" and inv: "kmap_inv s0 root T B s E" and ok: "range_ok T (start, end_va, flags)"
    and free: "\<And>k. k \<in> range_pages (start, end_va, flags) \<Longrightarrow> \<not> pte_valid (E k)"
  obtains s' where "map_range_expect root (start, end_va, flags) s = Some s'"
    and "kmap_inv s0 root T B s' (\<lambda>k. if k \<in> range_pages (start, end_va, flags) then leaf_entry (page_va k) flags else E k)"
proof -
  let ?a = "unat start div 4096" and ?b = "(unat end_va + 4095) div 4096"
  have r: "unat start \<le> unat end_va" "unat end_va \<le> 2 ^ 39" "\<And>k. ?a \<le> k \<Longrightarrow> k < ?b \<Longrightarrow> page_tables k \<subseteq> T"
    using ok by (auto simp: range_ok_def range_pages_def)
  have a: "page_down start = page_va ?a"
    using unat_page_down [of start] unat_page_va [of ?a] r
    by (simp add: word_unat_eq_iff minus_mod_eq_div_mult div_le_mono)
  have b: "page_up end_va = page_va ?b" "?b \<le> 2 ^ 27"
    using unat_page_up [of end_va] unat_page_va [of ?b] r by (simp_all add: word_unat_eq_iff)
  have "?a + (?b - ?a) = ?b" using r(1) by (simp add: div_le_mono)
  then obtain s' where l: "map_range_loop root (page_va ?a) (page_va ?b) flags s = Some (Inr (), s')"
    and k: "kmap_inv s0 root T B s' (map_pages ?a ?b flags E)"
    using kmap_loop [OF T b(2) _ inv, of ?a "?b - ?a" flags] r(3) free by (auto simp: range_pages_def)
  have "map_pages ?a ?b flags E = (\<lambda>k. if k \<in> range_pages (start, end_va, flags) then leaf_entry (page_va k) flags else E k)"
    by (auto simp: map_pages_def range_pages_def fun_eq_iff)
  then show thesis using l k a b(1) by (intro that [of s']) (simp_all add: map_range_expect_def PageTable_map_range_def)
qed

lemma map_ranges_spec:
  assumes T: "finite T" "card T < B" and "kmap_inv s0 root T B s E" "list_all (range_ok T) rngs" "disjoint_ranges rngs"
    and "\<And>rng k. rng \<in> set rngs \<Longrightarrow> k \<in> range_pages rng \<Longrightarrow> \<not> pte_valid (E k)"
  shows "\<exists>s'. map_ranges root rngs s = Some s' \<and>
    kmap_inv s0 root T B s' (\<lambda>k. if \<exists>rng \<in> set rngs. k \<in> range_pages rng then region_pte rngs k else E k)"
  using assms(3-)
proof (induction rngs arbitrary: s E)
  case (Cons rng rngs)
  obtain start end_va flags where rng: "rng = (start, end_va, flags)" by (cases rng) auto
  have ok: "range_ok T (start, end_va, flags)" and free: "\<And>k. k \<in> range_pages (start, end_va, flags) \<Longrightarrow> \<not> pte_valid (E k)"
    using Cons.prems(2) Cons.prems(4) [of rng] rng by auto
  obtain s1 where m: "map_range_expect root rng s = Some s1"
    and inv: "kmap_inv s0 root T B s1 (\<lambda>k. if k \<in> range_pages rng then leaf_entry (page_va k) flags else E k)"
    unfolding rng by (rule map_range_expect_spec [OF T Cons.prems(1) ok free])
  have apart: "k \<notin> range_pages rng" if "rng' \<in> set rngs" "k \<in> range_pages rng'" for rng' k
    using Cons.prems(3) that by (auto simp: list_all_iff)
  have rest: "\<not> pte_valid (if k \<in> range_pages rng then leaf_entry (page_va k) flags else E k)"
    if "rng' \<in> set rngs" "k \<in> range_pages rng'" for rng' k
    using Cons.prems(4) [of rng' k] apart [OF that] that by simp
  obtain s' where l: "map_ranges root rngs s1 = Some s'"
    and k: "kmap_inv s0 root T B s' (\<lambda>k. if \<exists>rng \<in> set rngs. k \<in> range_pages rng then region_pte rngs k
        else if k \<in> range_pages rng then leaf_entry (page_va k) flags else E k)"
    using Cons.IH [OF inv] rest Cons.prems(2,3) by auto
  have "(\<lambda>k. if \<exists>rng \<in> set rngs. k \<in> range_pages rng then region_pte rngs k
        else if k \<in> range_pages rng then leaf_entry (page_va k) flags else E k) =
      (\<lambda>k. if \<exists>rng \<in> set (rng # rngs). k \<in> range_pages rng then region_pte (rng # rngs) k else E k)"
    using apart by (auto simp: region_pte_def rng fun_eq_iff)
  then show ?case using m l k by auto
qed simp


text \<open>
  What the linker script guarantees: sections in this order from the start of RAM, each starting on a page of its
  own, the heap after them. The tables that the kernel's regions need are then among these 72.
\<close>

definition linker_ok :: "linker \<Rightarrow> bool" where
  "linker_ok l \<longleftrightarrow>
     0x80000000 \<le> unat (text_start l) \<and> text_start l \<le> text_end l \<and>
     (unat (text_end l) + 4095) div 4096 \<le> unat (rodata_start l) div 4096 \<and> rodata_start l \<le> rodata_end l \<and>
     (unat (rodata_end l) + 4095) div 4096 \<le> unat (data_start l) div 4096 \<and>
     data_start l \<le> heap_start l \<and> unat (heap_start l) \<le> 0x88000000"

definition kernel_tables :: "nat list set" where
  "kernel_tables = {[], [0], [2], [0, 0], [0, 16], [0, 96], [0, 97], [0, 128]} \<union> (\<lambda>i. [2, i]) ` {..<64}"

lemma kernel_tables_card: "finite kernel_tables" "card kernel_tables \<le> 72"
proof -
  show "finite kernel_tables" by (simp add: kernel_tables_def)
  have "card kernel_tables \<le> card {[], [0], [2], [0, 0], [0, 16], [0, 96], [0, 97], [0, 128 :: nat]} + card ((\<lambda>i. [2, i :: nat]) ` {..<64})"
    unfolding kernel_tables_def by (rule card_Un_le)
  also have "\<dots> \<le> 8 + 64" by (intro add_mono card_image_le [THEN order_trans]) simp_all
  finally show "card kernel_tables \<le> 72" by simp
qed

lemma ram_tables: "0x80000 \<le> k \<Longrightarrow> k < 0x88000 \<Longrightarrow> page_tables k \<subseteq> kernel_tables"
proof -
  assume k: "0x80000 \<le> k" "k < 0x88000"
  then have "k div 2 ^ 18 = 2" by (intro div_nat_eqI) simp_all
  moreover have "k div 2 ^ 9 mod 2 ^ 9 < 64"
  proof -
    have "1024 \<le> k div 512" "k div 512 < 1088" using k by (simp_all add: less_mult_imp_div_less)
    then have "k div 512 mod 512 = k div 512 - 1024" by (simp add: le_mod_geq)
    then show ?thesis using \<open>k div 512 < 1088\<close> by simp
  qed
  ultimately show ?thesis by (auto simp: page_tables_def kernel_tables_def)
qed


definition mmio_pages :: "nat set" where
  "mmio_pages = {0x10000..<0x10001} \<union> {0x10001..<0x10009} \<union> {0x2000..<0x2010} \<union> {0xc000..<0xc400} \<union> {0x100..<0x101}"

lemma mmio_tables: "k \<in> mmio_pages \<Longrightarrow> page_tables k \<subseteq> kernel_tables"
proof -
  assume k: "k \<in> mmio_pages"
  then have "k div 2 ^ 18 = 0" by (auto simp: mmio_pages_def)
  moreover have "k div 2 ^ 9 \<in> {0, 16, 96, 97, 128}" using k by (auto simp: mmio_pages_def)
  ultimately show ?thesis by (auto simp: page_tables_def kernel_tables_def)
qed

lemma range_ok_ram:
  assumes "0x80000 \<le> unat start div 4096" "unat start \<le> unat end_va" "unat end_va \<le> 0x88000000"
  shows "range_ok kernel_tables (start, end_va, flags)"
proof -
  have "page_tables k \<subseteq> kernel_tables" if "k \<in> range_pages (start, end_va, flags)" for k
    by (rule ram_tables) (use that assms in \<open>auto simp: range_pages_def\<close>)
  then show ?thesis using assms by (auto simp: range_ok_def)
qed

lemma range_ok_mmio:
  assumes "unat start \<le> unat end_va" "unat end_va \<le> 0x88000000" "range_pages (start, end_va, flags) \<subseteq> mmio_pages"
  shows "range_ok kernel_tables (start, end_va, flags)"
proof -
  have "page_tables k \<subseteq> kernel_tables" if "k \<in> range_pages (start, end_va, flags)" for k
    by (rule mmio_tables) (use that assms(3) in auto)
  then show ?thesis using assms(1,2) by (auto simp: range_ok_def)
qed

lemma io_pages:
  "range_pages (UART0_BASE, UART0_BASE + UART0_SIZE, f) = {0x10000..<0x10001}"
  "range_pages (VIRTIO_BASE, VIRTIO_BASE + VIRTIO_SIZE, f) = {0x10001..<0x10009}"
  "range_pages (CLINT_BASE, CLINT_BASE + CLINT_SIZE, f) = {0x2000..<0x2010}"
  "range_pages (PLIC_BASE, PLIC_BASE + PLIC_SIZE, f) = {0xc000..<0xc400}"
  "range_pages (TEST_BASE, TEST_BASE + TEST_SIZE, f) = {0x100..<0x101}"
  by (simp_all add: range_pages_def)

lemma io_ranges_ok:
  "range_ok kernel_tables (UART0_BASE, UART0_BASE + UART0_SIZE, f)" "range_ok kernel_tables (VIRTIO_BASE, VIRTIO_BASE + VIRTIO_SIZE, f)"
  "range_ok kernel_tables (CLINT_BASE, CLINT_BASE + CLINT_SIZE, f)" "range_ok kernel_tables (PLIC_BASE, PLIC_BASE + PLIC_SIZE, f)"
  "range_ok kernel_tables (TEST_BASE, TEST_BASE + TEST_SIZE, f)"
  by (rule range_ok_mmio, simp, simp, unfold io_pages mmio_pages_def, blast)+

lemma ivl_apart: "(b :: nat) \<le> c \<or> d \<le> a \<Longrightarrow> {a..<b} \<inter> {c..<d} = {}"
  by auto

lemma kernel_ranges_ok:
  assumes "linker_ok l"
  shows "list_all (range_ok kernel_tables) (kernel_ranges l)" "disjoint_ranges (kernel_ranges l)"
proof -
  let ?ts = "unat (text_start l)" and ?te = "unat (text_end l)" and ?rs = "unat (rodata_start l)"
    and ?re = "unat (rodata_end l)" and ?ds = "unat (data_start l)"
  have o: "0x80000000 \<le> ?ts" "?ts \<le> ?te" "(?te + 4095) div 4096 \<le> ?rs div 4096" "?rs \<le> ?re"
    "(?re + 4095) div 4096 \<le> ?ds div 4096" "?ds \<le> 0x88000000"
    using assms by (auto simp: linker_ok_def word_le_nat_alt)
  have "?ts div 4096 \<le> (?te + 4095) div 4096" "?rs div 4096 \<le> (?re + 4095) div 4096"
    using o(2,4) by (simp_all add: div_le_mono)
  then have d: "0x80000 \<le> ?ts div 4096" "?ts div 4096 \<le> ?rs div 4096" "?rs div 4096 \<le> ?ds div 4096" "?ds div 4096 \<le> 0x88000"
    using o(1,3,5,6) by linarith+
  have e: "?te \<le> 0x88000000" "?re \<le> 0x88000000" using o(3,5) d(3,4) by linarith+
  have ram: "range_ok kernel_tables (text_start l, text_end l, f)" "range_ok kernel_tables (rodata_start l, rodata_end l, f)"
    "range_ok kernel_tables (data_start l, RAM_END, f)" for f
    using o(2,4,6) d e by (simp_all add: range_ok_ram)
  show "list_all (range_ok kernel_tables) (kernel_ranges l)"
    unfolding kernel_ranges_def list.pred_inject by (intro conjI TrueI io_ranges_ok ram) simp
  have ram_pages: "range_pages (text_start l, text_end l, f) = {?ts div 4096..<(?te + 4095) div 4096}"
    "range_pages (rodata_start l, rodata_end l, f) = {?rs div 4096..<(?re + 4095) div 4096}"
    "range_pages (data_start l, RAM_END, f) = {?ds div 4096..<0x88000}" for f
    by (simp_all add: range_pages_def)
  show "disjoint_ranges (kernel_ranges l)"
    unfolding kernel_ranges_def disjoint_ranges.simps list.pred_inject io_pages ram_pages
    by (intro conjI TrueI ivl_apart) (use o(3,5) d in \<open>linarith | simp\<close>)+
qed


lemma kernel_page_table_spec:
  assumes ok: "machine_ok s" and l: "linker_ok l" and mem: "73 < card (free_pages s)"
  obtains root s' where "kernel_page_table l s = Some (root, s')" "frame_of root \<in> free_pages s"
    and "machine_ok s'" "tree_wf (phys s') root (free_pages s')" "machine.more s' = machine.more s"
    and "free_pages s' \<subseteq> free_pages s" "card (free_pages s) \<le> card (free_pages s') + 72"
    and "\<And>v. pte_at (phys s') root v = region_pte (kernel_ranges l) (page_no v)"
    and "\<And>x. frame_of x \<notin> free_pages s \<Longrightarrow> phys s' x = phys s x"
proof -
  obtain q s1 where pa: "page_alloc 1 s = (q, s1)" by (metis surj_pair)
  have "q \<noteq> None" using page_alloc_1_None(2) [OF ok, of s1] pa mem by (cases q) auto
  then obtain root where q: "q = Some root" by auto
  note pa' = pa [unfolded q]
  have root: "page_aligned root" "frame_of root \<in> free_pages s"
    using pages.palloc_aligned [OF ok pa'] pages.palloc_fresh [OF ok pa'] by auto
  have free: "free_pages s1 = free_pages s - {frame_of root}" using pages.palloc_avail [OF ok pa'] by simp
  have "finite (free_pages s)" by (simp add: free_pages_def)
  then have card: "card (free_pages s1) + 1 = card (free_pages s)"
    using root(2) card.remove [of "free_pages s" "frame_of root"] unfolding free by simp
  have z: "pte (phys s1) root i = 0" if "i < 512" for i
    using pages.fresh_table_zero [OF ok pa' that] by (simp add: pte_def entry_def)
  have n: "node (phys s1) root q = (if q = [] then Some root else None)" if "tpath q" for q
    using that z by (cases q) (auto simp: tpath_def)
  have tab: "tables (phys s1) root = {[]}" using n by (auto simp: tables_def split: if_splits)
  have start: "kmap_inv s root kernel_tables (card (free_pages s)) s1 (\<lambda>_. 0)"
    unfolding kmap_inv_def
  proof (intro conjI allI impI)
    show "machine_ok s1" by (rule pages.palloc_ok [OF ok pa'])
    show "tree_wf (phys s1) root (free_pages s1)"
      unfolding tree_wf_def using n z root(1) by (auto simp: tpath_def free split: if_splits)
    show "free_pages s1 \<subseteq> free_pages s" using free by auto
    show "machine.more s1 = machine.more s" by (rule page_alloc_more [OF pa'])
    show "pte_at (phys s1) root v = 0" for v using z [OF vpn_less, of v 2] by (simp add: pte_at_def vpath_def)
    show "tables (phys s1) root \<subseteq> kernel_tables" by (simp add: tab kernel_tables_def)
    show "card (free_pages s1) + card (tables (phys s1) root) = card (free_pages s)" using card by (simp add: tab)
    show "path_frames (phys s1) root v \<subseteq> free_pages s" for v
      using n tpath_prefix [OF _ tpath_va(1), of _ v] root(2) by (fastforce simp: path_frames_def split: if_splits)
    show "phys s1 x = phys s x" if "frame_of x \<notin> free_pages s" for x
      using pages.palloc_keeps [OF ok pa' that] .
  qed
  obtain s' where m: "map_ranges root (kernel_ranges l) s1 = Some s'"
    and k: "kmap_inv s root kernel_tables (card (free_pages s)) s'
      (\<lambda>k. if \<exists>rng \<in> set (kernel_ranges l). k \<in> range_pages rng then region_pte (kernel_ranges l) k else 0)"
    using map_ranges_spec [OF kernel_tables_card(1) _ start kernel_ranges_ok [OF l]] kernel_tables_card(2) mem by auto
  have E: "(if \<exists>rng \<in> set rngs. k \<in> range_pages rng then region_pte rngs k else 0) = region_pte rngs k" for rngs k
    by (auto simp: region_pte_def find_None_iff find_Some_iff split: option.splits)
  note I = kmap_invD [OF k]
  show thesis
  proof (rule that [OF _ root(2) I(1,2,4,3)])
    show "kernel_page_table l s = Some (root, s')"
      using pa' m by (simp add: kernel_page_table_def PageTable_alloc_def)
    show "card (free_pages s) \<le> card (free_pages s') + 72"
      using I(7) card_mono [OF kernel_tables_card(1) I(6)] kernel_tables_card(2) by simp
    show "pte_at (phys s') root v = region_pte (kernel_ranges l) (page_no v)" for v
      using I(5) [of v] unfolding E .
    show "phys s' x = phys s x" if "frame_of x \<notin> free_pages s" for x by (rule I(9) [OF that])
  qed
qed


section \<open>What the kernel's address space is\<close>

lemma kernel_flags: "rng \<in> set (kernel_ranges l) \<Longrightarrow> snd (snd rng) \<in> {PTE_R OR PTE_X, PTE_R, PTE_R OR PTE_W}"
  by (auto simp: kernel_ranges_def)

lemma region_pte_cases:
  obtains "region_pte rngs k = 0" "\<And>rng. rng \<in> set rngs \<Longrightarrow> k \<notin> range_pages rng"
  | rng where "rng \<in> set rngs" "k \<in> range_pages rng" "region_pte rngs k = leaf_entry (page_va k) (snd (snd rng))"
proof (cases "find (\<lambda>rng. k \<in> range_pages rng) rngs")
  case None
  show thesis
  proof (rule that(1))
    show "region_pte rngs k = 0" using None by (simp add: region_pte_def)
    show "k \<notin> range_pages rng" if "rng \<in> set rngs" for rng using None that unfolding find_None_iff by blast
  qed
next
  case (Some rng)
  then have "rng \<in> set rngs" "k \<in> range_pages rng" by (auto simp: find_Some_iff)
  then show thesis using that(2) Some by (auto simp: region_pte_def split: prod.splits)
qed

lemma kernel_pte:
  fixes l :: linker
  assumes "k < 2 ^ 27"
  defines "e \<equiv> region_pte (kernel_ranges l) k"
  shows "pte_valid e \<longleftrightarrow> (\<exists>rng \<in> set (kernel_ranges l). k \<in> range_pages rng)"
    and "pte_valid e \<Longrightarrow> pte_pa e = page_va k \<and> page_flags e \<in> {PTE_R OR PTE_X, PTE_R, PTE_R OR PTE_W}"
proof -
  have al: "page_aligned (page_va k)" using assms(1) by (simp add: page_aligned_iff unat_page_va)
  have fl: "pte_pa (leaf_entry (page_va k) f) = page_va k \<and> page_flags (leaf_entry (page_va k) f) = f"
    if "f \<in> {PTE_R OR PTE_X, PTE_R, PTE_R OR PTE_W}" for f
  proof -
    have f: "page_flags f = f" using that by (auto simp: page_flags_def)
    show ?thesis using page_flags_bits(1) [of f] page_flags_bits(2) [of "page_va k" f] leaf_entry_pa [OF al, of f] unfolding f by simp
  qed
  show "pte_valid e \<longleftrightarrow> (\<exists>rng \<in> set (kernel_ranges l). k \<in> range_pages rng)"
    unfolding e_def by (rule region_pte_cases [of "kernel_ranges l" k]) auto
  show "pte_valid e \<Longrightarrow> pte_pa e = page_va k \<and> page_flags e \<in> {PTE_R OR PTE_X, PTE_R, PTE_R OR PTE_W}"
    unfolding e_def
  proof (rule region_pte_cases [of "kernel_ranges l" k])
    fix rng assume "rng \<in> set (kernel_ranges l)" "region_pte (kernel_ranges l) k = leaf_entry (page_va k) (snd (snd rng))"
    then show "pte_pa (region_pte (kernel_ranges l) k) = page_va k \<and>
        page_flags (region_pte (kernel_ranges l) k) \<in> {PTE_R OR PTE_X, PTE_R, PTE_R OR PTE_W}"
      using kernel_flags [of rng l] fl [of "snd (snd rng)"] by simp
  qed simp
qed

lemma page_va_offset:
  assumes "unat v < 2 ^ 39"
  shows "page_va (page_no v) + (v AND 4095) = v"
proof -
  have "page_va (page_no v) = page_down v"
    using assms unat_page_va [of "page_no v"] page_no_small [OF assms] page_no_less [of v]
    by (simp add: word_unat_eq_iff unat_page_down minus_mod_eq_div_mult)
  then show ?thesis by (simp add: page_down_eq_diff page_offset_eq_take_bit)
qed

lemma user_slot_unmapped:
  assumes "linker_ok l" "0x40000 \<le> k" "k < 0x80000" "rng \<in> set (kernel_ranges l)"
  shows "k \<notin> range_pages rng"
proof -
  have "0x80000 \<le> unat (text_start l) div 4096" "0x80000 \<le> unat (rodata_start l) div 4096" "0x80000 \<le> unat (data_start l) div 4096"
    using assms(1) unfolding linker_ok_def word_le_nat_alt by linarith+
  then show ?thesis using assms(2-) by (auto simp: kernel_ranges_def range_pages_def)
qed

text \<open>
  C7: with the sections where the linker script puts them and 74 free frames, \<open>kernel_page_table\<close> does not panic.
  The address space it returns identity-maps exactly the pages of the kernel's sections, RAM and devices, text
  read-execute, read-only data read-only and everything else read-write, so that no page is writable and
  executable and none is open to user mode; the user slot is empty, and memory in use has not changed.
\<close>

theorem kernel_space_identity:
  assumes "machine_ok s" "linker_ok l" "73 < card (free_pages s)"
  shows "\<exists>root s'. kernel_page_table l s = Some (root, s') \<and> machine_ok s' \<and> tree_wf (phys s') root (free_pages s') \<and>
    (\<forall>v. unat v < 2 ^ 39 \<longrightarrow> virt_to_phys root v s' =
       Some (if \<exists>rng \<in> set (kernel_ranges l). unat v div 4096 \<in> range_pages rng then Some v else None)) \<and>
    (\<forall>v. pte_valid (pte_at (phys s') root v) \<longrightarrow>
       page_flags (pte_at (phys s') root v) \<in> {PTE_R OR PTE_X, PTE_R, PTE_R OR PTE_W}) \<and>
    (\<forall>v. vpn v 2 = USER_ROOT_SLOT \<longrightarrow> \<not> pte_valid (pte_at (phys s') root v)) \<and>
    (\<forall>x. frame_of x \<notin> free_pages s \<longrightarrow> phys s' x = phys s x)"
proof -
  obtain root s' where k: "kernel_page_table l s = Some (root, s')" "machine_ok s'" "tree_wf (phys s') root (free_pages s')"
    and pte: "\<And>v. pte_at (phys s') root v = region_pte (kernel_ranges l) (page_no v)"
    and out: "\<And>x. frame_of x \<notin> free_pages s \<Longrightarrow> phys s' x = phys s x"
    by (rule kernel_page_table_spec [OF assms]) blast
  have tr: "virt_to_phys root v s' = Some (if \<exists>rng \<in> set (kernel_ranges l). unat v div 4096 \<in> range_pages rng then Some v else None)"
    if "unat v < 2 ^ 39" for v
    using kernel_pte [OF page_no_less, of l v] page_va_offset [OF that] page_no_small [OF that]
    by (simp add: virt_to_phys_eq [OF k(2,3)] pte)
  have fl: "page_flags (pte_at (phys s') root v) \<in> {PTE_R OR PTE_X, PTE_R, PTE_R OR PTE_W}" if "pte_valid (pte_at (phys s') root v)" for v
    using kernel_pte(2) [OF page_no_less, of l v] that unfolding pte by blast
  have user: "\<not> pte_valid (pte_at (phys s') root v)" if v: "vpn v 2 = USER_ROOT_SLOT" for v
  proof -
    have "page_no v div 0x40000 = 1" using v vpn_page_no(1) [of v] by simp
    then have "0x40000 \<le> page_no v" "page_no v < 0x80000" by linarith+
    then show ?thesis using user_slot_unmapped [OF assms(2)] kernel_pte(1) [OF page_no_less, of l v] by (auto simp: pte)
  qed
  show ?thesis by (intro exI [of _ root] exI [of _ s'] conjI allI impI) (fact k tr fl user out | (erule tr fl user out))+
qed


text \<open>Sections from the start of RAM, two mebibytes of them, on the machine after \<open>page::init\<close>.\<close>

definition small_linker :: linker where
  "small_linker = \<lparr>text_start = 0x80000000, text_end = 0x80012345, rodata_start = 0x80013000, rodata_end = 0x80018000,
     data_start = 0x80018000, bss_end = 0x80100000, stack_start = 0x80100000, stack_end = 0x80140000, heap_start = 0x80200000\<rparr>"

lemma small_linker_ok: "linker_ok small_linker"
  by (simp add: linker_ok_def small_linker_def)

theorem kernel_space_identity_witness:
  "\<exists>root s'. kernel_page_table small_linker \<lparr>phys = (\<lambda>_. 0), frames = boot_frames\<rparr> = Some (root, s') \<and>
     virt_to_phys root 0x80012fff s' = Some (Some 0x80012fff) \<and> virt_to_phys root 0x40000000 s' = Some None"
proof -
  let ?s = "\<lparr>phys = (\<lambda>_. 0), frames = boot_frames\<rparr>"
  have ok: "machine_ok ?s" using boot_frames_props(1) by (simp add: machine_ok_def)
  have "card (free_pages ?s) = 32256"
    unfolding free_pages_def by (subst card_image) (simp_all add: inj_on_def boot_frames_props MAX_FRAMES_eq)
  then have mem: "73 < card (free_pages ?s)" by simp
  have in1: "\<exists>rng \<in> set (kernel_ranges small_linker). unat (0x80012fff :: usize) div 4096 \<in> range_pages rng"
    by (rule bexI [of _ "(text_start small_linker, text_end small_linker, PTE_R OR PTE_X)"])
       (simp_all add: range_pages_def small_linker_def kernel_ranges_def)
  have in2: "\<not> (\<exists>rng \<in> set (kernel_ranges small_linker). unat (0x40000000 :: usize) div 4096 \<in> range_pages rng)"
    using user_slot_unmapped [OF small_linker_ok, of "0x40000"] by auto
  obtain root s' where k: "kernel_page_table small_linker ?s = Some (root, s')"
    and tr: "\<forall>v. unat v < 2 ^ 39 \<longrightarrow> virt_to_phys root v s' =
      Some (if \<exists>rng \<in> set (kernel_ranges small_linker). unat v div 4096 \<in> range_pages rng then Some v else None)"
    using kernel_space_identity [OF ok small_linker_ok mem] by blast
  have "virt_to_phys root 0x80012fff s' = Some (Some 0x80012fff)" using tr [rule_format, of "0x80012fff"] in1 by simp
  moreover have "virt_to_phys root 0x40000000 s' = Some None" using tr [rule_format, of "0x40000000"] in2 by simp
  ultimately show ?thesis using k by blast
qed

end
