(* ===== verification/Exec_Space.thy ===== *)
theory Exec_Space
  imports Fork Kernel_Map
begin

unbundle bit_operations_syntax

text \<open>
  What starting a program builds. An ELF image is read as a list of segments (\<open>elf_image\<close>), a list of segments
  as a list of pages (\<open>space_pages\<close>): the file bytes of each segment, zeros up to its memory size, and the zeroed
  stack. The loops of \<open>elf.rs\<close> and \<open>process.rs\<close> install exactly these pages, each in a frame of its own.
\<close>

section \<open>Pages as a list\<close>

lemma page_no_user:
  assumes "0x40000000 \<le> unat v" "unat v < 0x80000000"
  shows "page_no v = unat v div 4096" "vpn v 2 = 1"
proof -
  show n: "page_no v = unat v div 4096" using assms(2) by (simp add: page_no_small)
  have "unat v div 4096 div 2 ^ 18 = 1" using assms by (simp add: div_mult2_eq [symmetric] div_nat_eqI)
  then show "vpn v 2 = 1" by (simp add: vpn_page_no n)
qed

text \<open>The pages of a space as an association list from page numbers to permissions and bytes.\<close>

type_synonym page_list = "(nat \<times> u64 \<times> u8 list) list"

definition view :: "page_list \<Rightarrow> usize \<Rightarrow> (u64 \<times> u8 list) option" where
  "view xs v = map_of xs (page_no v)"

definition pad :: "u8 list \<Rightarrow> u8 list" where
  "pad bs = bs @ replicate (4096 - length bs) 0"

section \<open>Filling loops\<close>

text \<open>
  The outcome of installing \<open>n\<close> pages, after which the space is \<open>xs\<close>: a failure means that memory is exhausted,
  and a page costs at most three frames, its own and two tables.
\<close>

definition filled :: "'a machine_scheme \<Rightarrow> usize \<Rightarrow> 'a machine_scheme \<Rightarrow> page_list \<Rightarrow> nat \<Rightarrow> 'r result \<Rightarrow> 'a machine_scheme \<Rightarrow> bool" where
  "filled s0 dst s xs n r s' \<longleftrightarrow> card (free_pages s) \<le> card (free_pages s') + 3 * n \<and>
     (case r of Inr _ \<Rightarrow> space_inv s0 dst s' (view xs) | Inl _ \<Rightarrow> free_pages s' = {})"

lemma filled_trans:
  assumes "filled s0 dst s xs n (Inr u) s1" "filled s0 dst s1 ys k r s'"
  shows "filled s0 dst s ys (n + k) r s'"
  using assms by (auto simp: filled_def)

lemma filled_same:
  assumes "filled s0 dst s xs n r s'" "isl r = isl r'"
  shows "filled s0 dst s xs n r' s'"
  using assms by (cases r; cases r') (auto simp: filled_def)

lemma fill_step:
  assumes inv: "space_inv s0 dst s (view xs)" and va: "vpn va 2 = 1" "page_no va \<notin> fst ` set xs"
    and flags: "page_flags flags = flags" and pa: "page_alloc 1 s = (Some f, s1)" and bs: "length bs \<le> 4096"
  shows "\<exists>r s'. PageTable_map dst va f flags (s1\<lparr>phys := store_bytes (phys s1) f bs\<rparr>) = Some (r, s') \<and>
    filled s0 dst s (xs @ [(page_no va, flags, pad bs)]) 1 r s'"
proof -
  note I = space_invD [OF inv]
  have E: "view xs va = None" using va(2) by (simp add: view_def map_of_eq_None_iff)
  then have un: "\<not> pte_valid (pte_at (phys s) dst va)" using I(7) [OF va(1)] by (simp add: page_view_None)
  obtain r s' where m: "PageTable_map dst va f flags (s1\<lparr>phys := store_bytes (phys s1) f bs\<rparr>) = Some (r, s')"
    and ins: "installed dst va f flags bs s r s'"
    by (rule install_page [OF I(1,2) un pa bs])
  have new: "(\<lambda>v. if same_page v va then Some (flags, pad bs) else view xs v) = view (xs @ [(page_no va, flags, pad bs)])"
    using E by (auto simp: fun_eq_iff view_def same_page_no map_add_def split: option.splits)
  have "filled s0 dst s (xs @ [(page_no va, flags, pad bs)]) 1 r s'"
    using space_inv_install [OF inv va(1) E ins flags bs] installedD(6,11) [OF ins]
    by (cases r) (simp_all add: filled_def new [unfolded pad_def, symmetric] pad_def)
  with m show ?thesis by blast
qed

lemma fill_none:
  assumes "space_inv s0 dst s E" "page_alloc 1 s = (None, s1)"
  shows "filled s0 dst s xs n (Inl e) s1"
  using page_alloc_1_None [OF space_invD(1) [OF assms(1)]] assms(2) by (auto simp: filled_def)

section \<open>Segments\<close>

definition seg_file :: "u8 list \<Rightarrow> segment \<Rightarrow> u8 list" where
  "seg_file prog sg = take (unat (seg_filesz sg)) (drop (unat (seg_offset sg)) prog)"

definition seg_count :: "segment \<Rightarrow> nat" where
  "seg_count sg = (unat (seg_memsz sg) + 4095) div 4096"

definition seg_at :: "segment \<Rightarrow> nat \<Rightarrow> usize" where
  "seg_at sg j = seg_vaddr sg + word_of_nat (4096 * j)"

definition seg_page :: "u8 list \<Rightarrow> segment \<Rightarrow> nat \<Rightarrow> nat \<times> u64 \<times> u8 list" where
  "seg_page prog sg j =
     (unat (seg_vaddr sg) div 4096 + j, segment_flags (seg_flags sg), pad (take 4096 (drop (4096 * j) (seg_file prog sg))))"

definition seg_pages :: "u8 list \<Rightarrow> segment \<Rightarrow> page_list" where
  "seg_pages prog sg = map (seg_page prog sg) [0..<seg_count sg]"

text \<open>A segment as the linker script lays it out: page aligned, inside the file and inside the user window.\<close>

definition seg_ok :: "u8 list \<Rightarrow> segment \<Rightarrow> bool" where
  "seg_ok prog sg \<longleftrightarrow> seg_filesz sg \<le> seg_memsz sg \<and> unat (seg_offset sg) + unat (seg_filesz sg) \<le> length prog \<and>
     unat (seg_vaddr sg) mod 4096 = 0 \<and> 0x40000000 \<le> unat (seg_vaddr sg) \<and>
     unat (seg_vaddr sg) + unat (seg_memsz sg) \<le> 0x80000000"

lemma segment_flags_user: "page_flags (segment_flags fl) = segment_flags fl"
  by (simp add: page_flags_def segment_flags_def Let_def)

lemma seg_va:
  assumes "seg_ok prog sg" "j \<le> seg_count sg"
  shows "unat (seg_at sg j) = unat (seg_vaddr sg) + 4096 * j"
    and "j < seg_count sg \<Longrightarrow> unat (seg_at sg j) < 0x80000000"
    and "unat (segment_end sg) = unat (seg_vaddr sg) + 4096 * seg_count sg"
proof -
  let ?v = "unat (seg_vaddr sg)" and ?n = "unat (seg_memsz sg)"
  have v: "?v mod 4096 = 0" "?v + ?n \<le> 0x80000000" using assms(1) by (auto simp: seg_ok_def)
  have c: "4096 * seg_count sg < ?n + 4096" "4096 * j \<le> 4096 * seg_count sg" using assms(2) by (auto simp: seg_count_def)
  have j: "unat (word_of_nat (4096 * j) :: usize) = 4096 * j"
    using v c by (simp add: unat_of_nat take_bit_nat_eq_self del: of_nat_mult)
  show u: "unat (seg_at sg j) = ?v + 4096 * j"
    using v c by (simp add: unat_word_ariths j seg_at_def del: of_nat_mult)
  show "unat (seg_at sg j) < 0x80000000" if "j < seg_count sg"
  proof -
    have "4096 * j < ?n" using that c(1) by linarith
    then show ?thesis using u v by simp
  qed
  have s: "unat (seg_vaddr sg + seg_memsz sg) = ?v + ?n" using v by (simp add: unat_word_ariths)
  have "(?v + ?n + 4095) div 4096 * 4096 = ?v + 4096 * seg_count sg"
  proof -
    obtain k where "?v = 4096 * k" using v(1) by (auto elim: dvdE)
    then show ?thesis by (simp add: seg_count_def add.assoc)
  qed
  then show "unat (segment_end sg) = ?v + 4096 * seg_count sg"
    unfolding segment_end_def using v by (subst unat_page_up) (simp_all add: s)
qed


text \<open>The bytes the copy moves into page \<open>j\<close> are the segment's, cut at its file size.\<close>

lemma image_bytes_seg:
  assumes ok: "seg_ok prog sg" and len: "length prog < 2 ^ 64" and j: "4096 * j < unat (seg_filesz sg)" "j < seg_count sg"
  shows "image_bytes prog img m (seg_offset sg + word_of_nat (4096 * j)) (min 4096 (unat (seg_filesz sg - word_of_nat (4096 * j)))) =
    take 4096 (drop (4096 * j) (seg_file prog sg))"
proof -
  have f: "unat (seg_offset sg) + unat (seg_filesz sg) \<le> length prog" using ok by (simp add: seg_ok_def)
  have lim: "unat (seg_filesz sg) < 2 ^ 64" using f len by simp
  have w: "unat (word_of_nat (4096 * j) :: usize) = 4096 * j"
    by (rule unat_word_of_nat_less) (use j(1) lim in linarith)
  have n: "unat (seg_filesz sg - word_of_nat (4096 * j)) = unat (seg_filesz sg) - 4096 * j"
    using j(1) w by (subst unat_sub) (simp_all add: word_le_nat_alt del: of_nat_mult)
  have o: "unat (seg_offset sg + word_of_nat (4096 * j) + word_of_nat k) = unat (seg_offset sg) + (4096 * j + k)"
    if "k < unat (seg_filesz sg) - 4096 * j" for k
  proof -
    have "unat (word_of_nat (4096 * j + k) :: usize) = 4096 * j + k"
      by (rule unat_word_of_nat_less) (use that lim in linarith)
    then have "unat (seg_offset sg + word_of_nat (4096 * j + k)) = unat (seg_offset sg) + (4096 * j + k)"
      using f that len by (subst unat_plus_simple [THEN iffD1]) (auto simp: no_olen_add_nat simp del: of_nat_add of_nat_mult)
    then show ?thesis by (simp add: add.assoc)
  qed
  show ?thesis
    unfolding n
  proof (rule nth_equalityI)
    show "length (image_bytes prog img m (seg_offset sg + word_of_nat (4096 * j)) (min 4096 (unat (seg_filesz sg) - 4096 * j))) =
        length (take 4096 (drop (4096 * j) (seg_file prog sg)))"
      using f by (simp add: image_bytes_def seg_file_def)
    fix k assume "k < length (image_bytes prog img m (seg_offset sg + word_of_nat (4096 * j)) (min 4096 (unat (seg_filesz sg) - 4096 * j)))"
    then have k: "k < 4096" "k < unat (seg_filesz sg) - 4096 * j" by (simp_all add: image_bytes_def)
    then have "unat (seg_offset sg) + (4096 * j + k) < length prog" using f by linarith
    then show "image_bytes prog img m (seg_offset sg + word_of_nat (4096 * j)) (min 4096 (unat (seg_filesz sg) - 4096 * j)) ! k =
        take 4096 (drop (4096 * j) (seg_file prog sg)) ! k"
      using k o [OF k(2)] by (simp add: image_bytes_def seg_file_def drop_take Let_def ac_simps del: of_nat_mult)
  qed
qed

lemma load_pages_spec:
  assumes ok: "seg_ok prog sg" and len: "length prog < 2 ^ 64"
    and "j + n = seg_count sg" "space_inv s0 dst s (view xs)"
    and "fst ` set xs \<inter> fst ` set (map (seg_page prog sg) [j..<seg_count sg]) = {}"
  shows "\<exists>r s'. load_pages prog img dst sg (seg_at sg j) (segment_end sg) s = Some (r, s') \<and>
    filled s0 dst s (xs @ map (seg_page prog sg) [j..<seg_count sg]) n r s'"
  using assms(3-)
proof (induction n arbitrary: j s xs)
  case 0
  then have "\<not> seg_at sg j < segment_end sg"
    using seg_va [OF ok, of j] by (simp add: word_less_nat_alt)
  then show ?case using 0 by (subst load_pages.simps) (simp add: filled_def)
next
  case (Suc n)
  let ?va = "seg_at sg j" and ?fl = "segment_flags (seg_flags sg)"
    and ?bs = "take 4096 (drop (4096 * j) (seg_file prog sg))"
  have j: "j < seg_count sg" using Suc.prems(1) by simp
  have lt: "?va < segment_end sg" using seg_va [OF ok, of j] j by (simp add: word_less_nat_alt)
  have "0x40000000 \<le> unat (seg_vaddr sg)" "unat (seg_vaddr sg) mod 4096 = 0" using ok by (auto simp: seg_ok_def)
  then have va: "page_no ?va = unat (seg_vaddr sg) div 4096 + j" "vpn ?va 2 = 1"
    using page_no_user [of ?va] seg_va(1,2) [OF ok, of j] j by (auto elim!: dvdE)
  have pg: "seg_page prog sg j = (page_no ?va, ?fl, pad ?bs)" by (simp add: seg_page_def va)
  have upt: "[j..<seg_count sg] = j # [Suc j..<seg_count sg]" using j by (simp add: upt_rec)
  have fresh: "page_no ?va \<notin> fst ` set xs" using Suc.prems(3) unfolding upt by (auto simp: pg)
  obtain q s1 where pa: "page_alloc 1 s = (q, s1)" by (metis surj_pair)
  show ?case
  proof (cases q)
    case None
    show ?thesis using fill_none [OF Suc.prems(2) pa [unfolded None]] lt pa None
      by (subst load_pages.simps) auto
  next
    case (Some f)
    have w: "unat (word_of_nat (4096 * j) :: usize) = 4096 * j"
      using seg_va(1) [OF ok, of j] seg_va(2) [OF ok, of j] j
      by (simp add: unat_of_nat take_bit_nat_eq_self del: of_nat_mult)
    let ?s2 = "s1\<lparr>phys := store_bytes (phys s1) f ?bs\<rparr>"
    have st: "(if ?va - seg_vaddr sg < seg_filesz sg
        then s1\<lparr>phys := store_bytes (phys s1) f (image_bytes prog img (phys s1) (seg_offset sg + (?va - seg_vaddr sg))
           (min (unat PAGE_SIZE) (unat (seg_filesz sg - (?va - seg_vaddr sg)))))\<rparr> else s1) = ?s2"
      using image_bytes_seg [OF ok len _ j, of img "phys s1"]
      by (auto simp: word_less_nat_alt w seg_at_def seg_file_def store_bytes_def simp del: of_nat_mult)
    obtain r s' where m: "PageTable_map dst ?va f ?fl ?s2 = Some (r, s')"
      and fl: "filled s0 dst s (xs @ [seg_page prog sg j]) 1 r s'"
      using fill_step [OF Suc.prems(2) va(2) fresh segment_flags_user [of "seg_flags sg"] pa [unfolded Some], of ?bs] pg by auto
    have step: "load_pages prog img dst sg ?va (segment_end sg) s =
        (case r of Inl e \<Rightarrow> Some (Inl e, s') | Inr _ \<Rightarrow> load_pages prog img dst sg (?va + PAGE_SIZE) (segment_end sg) s')"
      using lt pa Some m st by (subst load_pages.simps) (cases "?va - seg_vaddr sg < seg_filesz sg"; simp add: Let_def)
    show ?thesis
    proof (cases r)
      case (Inl e)
      then show ?thesis using step fl by (auto simp: filled_def)
    next
      case (Inr u)
      have inv: "space_inv s0 dst s' (view (xs @ [seg_page prog sg j]))" using fl Inr by (simp add: filled_def)
      have dis: "fst ` set (xs @ [seg_page prog sg j]) \<inter> fst ` set (map (seg_page prog sg) [Suc j..<seg_count sg]) = {}"
        using Suc.prems(3) unfolding upt by (auto simp: seg_page_def)
      have nxt: "?va + PAGE_SIZE = seg_at sg (Suc j)" by (simp add: seg_at_def)
      obtain r' s'' where "load_pages prog img dst sg (?va + PAGE_SIZE) (segment_end sg) s' = Some (r', s'')"
        "filled s0 dst s' ((xs @ [seg_page prog sg j]) @ map (seg_page prog sg) [Suc j..<seg_count sg]) n r' s''"
        using Suc.IH [OF _ inv dis] Suc.prems(1) unfolding nxt by auto
      then show ?thesis using filled_trans [OF fl [unfolded Inr]] step Inr by (auto simp: upt)
    qed
  qed
qed


section \<open>Program headers\<close>

text \<open>The loadable segments the header table lists.\<close>

fun header_segments :: "u8 list \<Rightarrow> usize list \<Rightarrow> segment list option" where
  "header_segments prog [] = Some []"
| "header_segments prog (ph # phs) =
     (if unat (ph + 56) > length prog then None
      else do { h \<leftarrow> read_segment prog ph; sgs \<leftarrow> header_segments prog phs;
                Some (case h of None \<Rightarrow> sgs | Some sg \<Rightarrow> sg # sgs) })"

definition elf_image :: "u8 list \<Rightarrow> usize \<Rightarrow> segment list \<Rightarrow> bool" where
  "elf_image prog ent sgs \<longleftrightarrow> 64 \<le> length prog \<and> take 4 prog = ELF_MAGIC \<and> prog ! 4 = CLASS_64 \<and>
     read_u16 prog 18 = Some MACHINE_RISCV \<and> read_u16 prog 16 = Some ET_EXEC \<and> read_u64 prog 24 = Some ent \<and>
     (case (read_u64 prog 32, read_u16 prog 54, read_u16 prog 56) of
        (Some phoff, Some phentsize, Some phnum) \<Rightarrow>
          header_segments prog (map (\<lambda>i. phoff + word_of_nat i * ucast phentsize) [0..<unat phnum]) = Some sgs
      | _ \<Rightarrow> False)"

lemma check_segment_ok:
  assumes "seg_ok prog sg" "length prog < 2 ^ 64"
  shows "check_segment prog sg = Inr ()" "page_down (seg_vaddr sg) = seg_at sg 0"
proof -
  have "unat (seg_offset sg + seg_filesz sg) = unat (seg_offset sg) + unat (seg_filesz sg)"
    using assms by (simp add: seg_ok_def unat_word_ariths)
  then show "check_segment prog sg = Inr ()" using assms by (auto simp: seg_ok_def check_segment_def not_less)
  have "page_aligned (seg_vaddr sg)" using assms by (simp add: seg_ok_def page_aligned_iff mod_0_imp_dvd)
  then show "page_down (seg_vaddr sg) = seg_at sg 0" by (simp add: seg_at_def)
qed

lemma load_headers_spec:
  assumes len: "length prog < 2 ^ 64" and "header_segments prog phs = Some sgs" "\<forall>sg \<in> set sgs. seg_ok prog sg"
    and "space_inv s0 dst s (view xs)" "distinct (map fst (xs @ concat (map (seg_pages prog) sgs)))"
  shows "\<exists>r s'. load_headers prog img dst phs br s = Some (r, s') \<and>
    filled s0 dst s (xs @ concat (map (seg_pages prog) sgs)) (length (concat (map (seg_pages prog) sgs))) r s' \<and>
    (\<forall>b. r = Inr b \<longrightarrow> b = fold max (map segment_end sgs) br)"
  using assms(2-)
proof (induction phs arbitrary: sgs s xs br)
  case (Cons ph phs)
  then obtain h sgs' where h: "\<not> unat (ph + 56) > length prog" "read_segment prog ph = Some h"
    "header_segments prog phs = Some sgs'" "sgs = (case h of None \<Rightarrow> sgs' | Some sg \<Rightarrow> sg # sgs')"
    by (auto simp: bind_eq_Some_conv split: if_splits)
  show ?case
  proof (cases h)
    case None
    then show ?thesis using Cons.IH [OF h(3), of s xs br] Cons.prems h by simp
  next
    case (Some sg)
    have sgs: "sgs = sg # sgs'" using h(4) Some by simp
    have ok: "seg_ok prog sg" and ok': "\<forall>sg \<in> set sgs'. seg_ok prog sg" using Cons.prems(2) sgs by auto
    have dis: "fst ` set xs \<inter> fst ` set (map (seg_page prog sg) [0..<seg_count sg]) = {}"
      using Cons.prems(4) unfolding sgs by (auto simp: seg_pages_def)
    obtain r s1 where l: "load_pages prog img dst sg (page_down (seg_vaddr sg)) (segment_end sg) s = Some (r, s1)"
      and f: "filled s0 dst s (xs @ seg_pages prog sg) (seg_count sg) r s1"
      using load_pages_spec [OF ok len _ Cons.prems(3) dis, of "seg_count sg" img] check_segment_ok [OF ok len]
      by (auto simp: seg_pages_def)
    have n: "length (seg_pages prog sg) = seg_count sg" by (simp add: seg_pages_def)
    show ?thesis
    proof (cases r)
      case (Inl e)
      then show ?thesis using h Some l f check_segment_ok [OF ok len] by (auto simp: filled_def sgs n)
    next
      case (Inr u)
      have inv: "space_inv s0 dst s1 (view (xs @ seg_pages prog sg))" using f Inr by (simp add: filled_def)
      obtain r' s' where "load_headers prog img dst phs (max br (segment_end sg)) s1 = Some (r', s')"
        "filled s0 dst s1 ((xs @ seg_pages prog sg) @ concat (map (seg_pages prog) sgs')) (length (concat (map (seg_pages prog) sgs'))) r' s'"
        "\<forall>b. r' = Inr b \<longrightarrow> b = fold max (map segment_end sgs') (max br (segment_end sg))"
        using Cons.IH [OF h(3) ok' inv, of "max br (segment_end sg)"] Cons.prems(4) by (auto simp: sgs)
      then show ?thesis using filled_trans [OF f [unfolded Inr]] h Some l Inr check_segment_ok [OF ok len]
        by (simp add: sgs n max.commute)
    qed
  qed
qed (auto simp: filled_def)


lemma fold_max_ge: "(b :: usize) \<le> fold max xs b"
proof (induction xs arbitrary: b)
  case (Cons a xs)
  have "max a b \<le> fold max xs (max a b)" by (rule Cons.IH)
  then show ?case by simp
qed simp

lemma elf_load_spec:
  assumes img: "elf_image prog ent sgs" and len: "length prog < 2 ^ 64" and sgs: "sgs \<noteq> []" "\<forall>sg \<in> set sgs. seg_ok prog sg"
    and inv: "space_inv s0 dst s (view [])" and dis: "distinct (map fst (concat (map (seg_pages prog) sgs)))"
  shows "\<exists>r s'. elf_load prog ptr dst s = Some (r, s') \<and>
    filled s0 dst s (concat (map (seg_pages prog) sgs)) (length (concat (map (seg_pages prog) sgs))) r s' \<and>
    (\<forall>l. r = Inr l \<longrightarrow> l = \<lparr>elf_entry = ent, elf_brk = fold max (map segment_end sgs) 0\<rparr>)"
proof -
  obtain phoff phentsize phnum where ph: "read_u64 prog 32 = Some phoff" "read_u16 prog 54 = Some phentsize" "read_u16 prog 56 = Some phnum"
    "header_segments prog (map (\<lambda>i. phoff + word_of_nat i * ucast phentsize) [0..<unat phnum]) = Some sgs"
    using img by (auto simp: elf_image_def split: option.splits)
  obtain sg rest where c: "sgs = sg # rest" using sgs(1) by (cases sgs) auto
  have "segment_end sg \<noteq> 0"
    using seg_va(3) [of prog sg 0] sgs(2) c by (auto simp: seg_ok_def word_unat_eq_iff)
  moreover have "segment_end sg \<le> fold max (map segment_end sgs) 0" using fold_max_ge by (simp add: c)
  ultimately have b: "fold max (map segment_end sgs) 0 \<noteq> 0" using word_le_0_iff [of "segment_end sg"] by auto
  obtain r s' where l: "load_headers prog ptr dst (map (\<lambda>i. phoff + word_of_nat i * ucast phentsize) [0..<unat phnum]) 0 s = Some (r, s')"
    and f: "filled s0 dst s (concat (map (seg_pages prog) sgs)) (length (concat (map (seg_pages prog) sgs))) r s'"
    and br: "\<forall>b. r = Inr b \<longrightarrow> b = fold max (map segment_end sgs) 0"
    using load_headers_spec [OF len ph(4) sgs(2) inv, of ptr 0] dis by auto
  define r' where "r' = (case r of Inl e \<Rightarrow> Inl e | Inr b \<Rightarrow> Inr \<lparr>elf_entry = ent, elf_brk = b\<rparr>)"
  have "elf_load prog ptr dst s = Some (r', s')"
    using img ph(1-3) l br b by (auto simp: elf_load_def elf_image_def r'_def simp del: upt.simps split: sum.splits)
  moreover have "filled s0 dst s (concat (map (seg_pages prog) sgs)) (length (concat (map (seg_pages prog) sgs))) r' s'"
    by (rule filled_same [OF f]) (cases r; simp add: r'_def)
  moreover have "\<forall>l. r' = Inr l \<longrightarrow> l = \<lparr>elf_entry = ent, elf_brk = fold max (map segment_end sgs) 0\<rparr>"
    using br by (auto simp: r'_def split: sum.splits)
  ultimately show ?thesis by blast
qed

section \<open>The stack\<close>

definition stack_page :: "nat \<Rightarrow> nat \<times> u64 \<times> u8 list" where
  "stack_page i = (0x7ffef + i, PTE_U OR PTE_R OR PTE_W, replicate 4096 0)"

definition space_pages :: "u8 list \<Rightarrow> segment list \<Rightarrow> page_list" where
  "space_pages prog sgs = concat (map (seg_pages prog) sgs) @ map stack_page [0..<USER_STACK_PAGES]"

lemma map_stack_spec:
  assumes "space_inv s0 dst s (view xs)" "\<forall>i \<in> set is. i < 16" "distinct (map fst (xs @ map stack_page is))"
  shows "\<exists>r s'. map_stack dst is s = Some (r, s') \<and> filled s0 dst s (xs @ map stack_page is) (length is) r s'"
  using assms
proof (induction "is" arbitrary: s xs)
  case (Cons i "is")
  let ?va = "USER_STACK_TOP - word_of_nat USER_STACK_PAGES * PAGE_SIZE + word_of_nat i * PAGE_SIZE" and ?fl = "PTE_U OR PTE_R OR PTE_W"
  have "?va = word_of_nat (0x7ffef000 + i * 4096)" by simp
  then have u: "unat ?va = 0x7ffef000 + i * 4096"
    using Cons.prems(2) by (simp only:) (rule unat_word_of_nat_less, simp)
  have va: "page_no ?va = 0x7ffef + i" "vpn ?va 2 = 1"
    using page_no_user [of ?va] Cons.prems(2) unfolding u by simp_all
  have pg: "stack_page i = (page_no ?va, ?fl, pad [])" unfolding va by (simp add: stack_page_def pad_def)
  have fresh: "page_no ?va \<notin> fst ` set xs" using Cons.prems(3) by (auto simp: pg)
  obtain q s1 where pa: "page_alloc 1 s = (q, s1)" by (metis surj_pair)
  show ?case
  proof (cases q)
    case None
    then show ?thesis using fill_none [OF Cons.prems(1) pa [unfolded None]] pa by auto
  next
    case (Some f)
    have "store_bytes (phys s1) f [] = phys s1" by (simp add: store_bytes_def fun_eq_iff)
    then obtain r s' where m: "PageTable_map dst ?va f ?fl s1 = Some (r, s')"
      and fl: "filled s0 dst s (xs @ [stack_page i]) 1 r s'"
      using fill_step [OF Cons.prems(1) va(2) fresh _ pa [unfolded Some], of ?fl "[]"] pg
      by (auto simp: page_flags_def)
    show ?thesis
    proof (cases r)
      case (Inl e)
      then show ?thesis using pa Some m fl by (auto simp: filled_def)
    next
      case (Inr u)
      have inv: "space_inv s0 dst s' (view (xs @ [stack_page i]))" using fl Inr by (simp add: filled_def)
      obtain r' s'' where "map_stack dst is s' = Some (r', s'')"
        "filled s0 dst s' ((xs @ [stack_page i]) @ map stack_page is) (length is) r' s''"
        using Cons.IH [OF inv] Cons.prems by auto
      then show ?thesis using filled_trans [OF fl [unfolded Inr]] pa Some m Inr by auto
    qed
  qed
qed (simp add: filled_def)


section \<open>The address space of a program\<close>

text \<open>A well-formed image: distinct pages in the user window. It fits when three frames are free for each.\<close>

definition program_ok :: "u8 list \<Rightarrow> usize \<Rightarrow> segment list \<Rightarrow> bool" where
  "program_ok prog ent sgs \<longleftrightarrow> elf_image prog ent sgs \<and> length prog < 2 ^ 64 \<and> sgs \<noteq> [] \<and> list_all (seg_ok prog) sgs \<and>
     distinct (map fst (space_pages prog sgs))"

definition fits :: "'a machine_scheme \<Rightarrow> u8 list \<Rightarrow> usize \<Rightarrow> segment list \<Rightarrow> bool" where
  "fits s prog ent sgs \<longleftrightarrow> program_ok prog ent sgs \<and> 3 * length (space_pages prog sgs) + 1 < card (free_pages s)"

lemma build_address_space_spec:
  assumes ok: "machine_ok s" and k: "tree_wf (phys s) (kernel_root_pa e) (free_pages s)" and fits: "fits s prog ent sgs"
  obtains root s' where "build_address_space e prog s = Some (Inr (root, ent, fold max (map segment_end sgs) 0), s')"
    "machine_ok s'" "space_ok s' root" "frame_of root \<in> free_pages s"
    "\<And>v. vpn v 2 = 1 \<Longrightarrow> page_view (phys s') root v = map_of (space_pages prog sgs) (page_no v)"
    "\<And>v. vpn v 2 \<noteq> 1 \<Longrightarrow> pte_at (phys s') root v = pte_at (phys s) (kernel_root_pa e) v"
    "\<And>x. frame_of x \<notin> free_pages s \<Longrightarrow> phys s' x = phys s x"
proof (rule new_user_root_spec [OF ok k], goal_cases none some)
  case none
  then show ?case using fits by (simp add: fits_def)
next
  case (some root s1)
  note some = some(2-)
  have img: "elf_image prog ent sgs" "length prog < 2 ^ 64" "sgs \<noteq> []" "\<forall>sg \<in> set sgs. seg_ok prog sg"
    and dis: "distinct (map fst (space_pages prog sgs))" and mem: "3 * length (space_pages prog sgs) + 1 < card (free_pages s)"
    using fits by (auto simp: fits_def program_ok_def list_all_iff)
  let ?xs = "concat (map (seg_pages prog) sgs)"
  have nil: "view [] = (\<lambda>_. None)" by (simp add: view_def fun_eq_iff)
  have start: "space_inv s1 root s1 (view [])"
    unfolding nil by (rule space_inv_start [OF some(2,3)]) (use some(9) in simp)
  have "finite (free_pages s)" by (simp add: free_pages_def)
  then have card1: "card (free_pages s1) + 1 = card (free_pages s)"
    using some(6) card.remove [of "free_pages s" "frame_of root"] unfolding some(7) by simp
  obtain r s2 where l: "elf_load prog (image_ptr e) root s1 = Some (r, s2)" and f: "filled s1 root s1 ?xs (length ?xs) r s2"
    and r: "\<forall>l. r = Inr l \<longrightarrow> l = \<lparr>elf_entry = ent, elf_brk = fold max (map segment_end sgs) 0\<rparr>"
    using elf_load_spec [OF img start, of "image_ptr e"] dis by (auto simp: space_pages_def)
  obtain l1 where l1: "r = Inr l1" "space_inv s1 root s2 (view ?xs)"
    using f card1 mem by (cases r) (auto simp: filled_def space_pages_def)
  obtain r' s3 where m: "map_stack root [0..<USER_STACK_PAGES] s2 = Some (r', s3)"
    and f': "filled s1 root s2 (space_pages prog sgs) USER_STACK_PAGES r' s3"
    using map_stack_spec [OF l1(2), of "[0..<USER_STACK_PAGES]"] dis by (auto simp: space_pages_def simp del: upt_rec_numeral)
  obtain u where inv: "r' = Inr u" "space_inv s1 root s3 (view (space_pages prog sgs))"
    using filled_trans [OF f [unfolded l1(1)] f'] card1 mem by (cases r') (auto simp: filled_def space_pages_def)
  note I = space_invD [OF inv(2)]
  show ?case
  proof (rule that [of root s3])
    show "build_address_space e prog s = Some (Inr (root, ent, fold max (map segment_end sgs) 0), s3)"
      using some(1) l l1(1) r m inv(1) by (simp add: build_address_space_def del: upt_rec_numeral)
    show "machine_ok s3" "frame_of root \<in> free_pages s" by (rule I(1) some(6))+
    show "space_ok s3 root" by (rule space_ok_at [OF inv(2)])
    show "page_view (phys s3) root v = map_of (space_pages prog sgs) (page_no v)" if "vpn v 2 = 1" for v
      using I(7) [OF that] by (simp add: view_def)
    show "pte_at (phys s3) root v = pte_at (phys s) (kernel_root_pa e) v" if "vpn v 2 \<noteq> 1" for v
      using I(6) [OF that] that by (simp add: some(10))
    show "phys s3 x = phys s x" if "frame_of x \<notin> free_pages s" for x
    proof -
      have ne: "frame_of x \<noteq> frame_of root" using that some(6) by metis
      then have "frame_of x \<notin> insert (frame_of root) (free_pages s1)" using that unfolding some(7) by blast
      then show ?thesis using I(4) [of x] some(8) [OF ne] by simp
    qed
  qed
qed


text \<open>The process that \<open>spawn\<close> enters in the table.\<close>

definition spawned :: "nat \<Rightarrow> usize \<Rightarrow> usize \<Rightarrow> u8 list \<Rightarrow> Process" where
  "spawned pd root br name = \<lparr>pid = pd, pstate = Ready, parent = NO_PROC, root_pa = root, exit_code = 0, wait_status_uva = 0,
     read_buf_uva = 0, read_len = 0, next_mmap = MMAP_BASE, brk = br, pname = set_name (replicate 16 0) name, files = [],
     nce_affinity = 0\<rparr>"

lemma spawn_spec:
  assumes "machine_ok s" "tree_wf (phys s) (kernel_root_pa e) (free_pages s)" "fits s prog ent sgs"
    and "load_program (blk e) (ROOT s) (images e) name = Some prog" "position (\<lambda>x. x = None) (slots s) = Some slot"
  obtains root s1 where "spawn e name s = Some (Inr (next_pid s),
      set_proc slot (Some (spawned (next_pid s) root (fold max (map segment_end sgs) 0) name))
        (set_tf slot (fresh_tf e ent) (s1\<lparr>next_pid := next_pid s + 1\<rparr>)))"
    and "same_statics s s1" "machine_ok s1" "space_ok s1 root"
    and "\<And>v. vpn v 2 = 1 \<Longrightarrow> page_view (phys s1) root v = map_of (space_pages prog sgs) (page_no v)"
    and "\<And>v. vpn v 2 \<noteq> 1 \<Longrightarrow> pte_at (phys s1) root v = pte_at (phys s) (kernel_root_pa e) v"
    and "\<And>x. frame_of x \<notin> free_pages s \<Longrightarrow> phys s1 x = phys s x"
proof (rule build_address_space_spec [OF assms(1-3)], goal_cases)
  case (1 root s1)
  note b = 1(2-) and st = build_address_space_statics [OF 1(2)]
  show ?case
    by (rule that [OF _ st b(2,3,5-7)])
       (use assms(4,5) b(1) same_statics_kernel [OF st] in \<open>simp_all add: spawn_def spawned_def Let_def\<close>)
qed

text \<open>
  C6: \<open>spawn\<close> of a well-formed program that fits in memory succeeds: the new process is ready in the first free
  slot under the next pid, its frame starts at the entry point with the stack pointer at the top of the stack,
  and its address space holds the image's segments (file bytes, zeros up to the memory size, the permissions of
  the header), sixteen zeroed stack pages, and nothing else; the kernel half is the kernel's own, no memory in
  use changes, and every other process and frame stays as it was.
\<close>

theorem spawn_builds_process:
  assumes "machine_ok s" "tree_wf (phys s) (kernel_root_pa e) (free_pages s)" "fits s prog ent sgs"
    and "load_program (blk e) (ROOT s) (images e) name = Some prog"
    and "position (\<lambda>x. x = None) (slots s) = Some slot" "slot < length (TRAPFRAMES s)"
  shows "\<exists>s' p. spawn e name s = Some (Inr (next_pid s), s') \<and> machine_ok s' \<and> space_ok s' (root_pa p) \<and>
    proc_at s' = (proc_at s)(slot \<mapsto> p) \<and> pid p = next_pid s \<and> next_pid s' = next_pid s + 1 \<and> pstate p = Ready \<and>
    brk p = fold max (map segment_end sgs) 0 \<and>
    sepc (tf_at s' slot) = ent \<and> regs (tf_at s' slot) ! 2 = USER_STACK_TOP \<and>
    (\<forall>v. vpn v 2 = USER_ROOT_SLOT \<longrightarrow> page_view (phys s') (root_pa p) v = map_of (space_pages prog sgs) (page_no v)) \<and>
    (\<forall>v. vpn v 2 \<noteq> USER_ROOT_SLOT \<longrightarrow> pte_at (phys s') (root_pa p) v = pte_at (phys s) (kernel_root_pa e) v) \<and>
    (\<forall>x. frame_of x \<notin> free_pages s \<longrightarrow> phys s' x = phys s x) \<and>
    (\<forall>i. i \<noteq> slot \<longrightarrow> tf_at s' i = tf_at s i)"
proof -
  obtain root s1 where spawn: "spawn e name s = Some (Inr (next_pid s),
      set_proc slot (Some (spawned (next_pid s) root (fold max (map segment_end sgs) 0) name))
        (set_tf slot (fresh_tf e ent) (s1\<lparr>next_pid := next_pid s + 1\<rparr>)))" (is "_ = Some (_, ?s')")
    and st: "same_statics s s1" and ok: "machine_ok s1" "space_ok s1 root"
    and view: "\<And>v. vpn v 2 = 1 \<Longrightarrow> page_view (phys s1) root v = map_of (space_pages prog sgs) (page_no v)"
      "\<And>v. vpn v 2 \<noteq> 1 \<Longrightarrow> pte_at (phys s1) root v = pte_at (phys s) (kernel_root_pa e) v"
      "\<And>x. frame_of x \<notin> free_pages s \<Longrightarrow> phys s1 x = phys s x"
    by (rule spawn_spec [OF assms(1-5)]) blast
  note S = same_statics_kernel [OF st]
  let ?p = "spawned (next_pid s) root (fold max (map segment_end sgs) 0) name"
  have i: "slot < length (slots s)" using position_slot(1) [OF assms(5)] .
  have table: "proc_at ?s' = (proc_at s)(slot \<mapsto> ?p)" using i S by (simp add: proc_at_set_proc)
  have frame: "tf_at ?s' slot = fresh_tf e ent" using assms(6) S(4) by (simp add: set_tf_frames)
  have other: "tf_at ?s' i = tf_at s i" if "i \<noteq> slot" for i
    using that S(4) by (simp add: set_tf_def tf_at_def set_proc_def)
  have mok: "machine_ok ?s'" using ok(1) by (simp add: machine_ok_def set_proc_def set_tf_def)
  show ?thesis
    by (rule exI [of _ ?s'], rule exI [of _ ?p], intro conjI allI impI)
       (use spawn table frame other mok ok view in \<open>simp_all add: spawned_def fresh_tf_def TrapFrame_zeroed_def\<close>)
qed

text \<open>A four-instruction program in one read-execute segment of eight bytes, four of them in the file.\<close>

definition tiny_elf :: "u8 list" where
  "tiny_elf =
     ELF_MAGIC @ [2, 1, 1, 0] @ [0, 0, 0, 0, 0, 0, 0, 0] @ [2, 0, 243, 0, 1, 0, 0, 0] @ [0, 0, 0, 64, 0, 0, 0, 0] @ [64, 0, 0, 0, 0, 0, 0, 0] @
     [0, 0, 0, 0, 0, 0, 0, 0, 0, 0, 0, 0, 0, 0] @ [56, 0, 1, 0] @ [0, 0, 0, 0, 0, 0] @
     [1, 0, 0, 0, 5, 0, 0, 0] @ [120, 0, 0, 0, 0, 0, 0, 0] @ [0, 0, 0, 64, 0, 0, 0, 0] @ [0, 0, 0, 0, 0, 0, 0, 0] @
     [4, 0, 0, 0, 0, 0, 0, 0] @ [8, 0, 0, 0, 0, 0, 0, 0] @ [0, 0, 0, 0, 0, 0, 0, 0] @ [0x73, 0, 0, 0]"

definition tiny_seg :: segment where
  "tiny_seg = \<lparr>seg_flags = 5, seg_offset = 120, seg_vaddr = 0x40000000, seg_filesz = 4, seg_memsz = 8\<rparr>"

lemma tiny_bytes: "length tiny_elf = 124" "take 4 tiny_elf = ELF_MAGIC" "tiny_elf ! 4 = 2"
  by (simp_all add: tiny_elf_def)

lemma tiny_header: "read_u16 tiny_elf 18 = Some 243" "read_u16 tiny_elf 16 = Some 2" "read_u64 tiny_elf 24 = Some 0x40000000"
  "read_u64 tiny_elf 32 = Some 64" "read_u16 tiny_elf 54 = Some 56" "read_u16 tiny_elf 56 = Some 1"
  by (simp_all add: read_u16_def index_at_def read_u64_def tiny_elf_def)

lemma tiny_segment: "read_segment tiny_elf 64 = Some (Some tiny_seg)"
  by (simp add: read_segment_def read_u32_def index_at_def read_u64_def tiny_elf_def tiny_seg_def)

lemma tiny_image: "elf_image tiny_elf 0x40000000 [tiny_seg]" "seg_ok tiny_elf tiny_seg"
  by (simp_all add: elf_image_def tiny_bytes tiny_header tiny_segment) (simp add: seg_ok_def tiny_bytes tiny_seg_def)

lemma tiny_pages: "map fst (space_pages tiny_elf [tiny_seg]) = 0x40000 # map (\<lambda>i. 0x7ffef + i) [0..<16]"
  by (simp add: space_pages_def seg_pages_def seg_page_def stack_page_def comp_def seg_count_def tiny_seg_def)


lemma tiny_program: "program_ok tiny_elf 0x40000000 [tiny_seg]" "length (space_pages tiny_elf [tiny_seg]) = 17"
proof -
  show "length (space_pages tiny_elf [tiny_seg]) = 17"
    unfolding length_map [of fst, symmetric] tiny_pages by simp
  have "distinct (map fst (space_pages tiny_elf [tiny_seg]))" unfolding tiny_pages by (auto simp: distinct_map)
  then show "program_ok tiny_elf 0x40000000 [tiny_seg]" using tiny_image tiny_bytes by (simp add: program_ok_def)
qed

definition spawn_env :: "unit env" where
  "spawn_env = silent_env\<lparr>kernel_root_pa := 0x80001000, images := \<lparr>INIT_ELF = tiny_elf, HELLO_ELF = []\<rparr>\<rparr>"

theorem spawn_builds_process_witness:
  "\<exists>s' p. spawn spawn_env (str_bytes ''init'') fork_kernel = Some (Inr 2, s') \<and> proc_at s' 1 = Some p \<and>
     sepc (tf_at s' 1) = 0x40000000 \<and>
     page_view (phys s') (root_pa p) 0x40000000 = Some (PTE_U OR PTE_R OR PTE_X, [0x73, 0, 0, 0] @ replicate 4092 0)"
proof -
  have "fits fork_kernel tiny_elf 0x40000000 [tiny_seg]"
    using tiny_program by (simp add: fits_def fork_kernel_machine)
  moreover have "load_program (blk spawn_env) (ROOT fork_kernel) (images spawn_env) (str_bytes ''init'') = Some tiny_elf"
    by (simp add: fork_kernel_def init_running_def init_kernel_def load_program_no_root ramfs_lookup_names spawn_env_def)
  moreover have "position (\<lambda>x. x = None) (slots fork_kernel) = Some 1"
    by (simp add: fork_kernel_def numeral_eq_Suc)
  moreover have "1 < length (TRAPFRAMES fork_kernel)" "next_pid fork_kernel = 2"
    by (simp_all add: fork_kernel_def init_running_def init_kernel_def)
  moreover have "kernel_root_pa spawn_env = 0x80001000" by (simp add: spawn_env_def)
  moreover have "map_of (space_pages tiny_elf [tiny_seg]) (page_no 0x40000000) =
      Some (PTE_U OR PTE_R OR PTE_X, [0x73, 0, 0, 0] @ replicate 4092 0)" "vpn 0x40000000 2 = 1"
    using page_no_user [of "0x40000000"] tiny_bytes(1)
    by (simp_all add: space_pages_def seg_pages_def seg_page_def seg_count_def tiny_seg_def segment_flags_def seg_file_def pad_def
        upt_rec [of _ 1]) (simp add: tiny_elf_def)
  ultimately show ?thesis
    using spawn_builds_process [of fork_kernel spawn_env tiny_elf "0x40000000" "[tiny_seg]" "str_bytes ''init''" 1]
      fork_kernel_machine(1) kernel_root_tree by (auto simp: fork_kernel_machine)
qed

end
