(* ===== verification/Net_Boot.thy ===== *)
theory Net_Boot
  imports Net_Iface
begin

unbundle bit_operations_syntax

text \<open>
  The boot-time self test of \<open>kernel/net/mod.rs\<close>: resolve the gateway by ARP, then ping it, each with at most 2000
  polls of the receive ring. The driver is a parameter (\<open>send\<close>, \<open>rx\<close>); what the source prints is the value returned.
\<close>

section \<open>The self test\<close>

definition poll_driver :: "('d \<Rightarrow> u8 list list \<times> 'd) \<Rightarrow> (u8 list \<Rightarrow> 'd \<Rightarrow> unit result \<times> 'd) \<Rightarrow> net \<Rightarrow> 'd \<Rightarrow> net \<times> 'd" where
  "poll_driver rx send s d = (case rx d of (fs, d) \<Rightarrow> net_poll send fs s d)"

text \<open>The argument \<open>n\<close> counts the iterations left of the \<open>for\<close> loop; the inner loop only spins.\<close>

fun poll_until :: "('d \<Rightarrow> u8 list list \<times> 'd) \<Rightarrow> (u8 list \<Rightarrow> 'd \<Rightarrow> unit result \<times> 'd) \<Rightarrow> (net \<Rightarrow> bool) \<Rightarrow> nat \<Rightarrow> net \<Rightarrow> 'd \<Rightarrow>
    bool \<times> net \<times> 'd" where
  "poll_until rx send don 0 s d = (don s, s, d)"
| "poll_until rx send don (Suc n) s d =
     (case poll_driver rx send s d of (s, d) \<Rightarrow> if don s then (True, s, d) else poll_until rx send don n s d)"

definition POLL_BUDGET :: nat where [simp]: "POLL_BUDGET = 2000"

datatype SelfTest = ArpTimeout | PingTimeout | PingReply

definition self_test :: "('d \<Rightarrow> u8 list list \<times> 'd) \<Rightarrow> (u8 list \<Rightarrow> 'd \<Rightarrow> unit result \<times> 'd) \<Rightarrow> net \<Rightarrow> 'd \<Rightarrow> (SelfTest \<times> net \<times> 'd) run" where
  "self_test rx send s d =
     (let d = send_arp_request send GATEWAY_IP s d in
      case poll_until rx send (\<lambda>s. gateway_mac s \<noteq> None) POLL_BUDGET s d of
        (found, s, d) \<Rightarrow>
          if \<not> found then Some (ArpTimeout, s, d)
          else (case gateway_mac s of
            None \<Rightarrow> None
          | Some gw_mac \<Rightarrow>
              (let before = ping_replies s in
               case send_ping send GATEWAY_IP gw_mac 1 s d of (s, d) \<Rightarrow>
               case poll_until rx send (\<lambda>s. ping_replies s > before) POLL_BUDGET s d of
                 (answered, s, d) \<Rightarrow> Some (if answered then PingReply else PingTimeout, s, d))))"

section \<open>It never panics\<close>

lemma poll_until_done: "poll_until rx send don n s d = (True, s', d') \<Longrightarrow> don s'"
  by (induction n arbitrary: s d) (auto split: prod.splits if_splits)

lemma poll_until_wf: "net_wf s \<Longrightarrow> poll_until rx send don n s d = (b, s', d') \<Longrightarrow> net_wf s'"
proof (induction n arbitrary: s d)
  case (Suc n)
  have "net_wf (fst (poll_driver rx send s d))"
    using net_poll_wf_ind [OF Suc.prems(1)] by (auto simp: poll_driver_def split: prod.splits)
  then show ?case using Suc.IH Suc.prems(2) by (auto split: prod.splits if_splits)
qed simp

lemma self_test_total: "\<exists>r. self_test rx send s d = Some r"
  using poll_until_done [of rx send "\<lambda>s. gateway_mac s \<noteq> None" POLL_BUDGET s]
  by (fastforce simp: self_test_def Let_def split: prod.splits option.splits)

section \<open>A gateway that answers\<close>

text \<open>
  Another machine of the same kind at the end of a wire. What it answers is queued and handed over when \<open>lag\<close> polls
  have found the ring empty.
\<close>

definition wire_send :: "nat \<Rightarrow> u8 list \<Rightarrow> net \<times> u8 list list \<times> nat \<Rightarrow> unit result \<times> net \<times> u8 list list \<times> nat" where
  "wire_send lag f w = (case w of (b, q, k) \<Rightarrow> case net_poll on_link [f] b [] of (b, out) \<Rightarrow> (Inr (), b, q @ out, lag))"

fun wire_rx :: "net \<times> u8 list list \<times> nat \<Rightarrow> u8 list list \<times> net \<times> u8 list list \<times> nat" where
  "wire_rx (b, q, Suc k) = ([], b, q, k)"
| "wire_rx (b, q, 0) = (q, b, [], 0)"

lemma poll_until_wire:
  assumes "\<not> don s" "k < n" "net_poll (wire_send lag) q s (b, [], 0) = (s', d')" "don s'"
  shows "poll_until wire_rx (wire_send lag) don n s (b, q, k) = (True, s', d')"
  using assms
proof (induction k arbitrary: n)
  case 0
  then show ?case by (cases n) (simp_all add: poll_driver_def)
next
  case (Suc k)
  then show ?case by (cases n) (simp_all add: poll_driver_def)
qed


lemma arp_exchange:
  assumes "net_wf a" "net_wf b" "IFACE a = Some i" "IFACE b = Some j" "if_ip j = if_gateway i"
  shows "wire_send lag (ethernet_build BROADCAST (if_mac i) ETHERTYPE_ARP
        (arp_build OP_REQUEST (if_mac i) (if_ip i) (replicate 6 0) (if_gateway i))) (b, q, k) =
      (Inr (), b\<lparr>IFACE := Some (arp_insert (if_ip i) (if_mac i) j)\<rparr>,
       q @ [ethernet_build (if_mac i) (if_mac j) ETHERTYPE_ARP (arp_build OP_REPLY (if_mac j) (if_ip j) (if_mac i) (if_ip i))], lag)"
    and "handle_frame (ethernet_build (if_mac i) (if_mac j) ETHERTYPE_ARP (arp_build OP_REPLY (if_mac j) (if_ip j) (if_mac i) (if_ip i))) a =
      (None, a\<lparr>IFACE := Some ((arp_insert (if_ip j) (if_mac j) i)\<lparr>if_gateway_mac := Some (if_mac j)\<rparr>)\<rparr>)"
proof -
  note wi = net_wfD [OF assms(1,3)] and wj = net_wfD [OF assms(2,4)]
  note L = iface_wfD [OF wi] iface_wfD [OF wj]
  show "wire_send lag (ethernet_build BROADCAST (if_mac i) ETHERTYPE_ARP
        (arp_build OP_REQUEST (if_mac i) (if_ip i) (replicate 6 0) (if_gateway i))) (b, q, k) =
      (Inr (), b\<lparr>IFACE := Some (arp_insert (if_ip i) (if_mac i) j)\<rparr>,
       q @ [ethernet_build (if_mac i) (if_mac j) ETHERTYPE_ARP (arp_build OP_REPLY (if_mac j) (if_ip j) (if_mac i) (if_ip i))], lag)"
    using L assms(4,5) by (simp add: wire_send_def handle_frame_def handle_arp_def on_link_def)
  show "handle_frame (ethernet_build (if_mac i) (if_mac j) ETHERTYPE_ARP (arp_build OP_REPLY (if_mac j) (if_ip j) (if_mac i) (if_ip i))) a =
      (None, a\<lparr>IFACE := Some ((arp_insert (if_ip j) (if_mac j) i)\<lparr>if_gateway_mac := Some (if_mac j)\<rparr>)\<rparr>)"
    using L assms(3,5) by (simp add: handle_frame_def handle_arp_def)
qed

text \<open>A ping is answered with one frame, and handling it counts one reply.\<close>

lemma ping_exchange:
  assumes "net_wf a" "net_wf b" "IFACE a = Some i" "IFACE b = Some j" "if_ip j = if_gateway i"
  obtains frame where "send_ping (wire_send lag) (if_gateway i) (if_mac j) sq a (b, q, k) =
      (a\<lparr>IP_IDENT := IP_IDENT a + 1\<rparr>, b\<lparr>IP_IDENT := IP_IDENT b + 1\<rparr>, q @ [frame], lag)"
    and "\<And>n. handle_frame frame (a\<lparr>IP_IDENT := n\<rparr>) =
      (None, a\<lparr>IP_IDENT := n, IFACE := Some (i\<lparr>if_ping_replies := if_ping_replies i + 1\<rparr>)\<rparr>)"
proof -
  note L = iface_wfD [OF net_wfD [OF assms(1,3)]] iface_wfD [OF net_wfD [OF assms(2,4)]]
  let ?text = "[0x6c, 0x69, 0x67, 0x68, 0x74, 0x6f, 0x73, 0x2d, 0x70, 0x69, 0x6e, 0x67]"
  let ?frame = "ethernet_build (if_mac i) (if_mac j) ETHERTYPE_IPV4
      (ipv4_build (if_gateway i) (if_ip i) PROTO_ICMP (icmp_build TYPE_ECHO_REPLY 0x4c4f sq ?text) (IP_IDENT b))"
  have "send_ping (wire_send lag) (if_gateway i) (if_mac j) sq a (b, q, k) =
      (a\<lparr>IP_IDENT := IP_IDENT a + 1\<rparr>, b\<lparr>IP_IDENT := IP_IDENT b + 1\<rparr>, q @ [?frame], lag)"
    using L assms(3-5) by (simp add: send_ping_def wire_send_def handle_frame_def handle_ipv4_def handle_icmp_def on_link_def Let_def)
  moreover have "handle_frame ?frame (a\<lparr>IP_IDENT := n\<rparr>) =
      (None, a\<lparr>IP_IDENT := n, IFACE := Some (i\<lparr>if_ping_replies := if_ping_replies i + 1\<rparr>)\<rparr>)" for n
    using L assms(3) by (simp add: handle_frame_def handle_ipv4_def handle_icmp_def)
  ultimately show thesis by (rule that)
qed


definition new_guest :: net where
  "new_guest = guest_net\<lparr>IFACE := Some ((fresh_iface 1 OUR_IP GATEWAY_IP)\<lparr>if_gateway_mac := None\<rparr>)\<rparr>"

lemma new_guest_wf: "net_wf new_guest"
  using fresh_iface_wf [of OUR_IP GATEWAY_IP 1] guest_net_wf
  by (simp add: net_wf_def new_guest_def guest_net_def iface_wf_def arp_entries_def)


end
