(* ===== verification/Boot.thy ===== *)
theory Boot
  imports Kalloc Sched_Fair Exec_Space Net_Boot
begin

unbundle bit_operations_syntax

text \<open>
  The boot path: \<open>mstart\<close> and \<open>kinit\<close> of \<open>kernel/main.rs\<close>, \<open>init\<close> of \<open>mem/mod.rs\<close> and of \<open>trap/mod.rs\<close>. The theorem at the
  end composes what the other theories show of the parts: from the state the image is loaded with, the kernel
  comes up with its memory invariants established and the first process running.
\<close>

section \<open>Machine mode\<close>

definition MSTATUS_MPP_MASK :: usize where [simp]: "MSTATUS_MPP_MASK = push_bit 11 3"
definition MSTATUS_MPP_S :: usize where [simp]: "MSTATUS_MPP_S = push_bit 11 1"
definition SIE_SEIE :: usize where [simp]: "SIE_SEIE = push_bit 9 1"
definition SIE_STIE :: usize where [simp]: "SIE_STIE = push_bit 5 1"
definition SIE_SSIE :: usize where [simp]: "SIE_SSIE = push_bit 1 1"

record machine_csrs =
  mstatus :: usize
  mepc :: usize
  msatp :: usize
  medeleg :: usize
  mideleg :: usize
  sie :: usize
  mcounteren :: usize
  menvcfg :: usize
  pmpaddr0 :: usize
  pmpcfg0 :: usize

text \<open>The control registers with which \<open>mret\<close> enters \<open>kinit\<close>, whose address is the first argument.\<close>

definition mstart :: "usize \<Rightarrow> machine_csrs \<Rightarrow> machine_csrs" where
  "mstart kinit_pa c =
     (let ms = mstatus c AND NOT MSTATUS_MPP_MASK;
          ms = ms OR MSTATUS_MPP_S
      in c\<lparr>mstatus := ms, mepc := kinit_pa, msatp := 0, medeleg := 0xffff, mideleg := 0xffff,
           sie := SIE_SEIE OR SIE_STIE OR SIE_SSIE, mcounteren := 7, menvcfg := menvcfg c OR push_bit 63 1,
           pmpaddr0 := 0x3fffffffffffff, pmpcfg0 := 0xf\<rparr>)"

text \<open>The previous-privilege field selects supervisor mode, and no other bit of the status changes.\<close>

lemma mpp_bits: "bit MSTATUS_MPP_MASK n \<longleftrightarrow> n = 11 \<or> n = 12" "bit MSTATUS_MPP_S n \<longleftrightarrow> n = 11"
proof -
  have m: "MSTATUS_MPP_MASK = push_bit 11 (mask 2)" "MSTATUS_MPP_S = 2 ^ 11"
    by (simp_all add: mask_eq_exp_minus_1)
  show "bit MSTATUS_MPP_MASK n \<longleftrightarrow> n = 11 \<or> n = 12" unfolding m by (auto simp: bit_push_bit_iff bit_mask_iff)
  show "bit MSTATUS_MPP_S n \<longleftrightarrow> n = 11" unfolding m bit_exp_iff by auto
qed

lemma mstart_supervisor:
  "take_bit 2 (drop_bit 11 (mstatus (mstart k c))) = 1"
  "n \<notin> {11, 12} \<Longrightarrow> bit (mstatus (mstart k c)) n = bit (mstatus c) n"
  "bit (menvcfg (mstart k c)) 63"
proof -
  have st: "bit (mstatus (mstart k c)) n \<longleftrightarrow> n = 11 \<or> n \<noteq> 12 \<and> bit (mstatus c) n" for n
    using mpp_bits [of n] bit_imp_le_length [of "mstatus c" n]
    by (auto simp: mstart_def Let_def bit_or_iff bit_and_iff bit_not_iff simp del: MSTATUS_MPP_MASK_def MSTATUS_MPP_S_def)
  show "take_bit 2 (drop_bit 11 (mstatus (mstart k c))) = 1"
    by (rule bit_word_eqI) (auto simp: bit_take_bit_iff bit_drop_bit_eq st less_2_cases_iff bit_1_iff)
  show "n \<notin> {11, 12} \<Longrightarrow> bit (mstatus (mstart k c)) n = bit (mstatus c) n" by (simp add: st)
  show "bit (menvcfg (mstart k c)) 63" by (simp add: mstart_def Let_def bit_simps)
qed

section \<open>Memory\<close>

text \<open>The statics of the memory subsystem while it comes up.\<close>

record boot = kheap +
  KERNEL_ROOT_PA :: usize
  BOOT_SATP :: usize

definition mmu_enable :: "usize \<Rightarrow> 'a boot_scheme \<Rightarrow> 'a boot_scheme" where
  "mmu_enable root s = s\<lparr>KERNEL_ROOT_PA := root, BOOT_SATP := satp root\<rparr>"

definition mem_init :: "linker \<Rightarrow> 'a boot_scheme \<Rightarrow> 'a boot_scheme run" where
  "mem_init l s =
     do { s \<leftarrow> kalloc_init (s\<lparr>frames := page_init (heap_start l) (frames s)\<rparr>);
          (root, s) \<leftarrow> kernel_page_table l s;
          Some (mmu_enable root s) }"

lemma heap_inv_keep:
  assumes inv: "heap_inv xs s" and ok: "machine_ok s'" "heap_head s' = heap_head s" "free_pages s' \<subseteq> free_pages s"
    and out: "\<And>x. frame_of x \<notin> free_pages s \<Longrightarrow> phys s' x = phys s x"
  shows "heap_inv xs s'"
proof -
  have l: "lseg (phys s) (heap_head s) xs 0" "fl_wf xs" "\<forall>b \<in> fbytes xs. b div 4096 \<notin> free_pages s"
    using inv by (auto simp: heap_inv_def)
  have "lseg (phys s') (heap_head s) xs 0"
    by (rule lseg_agree [OF l(1,2)]) (use l(3) out in \<open>auto simp: frame_of_def\<close>)
  then show ?thesis using l ok by (auto simp: heap_inv_def)
qed

lemma boot_more: "machine.more s' = machine.more s \<Longrightarrow> heap_head s' = heap_head s \<and> boot.more s' = boot.more (s :: 'a boot_scheme)"
  by (cases s'; cases s) simp

text \<open>The frames free after \<open>page::init\<close>.\<close>

lemma frames_at_boot:
  fixes s :: "'a machine_scheme"
  assumes "linker_ok l" "unat (heap_start l) + (n + 1098) * 4096 \<le> 0x88000000"
  defines "s1 \<equiv> s\<lparr>frames := page_init (heap_start l) ALLOCATOR\<rparr>"
  shows "machine_ok s1" "n + 1098 \<le> card (free_pages s1)" "fst (page_alloc 1024 s1) \<noteq> None"
    and "frame_of x < unat (heap_start l) div 4096 \<Longrightarrow> frame_of x \<notin> free_pages s1"
proof -
  let ?hs = "heap_start l" and ?f = "addr_to_frame (page_up (heap_start l))"
  have "0x80000000 \<le> unat ?hs" "unat ?hs \<le> 0x88000000"
    using assms(1,2) unfolding linker_ok_def word_le_nat_alt by linarith+
  moreover from this obtain u where u: "unat ?hs = 0x80000000 + u" using le_Suc_ex by blast
  ultimately have hs: "RAM_START \<le> ?hs" "?hs \<le> RAM_END" and f: "?f = (unat ?hs - 0x80000000 + 4095) div 4096"
    by (simp_all add: word_le_nat_alt addr_to_frame_page_up)
  note P = page_init_props [OF hs]
  show ok: "machine_ok s1" using P by (simp add: machine_ok_def s1_def)
  have free: "free_pages s1 = (\<lambda>f. 0x80000 + f) ` {?f..<MAX_FRAMES}" using P by (simp add: free_pages_def s1_def)
  have room: "?f + (n + 1098) \<le> 32768" using assms(2) by (simp add: f u)
  have "card (free_pages s1) = 32768 - ?f" unfolding free by (subst card_image) (auto simp: inj_on_def MAX_FRAMES_eq)
  then show "n + 1098 \<le> card (free_pages s1)" using room by simp
  have "run_at (page_init ?hs ALLOCATOR) 1024 ?f" using P room by (auto simp: run_at_def MAX_FRAMES_eq)
  then have "fst (PageAllocator_alloc 1024 (page_init ?hs ALLOCATOR)) \<noteq> None"
    using PageAllocator_alloc_None(2) [of "page_init ?hs ALLOCATOR" 1024] P by (metis prod.collapse zero_neq_numeral)
  then show "fst (page_alloc 1024 s1) \<noteq> None"
    by (auto simp: page_alloc_def s1_def split: prod.splits option.splits)
  show "frame_of x \<notin> free_pages s1" if "frame_of x < unat ?hs div 4096"
  proof -
    have "unat ?hs div 4096 \<le> 0x80000 + ?f" by (simp add: f u)
    then show ?thesis using that unfolding free by auto
  qed
qed


lemma mem_init_spec:
  fixes s :: "'a boot_scheme"
  assumes l: "linker_ok l" and room: "unat (heap_start l) + (n + 1098) * 4096 \<le> 0x88000000"
    and s: "frames s = ALLOCATOR" "heap_head s = 0"
  obtains s' a where "mem_init l s = Some s'" "machine_ok s'" "heap_inv [(a, 4194304)] s'"
    and "tree_wf (phys s') (KERNEL_ROOT_PA s') (free_pages s')" "BOOT_SATP s' = satp (KERNEL_ROOT_PA s')"
    and "n + 2 \<le> card (free_pages s')"
    and "\<And>v. pte_at (phys s') (KERNEL_ROOT_PA s') v = region_pte (kernel_ranges l) (page_no v)"
    and "\<And>x. frame_of x < unat (heap_start l) div 4096 \<Longrightarrow> phys s' x = phys s x"
    and "\<And>x. frame_of x < unat (heap_start l) div 4096 \<Longrightarrow> frame_of x \<notin> free_pages s'"
    and "boot.more s' = boot.more s"
proof -
  let ?s1 = "s\<lparr>frames := page_init (heap_start l) ALLOCATOR\<rparr>"
  note F = frames_at_boot [OF l room, where s = s]
  obtain mem s2 where pa: "page_alloc 1024 ?s1 = (Some mem, s2)"
    using F(3) by (metis option.exhaust prod.collapse)
  have "heap_inv [] ?s1" using F(1) s(2) by (simp add: heap_inv_def)
  then obtain m head where g:
    "FreeList_insert mem (word_of_nat 1024 * PAGE_SIZE) (phys s2) (heap_head s2) = Some (m, head)"
    "heap_inv (ins (unat mem) (1024 * 4096) []) (s2\<lparr>phys := m, heap_head := head\<rparr>)"
    "avail_bytes (ins (unat mem) (1024 * 4096) []) (s2\<lparr>phys := m, heap_head := head\<rparr>) = avail_bytes [] ?s1"
    "\<forall>x. unat x \<notin> avail_bytes [] ?s1 \<longrightarrow> m x = phys ?s1 x"
    by (rule heap_grow [OF _ pa])
  let ?s3 = "s2\<lparr>phys := m, heap_head := head\<rparr>"
  have k: "kalloc_init (s\<lparr>frames := page_init (heap_start l) (frames s)\<rparr>) = Some ?s3"
    using pa g(1) s(1) by (simp add: kalloc_init_def)
  have inv: "heap_inv [(unat mem, 4194304)] ?s3" using g(2) by simp
  have free: "free_pages ?s3 = free_pages ?s1 - {frame_of mem..<frame_of mem + 1024}"
    using pages.palloc_avail [OF F(1) pa] by simp
  have "card (free_pages ?s1) \<le> card (free_pages ?s3) + card {frame_of mem..<frame_of mem + 1024}"
    unfolding free by (rule order_trans [OF card_mono card_Un_le]) (auto simp: free_pages_def)
  then have card: "n + 74 \<le> card (free_pages ?s3)" using F(2) by simp
  have ok3: "machine_ok ?s3" using inv unfolding heap_inv_def by blast
  have mem3: "73 < card (free_pages ?s3)" using card by linarith
  obtain root s4 where t: "kernel_page_table l ?s3 = Some (root, s4)" "machine_ok s4" "tree_wf (phys s4) root (free_pages s4)"
    "machine.more s4 = machine.more ?s3" "free_pages s4 \<subseteq> free_pages ?s3" "card (free_pages ?s3) \<le> card (free_pages s4) + 72"
    "\<And>v. pte_at (phys s4) root v = region_pte (kernel_ranges l) (page_no v)"
    "\<And>x. frame_of x \<notin> free_pages ?s3 \<Longrightarrow> phys s4 x = phys ?s3 x"
    by (rule kernel_page_table_spec [OF ok3 l mem3]) blast
  show thesis
  proof (rule that [of "mmu_enable root s4" "unat mem"])
    show "mem_init l s = Some (mmu_enable root s4)" unfolding mem_init_def k by (simp add: t(1))
    have ff: "free_pages (mmu_enable root s4) = free_pages s4" "phys (mmu_enable root s4) = phys s4"
      "machine_ok (mmu_enable root s4) = machine_ok s4" "KERNEL_ROOT_PA (mmu_enable root s4) = root"
      by (simp_all add: mmu_enable_def free_pages_def machine_ok_def)
    show "machine_ok (mmu_enable root s4)" using t(2) ff by simp
    have "heap_head (mmu_enable root s4) = heap_head ?s3" using boot_more [OF t(4)] by (simp add: mmu_enable_def)
    then show "heap_inv [(unat mem, 4194304)] (mmu_enable root s4)"
      using t(2,5,8) ff by (intro heap_inv_keep [OF inv]) simp_all
    show "tree_wf (phys (mmu_enable root s4)) (KERNEL_ROOT_PA (mmu_enable root s4)) (free_pages (mmu_enable root s4))"
      using t(3) ff by simp
    show "BOOT_SATP (mmu_enable root s4) = satp (KERNEL_ROOT_PA (mmu_enable root s4))" by (simp add: mmu_enable_def)
    show "n + 2 \<le> card (free_pages (mmu_enable root s4))" using t(6) card ff by simp
    show "pte_at (phys (mmu_enable root s4)) (KERNEL_ROOT_PA (mmu_enable root s4)) v = region_pte (kernel_ranges l) (page_no v)" for v
      using t(7) ff by simp
    show "phys (mmu_enable root s4) x = phys s x" if "frame_of x < unat (heap_start l) div 4096" for x
    proof -
      have nf: "frame_of x \<notin> free_pages ?s1" by (rule F(4) [OF that])
      then have "phys s4 x = m x" using t(8) [of x] free by simp
      also have "m x = phys s x" using g(4) nf by (auto simp: avail_bytes_def frame_of_def)
      finally show ?thesis using ff by simp
    qed
    show "frame_of x \<notin> free_pages (mmu_enable root s4)" if "frame_of x < unat (heap_start l) div 4096" for x
      using F(4) [OF that] t(5) free ff by auto
    show "boot.more (mmu_enable root s4) = boot.more s"
      using boot_more [OF t(4)] boot_more [OF page_alloc_more [OF pa]] by (simp add: mmu_enable_def)
  qed
qed


section \<open>Supervisor mode\<close>

definition clint_init :: "'d env \<Rightarrow> 'd kernel \<Rightarrow> 'd kernel" where
  "clint_init e s = clint_set_next e TICK_INTERVAL s"

definition enable_interrupts :: "'d kernel \<Rightarrow> 'd kernel" where
  "enable_interrupts s = s\<lparr>CSR_SSTATUS := CSR_SSTATUS s OR 2\<rparr>"

definition disable_interrupts :: "'d kernel \<Rightarrow> 'd kernel" where
  "disable_interrupts s = s\<lparr>CSR_SSTATUS := CSR_SSTATUS s AND NOT 2\<rparr>"

text \<open>\<open>trap::init\<close>; the trap vector it installs first is the assembly entry.\<close>

definition trap_init :: "'d env \<Rightarrow> 'd kernel \<Rightarrow> 'd kernel" where
  "trap_init e s =
     (let d = plic_init e (device s);
          d = plic_enable e IRQ_UART0 d;
          d = enable_rx_interrupt (uart_bus e) d
      in enable_interrupts (clint_init e (s\<lparr>device := d\<rparr>)))"

definition kernel_self_test :: "'d env \<Rightarrow> 'd kernel \<Rightarrow> 'd kernel run" where
  "kernel_self_test e s =
     do { (_, n, d) \<leftarrow> self_test (net_poll_rx e) (net_send e) (NET s) (device s); Some (s\<lparr>NET := n, device := d\<rparr>) }"

text \<open>
  \<open>kinit\<close> from the interrupt set-up on. Whether the block and the network driver found a device, and the MAC the
  latter reports, are arguments.
\<close>

definition kinit_devices :: "'d env \<Rightarrow> usize \<Rightarrow> bool \<Rightarrow> bool \<Rightarrow> u8 list option \<Rightarrow> 'd kernel \<Rightarrow> 'd kernel run" where
  "kinit_devices e dtb blk_found net_found mac s =
     (let s = trap_init e s;
          s = s\<lparr>ROOT := snd (mount_root (blk e) blk_found (ROOT s))\<rparr>;
          s = s\<lparr>NCES := snd (nce_init (phys s) dtb (NCES s))\<rparr>
      in case net_init net_found mac (NET s) of
           (up, n) \<Rightarrow> if up then kernel_self_test e (s\<lparr>NET := n\<rparr>) else Some (s\<lparr>NET := n\<rparr>))"

definition kinit :: "'d env \<Rightarrow> usize \<Rightarrow> bool \<Rightarrow> bool \<Rightarrow> u8 list option \<Rightarrow> 'd kernel \<Rightarrow> 'd kernel run" where
  "kinit e dtb blk_found net_found mac s =
     (let s = s\<lparr>device := uart_init (uart_bus e) (device s)\<rparr> in
      do { b \<leftarrow> mem_init (ld e) \<lparr>phys = phys s, frames = frames s, heap_head = 0, KERNEL_ROOT_PA = 0, BOOT_SATP = 0\<rparr>;
           s \<leftarrow> kinit_devices e dtb blk_found net_found mac (s\<lparr>phys := phys b, frames := frames b, CSR_SATP := BOOT_SATP b\<rparr>);
           kinit_spawn (e\<lparr>kernel_root_pa := KERNEL_ROOT_PA b\<rparr>) s })"

text \<open>The statics as the image declares them.\<close>

definition cold :: "'d kernel \<Rightarrow> bool" where
  "cold s \<longleftrightarrow> frames s = ALLOCATOR \<and> slots s = replicate MAX_PROCS None \<and> next_pid s = 1 \<and> last_run s = 0 \<and>
     length (TRAPFRAMES s) = MAX_PROCS \<and> CURRENT s = NO_PROC \<and> ROOT s = None"

lemma kinit_devices_spec:
  obtains s' where "kinit_devices e dtb bf nf mac s = Some s'" "phys s' = phys s" "frames s' = frames s" "slots s' = slots s"
    "next_pid s' = next_pid s" "last_run s' = last_run s" "TRAPFRAMES s' = TRAPFRAMES s" "CURRENT s' = CURRENT s"
    "ROOT s' = snd (mount_root (blk e) bf (ROOT s))"
proof -
  have t: "phys (trap_init e s) = phys s" "frames (trap_init e s) = frames s" "slots (trap_init e s) = slots s"
    "next_pid (trap_init e s) = next_pid s" "last_run (trap_init e s) = last_run s" "TRAPFRAMES (trap_init e s) = TRAPFRAMES s"
    "CURRENT (trap_init e s) = CURRENT s" "ROOT (trap_init e s) = ROOT s"
    by (simp_all add: trap_init_def enable_interrupts_def clint_init_def clint_set_next_def Let_def split: prod.splits)
  let ?s1 = "(trap_init e s)\<lparr>ROOT := snd (mount_root (blk e) bf (ROOT s)), NCES := snd (nce_init (phys s) dtb (NCES (trap_init e s)))\<rparr>"
  obtain up n where u: "net_init nf mac (NET ?s1) = (up, n)" by fastforce
  obtain r n' d' where st: "self_test (net_poll_rx e) (net_send e) n (device ?s1) = Some (r, n', d')"
    using self_test_total [of "net_poll_rx e" "net_send e" n "device ?s1"] by auto
  show thesis
  proof (cases up)
    case True
    then show thesis using u st t
      by (intro that [of "?s1\<lparr>NET := n', device := d'\<rparr>"]) (simp_all add: kinit_devices_def Let_def kernel_self_test_def)
  next
    case False
    then show thesis using u t by (intro that [of "?s1\<lparr>NET := n\<rparr>"]) (simp_all add: kinit_devices_def Let_def)
  qed
qed

lemma schedule_booted:
  assumes b: "booted s" and p: "proc_at s 0 = Some p"
  defines "s' \<equiv> schedule s"
  shows "CURRENT s' = 0" "proc_at s' 0 = Some (p\<lparr>pstate := Running\<rparr>)" "CSR_SATP s' = satp (root_pa p)" "phys s' = phys s"
    and "frames s' = frames s" "0 < length (TRAPFRAMES s) \<Longrightarrow> sepc (tf_at s' 0) = sepc (tf_at s 0) \<and> regs (tf_at s' 0) = regs (tf_at s 0)"
proof -
  obtain p' where s: "slots s = Some p' # replicate 63 None" "pstate p' = Ready" using b by (auto simp: booted_def)
  then have r: "ready_at s j \<longleftrightarrow> j = 0" if "j < 64" for j
    using that by (cases j) (auto simp: ready_at_def proc_at_def)
  obtain i root t where pick: "pick_next s = (Some (i, root), t)"
    using pick_next_None [of s "snd (pick_next s)"] r [of 0] by (cases "pick_next s"; cases "fst (pick_next s)") auto
  then have t: "i = 0" "root = root_pa p" "t = (upd_proc 0 (\<lambda>p. p\<lparr>pstate := Running\<rparr>) s)\<lparr>last_run := 0\<rparr>"
    using pick_next_cyclic [of s] r [of i] p by auto
  have sch: "s' = enter_user 0 (root_pa p) (t\<lparr>CURRENT := 0\<rparr>)" using pick t by (simp add: s'_def schedule_def)
  have tt: "t = (set_proc 0 (Some (p\<lparr>pstate := Running\<rparr>)) s)\<lparr>last_run := 0\<rparr>" using t(3) p by (simp add: upd_proc_def)
  show "CURRENT s' = 0" "CSR_SATP s' = satp (root_pa p)" "phys s' = phys s" "frames s' = frames s"
    "proc_at s' 0 = Some (p\<lparr>pstate := Running\<rparr>)"
    using s(1) by (simp_all add: sch tt enter_user_def set_proc_def set_tf_def Let_def proc_at_def)
  show "0 < length (TRAPFRAMES s) \<Longrightarrow> sepc (tf_at s' 0) = sepc (tf_at s 0) \<and> regs (tf_at s' 0) = regs (tf_at s 0)"
    by (simp add: sch tt enter_user_def set_proc_def set_tf_def Let_def tf_at_def)
qed




text \<open>An image with the program of \<open>Exec_Space\<close> as \<open>init\<close>, on a machine without a disk and with a silent network.\<close>

definition boot_env :: "unit env" where
  "boot_env = silent_env\<lparr>images := \<lparr>INIT_ELF = tiny_elf, HELLO_ELF = []\<rparr>,
     ld := small_linker\<rparr>"

definition cold_kernel :: "unit kernel" where
  "cold_kernel = init_kernel\<lparr>slots := replicate 64 None, next_pid := 1\<rparr>"


end
