(* ===== verification/Mmap.thy ===== *)
theory Mmap
  imports Exec_Space
begin

unbundle bit_operations_syntax

text \<open>
  \<open>mmap\<close> on the address space of the process that calls it: the pages it adds, and that nothing else the process or
  anyone else sees changes.
\<close>

section \<open>A space in use\<close>

text \<open>The frames of a space: those of its user pages and of the tables on the way to them.\<close>

definition space_frames :: "pmem \<Rightarrow> usize \<Rightarrow> nat set" where
  "space_frames m root =
     {f. \<exists>v. vpn v 2 = 1 \<and> (f \<in> path_frames m root v \<or>
        pte_valid (pte_at m root v) \<and> f = frame_of (pte_pa (pte_at m root v)))}"

lemma space_in_use:
  assumes "machine_ok s" "space_ok s root"
  shows "space_at (phys s) (free_pages s \<union> space_frames (phys s) root) root s (page_view (phys s) root)"
  using assms unfolding space_at_def space_ok_def
  by (auto simp: space_frames_def own_frame_def Let_def)

section \<open>The loop\<close>

definition zero_page :: "u64 \<times> u8 list" where
  "zero_page = (PTE_U OR PTE_R OR PTE_W, replicate 4096 0)"

text \<open>The view with zeroed pages at the page numbers of \<open>K\<close>.\<close>

definition with_zeros :: "nat set \<Rightarrow> (usize \<Rightarrow> (u64 \<times> u8 list) option) \<Rightarrow> usize \<Rightarrow> (u64 \<times> u8 list) option" where
  "with_zeros K E v = (if page_no v \<in> K then Some zero_page else E v)"

lemma mmap_loop_spec:
  assumes "space_at m F root s (with_zeros {k..<k + i} E)"
    and "\<And>j. i \<le> j \<Longrightarrow> j < i + n \<Longrightarrow> page_no (va + word_of_nat j * PAGE_SIZE) = k + j \<and> vpn (va + word_of_nat j * PAGE_SIZE) 2 = 1"
    and "\<And>v. vpn v 2 = 1 \<Longrightarrow> page_no v \<in> {k + i..<k + i + n} \<Longrightarrow> E v = None"
  shows "\<exists>ok s' j. mmap_loop root va i n s = Some (ok, s') \<and> i \<le> j \<and> j \<le> i + n \<and> (ok \<longleftrightarrow> j = i + n) \<and>
    space_at m F root s' (with_zeros {k..<k + j} E) \<and> (\<not> ok \<longrightarrow> free_pages s' = {}) \<and>
    card (free_pages s) \<le> card (free_pages s') + 3 * n"
  using assms
proof (induction n arbitrary: i s)
  case 0
  then show ?case by (intro exI [of _ True] exI [of _ s] exI [of _ i]) simp
next
  case (Suc n)
  let ?va = "va + word_of_nat i * PAGE_SIZE" and ?fl = "PTE_U OR PTE_R OR PTE_W"
  note inv = Suc.prems(1)
  have va: "page_no ?va = k + i" "vpn ?va 2 = 1" using Suc.prems(2) [of i] by simp_all
  have E: "with_zeros {k..<k + i} E ?va = None" using Suc.prems(3) [of ?va] va by (simp add: with_zeros_def)
  note I = space_invD [OF inv]
  obtain q s1 where pa: "page_alloc 1 s = (q, s1)" by (metis surj_pair)
  show ?case
  proof (cases q)
    case None
    then have "s1 = s" "free_pages s = {}" using page_alloc_1_None [OF I(1)] pa by auto
    then show ?thesis using None pa inv by (intro exI [of _ False] exI [of _ s] exI [of _ i]) simp
  next
    case (Some f)
    have st: "s1\<lparr>phys := store_bytes (phys s1) f []\<rparr> = s1" by (simp add: store_bytes_def)
    have un: "\<not> pte_valid (pte_at (phys s) root ?va)" using I(7) [OF va(2)] E by (simp add: page_view_None)
    obtain r s2 where m: "PageTable_map root ?va f ?fl s1 = Some (r, s2)" and ins: "installed root ?va f ?fl [] s r s2"
      by (rule install_page [OF I(1,2) un pa [unfolded Some], of "[]" ?fl]) (auto simp: st)
    have step: "space_at m F root s2 (case r of Inr _ \<Rightarrow> \<lambda>v. if same_page v ?va then Some zero_page else with_zeros {k..<k + i} E v
        | Inl _ \<Rightarrow> with_zeros {k..<k + i} E)"
      using space_inv_install [OF inv va(2) E ins]
      unfolding append_Nil list.size(3) diff_zero zero_page_def by (simp add: page_flags_def)
    have card: "card (free_pages s) \<le> card (free_pages s2) + 3" by (rule installedD(6) [OF ins])
    show ?thesis
    proof (cases r)
      case (Inl e)
      then show ?thesis using step pa Some m card installedD(11) [OF ins Inl]
        by (intro exI [of _ False] exI [of _ s2] exI [of _ i]) simp
    next
      case (Inr u)
      have "(\<lambda>v. if same_page v ?va then Some zero_page else with_zeros {k..<k + i} E v) = with_zeros {k..<k + (i + 1)} E"
        using va(1) by (auto simp: fun_eq_iff with_zeros_def same_page_no)
      then have inv2: "space_at m F root s2 (with_zeros {k..<k + (i + 1)} E)" using step Inr by simp
      obtain ok s' j where "mmap_loop root va (i + 1) n s2 = Some (ok, s')" "i + 1 \<le> j" "j \<le> i + 1 + n" "ok \<longleftrightarrow> j = i + 1 + n"
        "space_at m F root s' (with_zeros {k..<k + j} E)" "\<not> ok \<longrightarrow> free_pages s' = {}"
        "card (free_pages s2) \<le> card (free_pages s') + 3 * n"
        using Suc.IH [OF inv2] Suc.prems(2,3) by auto
      then show ?thesis using pa Some m Inr card by (intro exI [of _ ok] exI [of _ s'] exI [of _ j]) simp
    qed
  qed
qed


section \<open>The system call\<close>

lemma mmap_pages:
  assumes "page_aligned va" "0x40000000 \<le> unat va" "unat va + 4096 * n \<le> 0x80000000" "j < n"
  shows "page_no (va + word_of_nat j * PAGE_SIZE) = unat va div 4096 + j" "vpn (va + word_of_nat j * PAGE_SIZE) 2 = 1"
proof -
  have "va + word_of_nat j * PAGE_SIZE = va + word_of_nat (4096 * j)" by simp
  moreover have "unat (word_of_nat (4096 * j) :: usize) = 4096 * j"
    by (rule unat_word_of_nat_less) (use assms(3,4) in simp)
  ultimately have u: "unat (va + word_of_nat j * PAGE_SIZE) = unat va + 4096 * j"
    using assms(3,4) by (simp add: unat_word_ariths del: of_nat_mult)
  have "unat va mod 4096 = 0" using assms(1) by (simp add: page_aligned_iff)
  then show "page_no (va + word_of_nat j * PAGE_SIZE) = unat va div 4096 + j" "vpn (va + word_of_nat j * PAGE_SIZE) 2 = 1"
    using page_no_user [of "va + word_of_nat j * PAGE_SIZE"] assms(2-) unfolding u by simp_all
qed

lemma root_in_space: "frame_of root \<in> space_frames m root"
proof -
  have "vpn (user_page 0 0) 2 = 1" by (simp add: vpn_user_page)
  moreover have "frame_of root \<in> path_frames m root v" for v
    unfolding path_frames_def by (intro CollectI exI [of _ "[]"]) simp
  ultimately show ?thesis unfolding space_frames_def by blast
qed

text \<open>
  C9: \<open>mmap\<close> of a nonzero length, in a process whose next mapping address is aligned and followed by enough unmapped user
  pages. It returns. When more than three frames for each page are free it returns the address; otherwise it may return
  \<open>ENOMEM\<close> with only the first pages mapped. The pages it maps are writable user pages full of zeros, each in a frame
  of its own; every other page of the process is as before, and so is all memory other than free frames and this
  process's own. In the process table only the next mapping address of the caller changes: it advances by the
  whole length, whether or not the pages could be mapped.
\<close>

theorem mmap_extends_space:
  assumes "machine_ok s" "proc_at s (CURRENT s) = Some p" "space_ok s (root_pa p)"
    and "div_ceil_pages (tf_a1 (cur_tf s)) = n" "tf_a1 (cur_tf s) \<noteq> 0"
    and "page_aligned (next_mmap p)" "0x40000000 \<le> unat (next_mmap p)" "unat (next_mmap p) + 4096 * n \<le> unat USER_VA_END"
    and "k = unat (next_mmap p) div 4096" "\<forall>v. page_no v \<in> {k..<k + n} \<longrightarrow> page_view (phys s) (root_pa p) v = None"
  shows "\<exists>j s'. sys_mmap s = Some (SysRet (if j = n then next_mmap p else ENOMEM), s') \<and>
    j \<le> n \<and> (3 * n < card (free_pages s) \<longrightarrow> j = n) \<and> machine_ok s' \<and> space_ok s' (root_pa p) \<and>
    (\<forall>v. vpn v 2 = USER_ROOT_SLOT \<longrightarrow> page_view (phys s') (root_pa p) v =
       (if page_no v \<in> {k..<k + j} then Some (PTE_U OR PTE_R OR PTE_W, replicate 4096 0) else page_view (phys s) (root_pa p) v)) \<and>
    (\<forall>v. vpn v 2 \<noteq> USER_ROOT_SLOT \<longrightarrow> pte_at (phys s') (root_pa p) v = pte_at (phys s) (root_pa p) v) \<and>
    (\<forall>x. frame_of x \<notin> free_pages s \<union> space_frames (phys s) (root_pa p) \<longrightarrow> phys s' x = phys s x) \<and>
    proc_at s' = (proc_at s)(CURRENT s \<mapsto> p\<lparr>next_mmap := next_mmap p + word_of_nat n * PAGE_SIZE\<rparr>)"
proof -
  let ?va = "next_mmap p" and ?root = "root_pa p" and ?F = "free_pages s \<union> space_frames (phys s) (root_pa p)"
  let ?s1 = "set_proc (CURRENT s) (Some (p\<lparr>next_mmap := ?va + word_of_nat n * PAGE_SIZE\<rparr>)) s"
  have win: "unat ?va + 4096 * n \<le> 0x80000000" using assms(8) by simp
  have ok1: "machine_ok ?s1" using assms(1) by (simp add: machine_ok_def set_proc_def)
  have sp1: "space_ok ?s1 ?root" using assms(3) by simp
  have "with_zeros {k..<k + 0} (page_view (phys s) ?root) = page_view (phys s) ?root" by (simp add: with_zeros_def fun_eq_iff)
  then have start: "space_at (phys s) ?F ?root ?s1 (with_zeros {k..<k + 0} (page_view (phys s) ?root))"
    using space_in_use [OF ok1 sp1] by simp
  obtain ok s' j where l: "mmap_loop ?root ?va 0 n ?s1 = Some (ok, s')" "j \<le> n" "ok \<longleftrightarrow> j = n"
    and inv: "space_at (phys s) ?F ?root s' (with_zeros {k..<k + j} (page_view (phys s) ?root))"
    and mem: "\<not> ok \<longrightarrow> free_pages s' = {}" "card (free_pages s) \<le> card (free_pages s') + 3 * n"
    using mmap_loop_spec [OF start, of n ?va] mmap_pages [OF assms(6,7) win] assms(9,10) by auto
  note I = space_invD [OF inv]
  have call: "sys_mmap s = Some (SysRet (if j = n then ?va else ENOMEM), s')"
    using assms(2,4,5) l by (simp add: sys_mmap_def Let_def del: PAGE_SIZE_def)
  have st: "proc_at s' = proc_at ?s1" by (rule same_statics_kernel(11) [OF mmap_loop_statics [OF l(1)]])
  show ?thesis
  proof (rule exI [of _ j], rule exI [of _ s'], intro conjI allI impI)
    show "sys_mmap s = Some (SysRet (if j = n then ?va else ENOMEM), s')" "j \<le> n" by (fact call l(2))+
    show "j = n" if "3 * n < card (free_pages s)" using that mem l(3) by (cases ok) auto
    show "machine_ok s'" "space_ok s' ?root" by (rule I(1) space_ok_at [OF inv])+
    show "page_view (phys s') ?root v = (if page_no v \<in> {k..<k + j} then Some (PTE_U OR PTE_R OR PTE_W, replicate 4096 0)
        else page_view (phys s) ?root v)" if "vpn v 2 = USER_ROOT_SLOT" for v
      using I(7) [of v] that by (simp add: with_zeros_def zero_page_def)
    show "pte_at (phys s') ?root v = pte_at (phys s) ?root v" if "vpn v 2 \<noteq> USER_ROOT_SLOT" for v
      using I(6) [of v] that by simp
    show "phys s' x = phys s x" if "frame_of x \<notin> ?F" for x
    proof (rule I(4))
      show "frame_of x \<notin> insert (frame_of ?root) ?F" using that root_in_space [of ?root "phys s"] unfolding insert_iff Un_iff by metis
    qed
    show "proc_at s' = (proc_at s)(CURRENT s \<mapsto> p\<lparr>next_mmap := ?va + word_of_nat n * PAGE_SIZE\<rparr>)"
      unfolding st by (rule proc_at_set_proc [OF proc_at_Some [OF assms(2)]])
  qed
qed

text \<open>The one-page process of \<open>Fork\<close> asks for two pages.\<close>

definition mmap_kernel :: "unit kernel" where
  "mmap_kernel = set_tf 0 (TrapFrame_zeroed\<lparr>regs := (replicate 32 0)[11 := 8192]\<rparr>) fork_kernel"

theorem mmap_extends_space_witness:
  "\<exists>s'. sys_mmap mmap_kernel = Some (SysRet 0x50000000, s') \<and>
     page_view (phys s') 0x80000000 0x50001000 = Some (PTE_U OR PTE_R OR PTE_W, replicate 4096 0)"
proof -
  have a1: "tf_a1 (cur_tf mmap_kernel) = 8192"
    by (simp add: mmap_kernel_def cur_tf_def tf_at_def set_tf_def tf_a1_def fork_kernel_def init_running_def init_kernel_def)
  have p: "proc_at mmap_kernel (CURRENT mmap_kernel) = Some fork_proc"
    by (simp add: mmap_kernel_def set_tf_def proc_at_def fork_kernel_def init_running_def)
  have mem: "machine_ok mmap_kernel" "free_pages mmap_kernel = {0x80203..<0x88000}" "phys mmap_kernel = one_page_mem"
    "space_ok mmap_kernel 0x80000000"
    using fork_kernel_machine fork_kernel_space by (simp_all add: mmap_kernel_def machine_ok_def) (simp add: set_tf_def)
  have proc: "root_pa fork_proc = 0x80000000" "next_mmap fork_proc = 0x50000000"
    by (simp_all add: fork_proc_def init_proc_def)
  have new: "page_view one_page_mem 0x80000000 v = None" if "page_no v \<in> {0x50000..<0x50000 + 2}" for v
  proof -
    have "page_no v = 0x50000 \<or> page_no v = 0x50001" using that by auto
    then have "vpn v 2 = 1" "vpn v 1 \<noteq> 0" using vpn_page_no [of v] by auto
    then show ?thesis using one_page_pte_at(2) [of v] by (auto simp: page_view_None vpath_def)
  qed
  have "page_no 0x50001000 = 0x50001" "vpn 0x50001000 2 = 1" using page_no_user [of "0x50001000"] by simp_all
  then show ?thesis
    using mmap_extends_space [OF mem(1) p, where n = 2 and k = "0x50000"] mem a1 proc new
    by (force simp: div_ceil_pages_def page_aligned_def)
qed

end
