(* ===== verification/Virtio.thy ===== *)
theory Virtio
  imports Page_Alloc
begin

unbundle bit_operations_syntax

text \<open>
  \<open>kernel/drivers/virtio/mod.rs\<close>: the legacy MMIO transport and the virtqueue. The rings lie in physical
  memory, which the device shares with the driver. The device is a parameter, a record of what its registers
  answer, what a register write makes it do to itself and to memory (\<open>vwrite\<close>), and what it does to memory on
  its own between two looks of the driver at a ring (\<open>vdma\<close>). The console messages of the drivers are not
  part of the state.
\<close>

section \<open>Registers\<close>

definition MAGIC_VALUE :: usize where [simp]: "MAGIC_VALUE = 0x000"
definition VERSION :: usize where [simp]: "VERSION = 0x004"
definition DEVICE_ID :: usize where [simp]: "DEVICE_ID = 0x008"
definition HOST_FEATURES :: usize where [simp]: "HOST_FEATURES = 0x010"
definition GUEST_FEATURES :: usize where [simp]: "GUEST_FEATURES = 0x020"
definition GUEST_PAGE_SIZE :: usize where [simp]: "GUEST_PAGE_SIZE = 0x028"
definition QUEUE_SEL :: usize where [simp]: "QUEUE_SEL = 0x030"
definition QUEUE_NUM_MAX :: usize where [simp]: "QUEUE_NUM_MAX = 0x034"
definition QUEUE_NUM :: usize where [simp]: "QUEUE_NUM = 0x038"
definition QUEUE_ALIGN :: usize where [simp]: "QUEUE_ALIGN = 0x03c"
definition QUEUE_PFN :: usize where [simp]: "QUEUE_PFN = 0x040"
definition QUEUE_NOTIFY :: usize where [simp]: "QUEUE_NOTIFY = 0x050"
definition INTERRUPT_STATUS :: usize where [simp]: "INTERRUPT_STATUS = 0x060"
definition INTERRUPT_ACK :: usize where [simp]: "INTERRUPT_ACK = 0x064"
definition VSTATUS :: usize where [simp]: "VSTATUS = 0x070"
definition VCONFIG :: usize where [simp]: "VCONFIG = 0x100"
definition VIRTIO_MAGIC :: u32 where [simp]: "VIRTIO_MAGIC = 0x74726976"
definition DEVICE_ID_BLOCK :: u32 where [simp]: "DEVICE_ID_BLOCK = 2"
definition DEVICE_ID_NET :: u32 where [simp]: "DEVICE_ID_NET = 1"
definition STATUS_ACKNOWLEDGE :: u32 where [simp]: "STATUS_ACKNOWLEDGE = 1"
definition STATUS_DRIVER :: u32 where [simp]: "STATUS_DRIVER = 2"
definition STATUS_DRIVER_OK :: u32 where [simp]: "STATUS_DRIVER_OK = 4"
definition QUEUE_SIZE :: nat where [simp]: "QUEUE_SIZE = 8"
definition DESC_F_NEXT :: u16 where [simp]: "DESC_F_NEXT = 1"
definition DESC_F_WRITE :: u16 where [simp]: "DESC_F_WRITE = 2"

record 'v vbus =
  vread :: "usize \<Rightarrow> 'v \<Rightarrow> u32 \<times> 'v"
  vread8 :: "usize \<Rightarrow> 'v \<Rightarrow> u8 \<times> 'v"
  vwrite :: "usize \<Rightarrow> u32 \<Rightarrow> pmem \<times> 'v \<Rightarrow> pmem \<times> 'v"
  vdma :: "pmem \<times> 'v \<Rightarrow> pmem \<times> 'v"

record VirtQueue =
  vq_base :: usize
  vq_desc :: usize
  vq_avail :: usize
  vq_used :: usize
  last_used :: u16

record BlkDev =
  blk_queue :: VirtQueue
  blk_header :: usize
  blk_status :: usize
  capacity_sectors :: u64

record NetDev =
  nd_base :: usize
  nd_rx :: VirtQueue
  nd_tx :: VirtQueue
  nd_mac :: "u8 list"
  rx_bufs :: "usize list"
  tx_buf :: usize

record 'v virtio = machine +
  vdev :: 'v
  BLK :: "BlkDev option"
  NETDEV :: "NetDev option"

definition reg_read :: "'v vbus \<Rightarrow> usize \<Rightarrow> usize \<Rightarrow> 'v virtio \<Rightarrow> u32 \<times> 'v virtio" where
  "reg_read b base off s = (let (v, d) = vread b (base + off) (vdev s) in (v, s\<lparr>vdev := d\<rparr>))"

definition reg_write :: "'v vbus \<Rightarrow> usize \<Rightarrow> usize \<Rightarrow> u32 \<Rightarrow> 'v virtio \<Rightarrow> 'v virtio" where
  "reg_write b base off v s = (let (m, d) = vwrite b (base + off) v (phys s, vdev s) in s\<lparr>phys := m, vdev := d\<rparr>)"

text \<open>The device works on its own until the next volatile read of the driver.\<close>

definition device_runs :: "'v vbus \<Rightarrow> 'v virtio \<Rightarrow> 'v virtio" where
  "device_runs b s = (let (m, d) = vdma b (phys s, vdev s) in s\<lparr>phys := m, vdev := d\<rparr>)"

section \<open>Rings in memory\<close>

definition load16 :: "pmem \<Rightarrow> usize \<Rightarrow> u16" where "load16 m a = from_le_bytes (load_bytes m a 2)"
definition store16 :: "pmem \<Rightarrow> usize \<Rightarrow> u16 \<Rightarrow> pmem" where "store16 m a v = store_bytes m a (to_le_bytes 2 v)"

record Descriptor =
  d_addr :: u64
  d_len :: u32
  d_flags :: u16
  d_next :: u16

text \<open>The fields of \<open>repr(C)\<close> structures: sixteen bytes a descriptor; \<open>flags\<close>, \<open>idx\<close> and the ring in both rings.\<close>

definition desc_bytes :: "Descriptor \<Rightarrow> u8 list" where
  "desc_bytes d = to_le_bytes 8 (d_addr d) @ to_le_bytes 4 (d_len d) @ to_le_bytes 2 (d_flags d) @ to_le_bytes 2 (d_next d)"

definition desc_at :: "VirtQueue \<Rightarrow> nat \<Rightarrow> usize" where "desc_at q i = vq_desc q + word_of_nat (16 * i)"
definition avail_idx_at :: "VirtQueue \<Rightarrow> usize" where "avail_idx_at q = vq_avail q + 2"
definition avail_ring_at :: "VirtQueue \<Rightarrow> nat \<Rightarrow> usize" where "avail_ring_at q i = vq_avail q + word_of_nat (4 + 2 * i)"
definition used_idx_at :: "VirtQueue \<Rightarrow> usize" where "used_idx_at q = vq_used q + 2"
definition used_elem_at :: "VirtQueue \<Rightarrow> nat \<Rightarrow> usize" where "used_elem_at q i = vq_used q + word_of_nat (4 + 8 * i)"

definition store_desc :: "pmem \<Rightarrow> VirtQueue \<Rightarrow> nat \<Rightarrow> Descriptor \<Rightarrow> pmem" where
  "store_desc m q i d = store_bytes m (desc_at q i) (desc_bytes d)"

text \<open>Publishing the chain that starts at descriptor \<open>i\<close>: the ring entry, then the index.\<close>

definition publish :: "VirtQueue \<Rightarrow> u16 \<Rightarrow> pmem \<Rightarrow> pmem" where
  "publish q i m =
     (let m = store16 m (avail_ring_at q (unat (load16 m (avail_idx_at q)) mod QUEUE_SIZE)) i
      in store16 m (avail_idx_at q) (load16 m (avail_idx_at q) + 1))"

text \<open>
  The bounded wait: \<open>spins\<close> more turns of the loop are allowed before the driver gives up. The result tells
  whether the used index has moved.
\<close>

fun wait_used :: "'v vbus \<Rightarrow> VirtQueue \<Rightarrow> nat \<Rightarrow> 'v virtio \<Rightarrow> bool \<times> 'v virtio" where
  "wait_used b q spins s =
     (let s = device_runs b s in
      if load16 (phys s) (used_idx_at q) \<noteq> last_used q then (True, s)
      else (case spins of 0 \<Rightarrow> (False, s) | Suc n \<Rightarrow> wait_used b q n s))"

declare wait_used.simps [simp del]

definition ack_irq :: "'v vbus \<Rightarrow> usize \<Rightarrow> 'v virtio \<Rightarrow> 'v virtio" where
  "ack_irq b base s =
     (let (isr, s) = reg_read b base INTERRUPT_STATUS s
      in if isr \<noteq> 0 then reg_write b base INTERRUPT_ACK isr s else s)"

section \<open>Queue setup and probing\<close>

definition VirtQueue_new :: "'v vbus \<Rightarrow> usize \<Rightarrow> u32 \<Rightarrow> 'v virtio \<Rightarrow> VirtQueue option \<times> 'v virtio" where
  "VirtQueue_new b base idx s =
     (let s = reg_write b base QUEUE_SEL idx s;
          (mx, s) = reg_read b base QUEUE_NUM_MAX s
      in if mx = 0 \<or> unat mx < QUEUE_SIZE then (None, s)
         else (let s = reg_write b base QUEUE_NUM (word_of_nat QUEUE_SIZE) s;
                   s = reg_write b base QUEUE_ALIGN (ucast PAGE_SIZE) s
               in case page_alloc 2 s of
                    (None, s) \<Rightarrow> (None, s)
                  | (Some mem, s) \<Rightarrow>
                      (let s = reg_write b base QUEUE_PFN (ucast (mem div PAGE_SIZE)) s
                       in (Some \<lparr>vq_base = base, vq_desc = mem, vq_avail = mem + word_of_nat (QUEUE_SIZE * 16),
                             vq_used = mem + PAGE_SIZE, last_used = 0\<rparr>, s))))"

definition slot_base :: "nat \<Rightarrow> usize" where
  "slot_base slot = VIRTIO_BASE + word_of_nat slot * 0x1000"

definition start_block_device :: "'v vbus \<Rightarrow> usize \<Rightarrow> 'v virtio \<Rightarrow> VirtQueue option \<times> 'v virtio" where
  "start_block_device b base s =
     (let s = reg_write b base VSTATUS 0 s;
          s = reg_write b base VSTATUS STATUS_ACKNOWLEDGE s;
          s = reg_write b base VSTATUS (STATUS_ACKNOWLEDGE OR STATUS_DRIVER) s;
          (offered, s) = reg_read b base HOST_FEATURES s;
          s = reg_write b base GUEST_FEATURES 0 s;
          s = reg_write b base GUEST_PAGE_SIZE (ucast PAGE_SIZE) s
      in case VirtQueue_new b base 0 s of
           (None, s) \<Rightarrow> (None, s)
         | (Some queue, s) \<Rightarrow>
             (Some queue, reg_write b base VSTATUS (STATUS_ACKNOWLEDGE OR STATUS_DRIVER OR STATUS_DRIVER_OK) s))"

fun probe_slots :: "'v vbus \<Rightarrow> nat list \<Rightarrow> 'v virtio \<Rightarrow> VirtQueue option \<times> 'v virtio" where
  "probe_slots b [] s = (None, s)"
| "probe_slots b (slot # rest) s =
     (let base = slot_base slot;
          (magic, s) = reg_read b base MAGIC_VALUE s
      in if magic \<noteq> VIRTIO_MAGIC then probe_slots b rest s
         else (let (version, s) = reg_read b base VERSION s;
                   (ident, s) = reg_read b base DEVICE_ID s
               in if ident \<noteq> DEVICE_ID_BLOCK then probe_slots b rest s
                  else if version \<noteq> 1 then probe_slots b rest s
                  else start_block_device b base s))"

definition probe_block_device :: "'v vbus \<Rightarrow> 'v virtio \<Rightarrow> VirtQueue option \<times> 'v virtio" where
  "probe_block_device b s = probe_slots b [0..<8] s"

section \<open>Reads over writes\<close>

text \<open>Two byte ranges of memory that do not meet.\<close>

definition apart :: "usize \<Rightarrow> nat \<Rightarrow> usize \<Rightarrow> nat \<Rightarrow> bool" where
  "apart a n c k \<longleftrightarrow> (\<forall>x. \<not> (unat (x - a) < n \<and> unat (x - c) < k))"

lemma apart_sym: "apart a n c k \<Longrightarrow> apart c k a n"
  by (auto simp: apart_def)

lemma sub_range:
  assumes "unat (x - (a :: usize)) < n" and "unat (a - b) + n \<le> N"
  shows "unat (x - b) < N"
proof -
  have "unat (x - b) = unat ((x - a) + (a - b))" by simp
  also have "\<dots> \<le> unat (x - a) + unat (a - b)" unfolding unat_word_ariths by (rule mod_less_eq_dividend)
  finally show ?thesis using assms by simp
qed

lemma apart_sub:
  "apart b N c K \<Longrightarrow> unat (a - b) + n \<le> N \<Longrightarrow> unat (a' - c) + k \<le> K \<Longrightarrow> apart a n a' k"
  unfolding apart_def using sub_range by blast

lemma apart_inside:
  assumes "unat (a - b) + n \<le> unat (c - b) \<or> unat (c - b) + k \<le> unat (a - b)"
    and "unat (a - b) + n \<le> 2 ^ 64" "unat (c - b) + k \<le> 2 ^ 64"
  shows "apart a n c k"
  unfolding apart_def
proof (intro allI notI)
  fix x assume x: "unat (x - a) < n \<and> unat (x - c) < k"
  have "unat (x - b) = unat (x - d) + unat (d - b)" if "unat (x - d) + unat (d - b) < 2 ^ 64" for d :: usize
  proof -
    have "unat ((x - d) + (d - b)) = unat (x - d) + unat (d - b)" 
      unfolding unat_word_ariths using that by (intro mod_less) simp
    then show ?thesis by simp
  qed
  from this [of a] this [of c] show False using x assms by linarith
qed

lemma load_apart:
  assumes "apart a n c (length bs)" "n \<le> 2 ^ 64"
  shows "load_bytes (store_bytes m c bs) a n = load_bytes m a n"
proof (rule load_bytes_cong)
  fix i assume "i < n"
  then have "unat (word_of_nat i :: usize) = i" using assms(2) by (intro unat_word_of_nat_less) simp
  then have "\<not> unat (a + word_of_nat i - c) < length bs"
    using assms(1) \<open>i < n\<close> unfolding apart_def by (metis add_diff_cancel_left')
  then show "store_bytes m c bs (a + word_of_nat i) = m (a + word_of_nat i)" by (simp add: store_bytes_def)
qed

text \<open>The accesses of the rings, as loads and stores of byte lists, and the offsets they have in their region.\<close>

lemmas ring_defs = load16_def store16_def store_desc_def

lemma ring_offsets [simp]:
  "i < 8 \<Longrightarrow> unat (desc_at q i - vq_desc q) = 16 * i"
  "unat (avail_idx_at q - vq_avail q) = 2"
  "i < 8 \<Longrightarrow> unat (avail_ring_at q i - vq_avail q) = 4 + 2 * i"
  "unat (used_idx_at q - vq_used q) = 2"
  "i < 8 \<Longrightarrow> unat (used_elem_at q i - vq_used q) = 4 + 8 * i"
  by (simp_all add: desc_at_def avail_idx_at_def avail_ring_at_def used_idx_at_def used_elem_at_def
      unat_word_of_nat_less del: of_nat_add of_nat_mult)

lemma length_desc_bytes [simp]: "length (desc_bytes d) = 16"
  by (simp add: desc_bytes_def byte_simps)

lemma ring_last_used [simp]:
  "desc_at (q\<lparr>last_used := x\<rparr>) = desc_at q" "avail_idx_at (q\<lparr>last_used := x\<rparr>) = avail_idx_at q"
  "avail_ring_at (q\<lparr>last_used := x\<rparr>) = avail_ring_at q" "used_idx_at (q\<lparr>last_used := x\<rparr>) = used_idx_at q"
  "used_elem_at (q\<lparr>last_used := x\<rparr>) = used_elem_at q"
  by (simp_all add: fun_eq_iff desc_at_def avail_idx_at_def avail_ring_at_def used_idx_at_def used_elem_at_def)

lemma ring_inside:
  "unat (x - desc_at q i) < 16 \<Longrightarrow> i < 8 \<Longrightarrow> unat (x - vq_desc q) < 128"
  "unat (x - avail_idx_at q) < 2 \<Longrightarrow> unat (x - vq_avail q) < 22"
  "unat (x - avail_ring_at q i) < 2 \<Longrightarrow> i < 8 \<Longrightarrow> unat (x - vq_avail q) < 22"
  "unat (x - used_idx_at q) < 2 \<Longrightarrow> unat (x - vq_used q) < 70"
  "unat (x - used_elem_at q i) < 8 \<Longrightarrow> i < 8 \<Longrightarrow> unat (x - vq_used q) < 70"
  by (erule sub_range; simp)+

text \<open>How a device reads a descriptor.\<close>

definition load_desc :: "pmem \<Rightarrow> VirtQueue \<Rightarrow> nat \<Rightarrow> Descriptor" where
  "load_desc m q i =
     (let bs = load_bytes m (desc_at q i) 16
      in \<lparr>d_addr = from_le_bytes (take 8 bs), d_len = from_le_bytes (take 4 (drop 8 bs)),
          d_flags = from_le_bytes (take 2 (drop 12 bs)), d_next = from_le_bytes (drop 14 bs)\<rparr>)"

lemma load_desc_bytes: "load_bytes m (desc_at q i) 16 = desc_bytes d \<Longrightarrow> load_desc m q i = d"
  by (simp add: load_desc_def desc_bytes_def byte_simps Let_def)

lemma load16_store16 [simp]: "load16 (store16 m a v) a = v"
  by (simp add: ring_defs load_store_same byte_simps)

lemma load16_apart: "apart a 2 c (length bs) \<Longrightarrow> load16 (store_bytes m c bs) a = load16 m a"
  by (simp add: load16_def load_apart)

text \<open>Publishing touches the available ring only: the entry at the old index, and the index.\<close>

lemma publish_ring:
  "load16 (publish q i m) (avail_ring_at q (unat (load16 m (avail_idx_at q)) mod 8)) = i"
  "load16 (publish q i m) (avail_idx_at q) = load16 m (avail_idx_at q) + 1"
  by (simp_all add: publish_def Let_def store16_def load16_apart apart_inside [of _ "vq_avail q"] byte_simps)
     (simp_all add: load16_def load_store_same byte_simps)

lemma ring_entries_apart: "i < 8 \<Longrightarrow> j < 8 \<Longrightarrow> i \<noteq> j \<Longrightarrow> apart (avail_ring_at q i) 2 (avail_ring_at q j) 2"
  by (rule apart_inside [of _ "vq_avail q"]) (simp_all, linarith)

lemma publish_ring_other:
  "j < 8 \<Longrightarrow> j \<noteq> unat (load16 m (avail_idx_at q)) mod 8 \<Longrightarrow>
   load16 (publish q i m) (avail_ring_at q j) = load16 m (avail_ring_at q j)"
  by (simp add: publish_def Let_def store16_def load16_apart apart_inside [of _ "vq_avail q"] ring_entries_apart byte_simps)

lemma publish_apart:
  assumes "apart a k (vq_avail q) 22" "k \<le> 2 ^ 64"
  shows "load_bytes (publish q i m) a k = load_bytes m a k"
proof -
  have "apart a k (avail_idx_at q) 2" "apart a k (avail_ring_at q (unat (load16 m (avail_idx_at q)) mod 8)) 2"
    using assms(1) by (rule apart_sub; simp)+
  then show ?thesis using assms(2) by (simp add: publish_def Let_def store16_def load_apart byte_simps)
qed

lemma publish_outside:
  assumes "\<not> unat (x - vq_avail q) < 22"
  shows "publish q i m x = m x"
proof -
  have "\<not> unat (x - avail_idx_at q) < 2" "\<not> unat (x - avail_ring_at q (unat (load16 m (avail_idx_at q)) mod 8)) < 2"
    using assms ring_inside(2) [of x q] ring_inside(3) [of x q "unat (load16 m (avail_idx_at q)) mod 8"] by auto
  then show ?thesis by (simp add: publish_def Let_def store16_def store_bytes_def)
qed

text \<open>The wait ends at the first look that sees the used index moved, and gives up after \<open>spins + 1\<close> looks.\<close>

lemma wait_used_True:
  assumes "(vdma b ^^ Suc k) (phys s, vdev s) = (m', d')" "k \<le> spins" "load16 m' (used_idx_at q) \<noteq> last_used q"
    and "\<And>j. j < k \<Longrightarrow> load16 (fst ((vdma b ^^ Suc j) (phys s, vdev s))) (used_idx_at q) = last_used q"
  shows "wait_used b q spins s = (True, s\<lparr>phys := m', vdev := d'\<rparr>)"
  using assms
proof (induction k arbitrary: s spins)
  case 0
  then show ?case by (subst wait_used.simps) (simp add: device_runs_def)
next
  case (Suc k)
  obtain m1 d1 where d1: "vdma b (phys s, vdev s) = (m1, d1)" by fastforce
  let ?s = "s\<lparr>phys := m1, vdev := d1\<rparr>"
  obtain sp where sp: "spins = Suc sp" using Suc.prems(2) by (cases spins) auto
  have step: "(vdma b ^^ Suc j) (phys ?s, vdev ?s) = (vdma b ^^ Suc (Suc j)) (phys s, vdev s)" for j
    by (simp add: d1 funpow_swap1)
  have "wait_used b q sp ?s = (True, ?s\<lparr>phys := m', vdev := d'\<rparr>)"
    using Suc.prems(2-4) sp unfolding step
    by (intro Suc.IH) (simp_all only: step Suc.prems(1) Suc_le_mono, use Suc.prems(4) in blast)
  moreover have "load16 m1 (used_idx_at q) = last_used q" using Suc.prems(4) [of 0] by (simp add: d1)
  ultimately show ?case by (subst wait_used.simps) (simp add: device_runs_def d1 sp Let_def)
qed

lemma wait_used_False:
  assumes "\<And>j. j \<le> spins \<Longrightarrow> load16 (fst ((vdma b ^^ Suc j) (phys s, vdev s))) (used_idx_at q) = last_used q"
  shows "fst (wait_used b q spins s) = False"
  using assms
proof (induction spins arbitrary: s)
  case 0
  then show ?case by (subst wait_used.simps) (auto simp: device_runs_def split: prod.split)
next
  case (Suc n)
  obtain m1 d1 where d1: "vdma b (phys s, vdev s) = (m1, d1)" by fastforce
  have "fst (wait_used b q n (s\<lparr>phys := m1, vdev := d1\<rparr>)) = False"
    using Suc.prems [of "Suc _"] by (intro Suc.IH) (simp add: d1 funpow_swap1)
  moreover have "load16 m1 (used_idx_at q) = last_used q" using Suc.prems [of 0] by (simp add: d1)
  ultimately show ?case by (subst wait_used.simps) (simp add: device_runs_def d1 Let_def)
qed

section \<open>A device that serves its queue\<close>

text \<open>
  The documented behaviour of a device on queue \<open>q\<close>, given how it serves one chain (\<open>serve\<close>, on memory and the
  part \<open>view\<close> of its own state that matters) and how many chains it has \<open>taken\<close>: when a new chain has been published
  and queue \<open>v\<close> is notified, the device serves it before the driver has looked at the used index more than
  \<open>spins + 1\<close> times, and until then leaves that index alone. The interrupt registers have no effect on memory.
\<close>

definition queue_conforms :: "'v vbus \<Rightarrow> VirtQueue \<Rightarrow> u32 \<Rightarrow> nat \<Rightarrow> (VirtQueue \<Rightarrow> u16 \<Rightarrow> pmem \<times> 'a \<Rightarrow> pmem \<times> 'a) \<Rightarrow>
    ('v \<Rightarrow> 'a) \<Rightarrow> ('v \<Rightarrow> u16) \<Rightarrow> bool" where
  "queue_conforms b q v spins serve view taken \<longleftrightarrow>
     (\<forall>m d. load16 m (avail_idx_at q) = taken d + 1 \<longrightarrow>
        (\<exists>k \<le> spins. \<exists>m' d'. (vdma b ^^ Suc k) (vwrite b (vq_base q + QUEUE_NOTIFY) v (m, d)) = (m', d') \<and>
           serve q (taken d) (m, view d) = (m', view d') \<and> taken d' = taken d + 1 \<and>
           (\<forall>j < k. load16 (fst ((vdma b ^^ Suc j) (vwrite b (vq_base q + QUEUE_NOTIFY) v (m, d)))) (used_idx_at q) =
              load16 m (used_idx_at q)))) \<and>
     (\<forall>d v d'. vread b (vq_base q + INTERRUPT_STATUS) d = (v, d') \<longrightarrow> view d' = view d \<and> taken d' = taken d) \<and>
     (\<forall>v m d m' d'. vwrite b (vq_base q + INTERRUPT_ACK) v (m, d) = (m', d') \<longrightarrow> m' = m \<and> view d' = view d \<and> taken d' = taken d)"

lemma queue_conforms_ack:
  assumes "queue_conforms b q v spins serve view taken"
  shows "phys (ack_irq b (vq_base q) s) = phys s" "BLK (ack_irq b (vq_base q) s) = BLK s" "NETDEV (ack_irq b (vq_base q) s) = NETDEV s"
    "view (vdev (ack_irq b (vq_base q) s)) = view (vdev s)" "taken (vdev (ack_irq b (vq_base q) s)) = taken (vdev s)"
  using assms unfolding queue_conforms_def
  by (auto simp: ack_irq_def reg_read_def reg_write_def Let_def split: prod.splits)

text \<open>One round of notify and wait: the driver sees the chain served.\<close>

lemma queue_round:
  assumes conf: "queue_conforms b q v spins serve view taken"
    and m: "load16 m (avail_idx_at q) = taken (vdev s) + 1" "load16 m (used_idx_at q) = last_used q"
    and served: "serve q (taken (vdev s)) (m, view (vdev s)) = (m', a')" "load16 m' (used_idx_at q) \<noteq> last_used q"
  obtains d' where "wait_used b q spins (reg_write b (vq_base q) QUEUE_NOTIFY v (s\<lparr>phys := m\<rparr>)) = (True, s\<lparr>phys := m', vdev := d'\<rparr>)"
    "view d' = a'" "taken d' = taken (vdev s) + 1"
proof -
  let ?w = "vwrite b (vq_base q + QUEUE_NOTIFY) v (m, vdev s)"
  let ?s = "reg_write b (vq_base q) QUEUE_NOTIFY v (s\<lparr>phys := m\<rparr>)"
  obtain k md d' where k: "k \<le> spins" "(vdma b ^^ Suc k) ?w = (md, d')" "serve q (taken (vdev s)) (m, view (vdev s)) = (md, view d')"
    "taken d' = taken (vdev s) + 1" "\<And>j. j < k \<Longrightarrow> load16 (fst ((vdma b ^^ Suc j) ?w)) (used_idx_at q) = load16 m (used_idx_at q)"
    using conf [unfolded queue_conforms_def, THEN conjunct1, rule_format, OF m(1)] by blast
  have md: "md = m'" "view d' = a'" using k(3) served(1) by simp_all
  have s: "(phys ?s, vdev ?s) = ?w" "\<And>m d. ?s\<lparr>phys := m, vdev := d\<rparr> = s\<lparr>phys := m, vdev := d\<rparr>"
    by (simp_all add: reg_write_def split: prod.split)
  have "wait_used b q spins ?s = (True, s\<lparr>phys := m', vdev := d'\<rparr>)"
    unfolding s(2) [symmetric]
  proof (rule wait_used_True [OF _ k(1) served(2)])
    show "(vdma b ^^ Suc k) (phys ?s, vdev ?s) = (m', d')" using k(2) md(1) unfolding s by simp
    show "load16 (fst ((vdma b ^^ Suc j) (phys ?s, vdev ?s))) (used_idx_at q) = last_used q" if "j < k" for j
      using k(5) [OF that] m(2) unfolding s by simp
  qed
  then show thesis using md(2) k(4) by (rule that)
qed

lemma queue_conforms_last_used:
  "serve (q\<lparr>last_used := x\<rparr>) = serve q \<Longrightarrow>
   queue_conforms b (q\<lparr>last_used := x\<rparr>) v spins serve view taken = queue_conforms b q v spins serve view taken"
  by (simp add: queue_conforms_def)

end
