(* ===== verification/Virtio_Blk.thy ===== *)
theory Virtio_Blk
  imports Virtio Minix3
begin

unbundle bit_operations_syntax

text \<open>
  \<open>kernel/drivers/virtio/blk.rs\<close>: the block driver. \<open>header\<close> and \<open>status\<close>, the two fields of the static that
  the device reads and writes, lie in memory at the addresses kept in \<open>BlkDev\<close>. The caller's buffer is an
  address and a length. What a virtio block device does with a request is \<open>blk_serve\<close>, the documented
  behaviour of the device; with a device that serves each request before the driver gives up, a transfer is
  exactly a read or write of the disk.
\<close>

section \<open>The driver\<close>

definition SECTOR_SIZE :: nat where [simp]: "SECTOR_SIZE = 512"
definition REQ_TYPE_IN :: u32 where [simp]: "REQ_TYPE_IN = 0"
definition REQ_TYPE_OUT :: u32 where [simp]: "REQ_TYPE_OUT = 1"
definition BLK_SPINS :: nat where "BLK_SPINS = 1000000000"

definition header_bytes :: "u32 \<Rightarrow> u64 \<Rightarrow> u8 list" where
  "header_bytes req_type sector = to_le_bytes 4 req_type @ to_le_bytes 4 (0 :: u32) @ to_le_bytes 8 sector"

text \<open>\<open>init\<close>; the arguments \<open>header\<close> and \<open>status\<close> are where the linker has put the fields of the static.\<close>

definition blk_init :: "'v vbus \<Rightarrow> usize \<Rightarrow> usize \<Rightarrow> 'v virtio \<Rightarrow> bool \<times> 'v virtio" where
  "blk_init b header status s =
     (case probe_block_device b s of
        (None, s) \<Rightarrow> (False, s)
      | (Some queue, s) \<Rightarrow>
          (let base = vq_base queue;
               (cap_lo, s) = reg_read b base VCONFIG s;
               (cap_hi, s) = reg_read b base (VCONFIG + 4) s;
               capacity = push_bit 32 (ucast cap_hi) OR ucast cap_lo;
               m = store_bytes (store_bytes (phys s) header (header_bytes 0 0)) status [0xff]
           in (True, s\<lparr>phys := m, BLK := Some \<lparr>blk_queue = queue, blk_header = header, blk_status = status,
                 capacity_sectors = capacity\<rparr>\<rparr>)))"

definition blk_is_present :: "'v virtio \<Rightarrow> bool" where
  "blk_is_present s \<longleftrightarrow> BLK s \<noteq> None"

text \<open>The request in memory: header, status byte and the chain of three descriptors.\<close>

definition blk_request :: "BlkDev \<Rightarrow> u64 \<Rightarrow> usize \<Rightarrow> nat \<Rightarrow> bool \<Rightarrow> pmem \<Rightarrow> pmem" where
  "blk_request dev sector buf len write m =
     (let q = blk_queue dev;
          m = store_bytes m (blk_header dev) (header_bytes (if write then REQ_TYPE_OUT else REQ_TYPE_IN) sector);
          m = store_bytes m (blk_status dev) [0xff];
          m = store_desc m q 0 \<lparr>d_addr = blk_header dev, d_len = 16, d_flags = DESC_F_NEXT, d_next = 1\<rparr>;
          m = store_desc m q 1 \<lparr>d_addr = buf, d_len = word_of_nat len,
                d_flags = DESC_F_NEXT OR (if write then 0 else DESC_F_WRITE), d_next = 2\<rparr>
      in store_desc m q 2 \<lparr>d_addr = blk_status dev, d_len = 1, d_flags = DESC_F_WRITE, d_next = 0\<rparr>)"

definition transfer :: "'v vbus \<Rightarrow> u64 \<Rightarrow> usize \<Rightarrow> nat \<Rightarrow> bool \<Rightarrow> 'v virtio \<Rightarrow> unit result \<times> 'v virtio" where
  "transfer b sector buf len write s =
     (case BLK s of
        None \<Rightarrow> (Inl ''virtio-blk: not initialized'', s)
      | Some dev \<Rightarrow>
          (let sectors = word_of_nat (len div SECTOR_SIZE) in
           if sector + sectors > capacity_sectors dev then (Inl ''virtio-blk: transfer beyond device capacity'', s)
           else
             (let q = blk_queue dev;
                  s = s\<lparr>phys := publish q 0 (blk_request dev sector buf len write (phys s))\<rparr>;
                  s = reg_write b (vq_base q) QUEUE_NOTIFY 0 s;
                  (completed, s) = wait_used b q BLK_SPINS s
              in if \<not> completed then (Inl ''virtio-blk: request timed out'', s)
                 else (let s = s\<lparr>BLK := Some (dev\<lparr>blk_queue := q\<lparr>last_used := last_used q + 1\<rparr>\<rparr>)\<rparr>;
                           s = ack_irq b (vq_base q) s
                       in if phys s (blk_status dev) = 0 then (Inr (), s)
                          else (Inl ''virtio-blk: device reported I/O error'', s)))))"

definition read_sectors :: "'v vbus \<Rightarrow> u64 \<Rightarrow> usize \<Rightarrow> nat \<Rightarrow> 'v virtio \<Rightarrow> unit result \<times> 'v virtio" where
  "read_sectors b sector buf len s = transfer b sector buf len False s"

definition write_sectors :: "'v vbus \<Rightarrow> u64 \<Rightarrow> usize \<Rightarrow> nat \<Rightarrow> 'v virtio \<Rightarrow> unit result \<times> 'v virtio" where
  "write_sectors b sector buf len s = transfer b sector buf len True s"

section \<open>What the device does\<close>

text \<open>
  A block device serves the chain at its position \<open>taken\<close> of the available ring: it reads the header through
  the first descriptor, moves the data of the second, stores the status through the third, fills the used
  ring and then moves its index. A request it cannot serve gets status 1.
\<close>

definition blk_serve :: "VirtQueue \<Rightarrow> u16 \<Rightarrow> pmem \<times> u8 list \<Rightarrow> pmem \<times> u8 list" where
  "blk_serve q taken md =
     (let (m, disk) = md;
          head = load16 m (avail_ring_at q (unat taken mod QUEUE_SIZE));
          d0 = load_desc m q (unat head);
          d1 = load_desc m q (unat (d_next d0));
          d2 = load_desc m q (unat (d_next d1));
          hdr = load_bytes m (d_addr d0) 16;
          ty = from_le_bytes (take 4 hdr) :: u32;
          off = unat (from_le_bytes (drop 8 hdr) :: u64) * SECTOR_SIZE;
          n = unat (d_len d1);
          ok = off + n \<le> length disk \<and> (ty = REQ_TYPE_IN \<and> bit (d_flags d1) 1 \<or> ty = REQ_TYPE_OUT);
          m' = (if ok \<and> ty = REQ_TYPE_IN then store_bytes m (d_addr d1) (take n (drop off disk)) else m);
          disk' = (if ok \<and> ty = REQ_TYPE_OUT then take off disk @ load_bytes m (d_addr d1) n @ drop (off + n) disk else disk);
          m' = store_bytes m' (d_addr d2) [if ok then 0 else 1];
          m' = store_bytes m' (used_elem_at q (unat taken mod QUEUE_SIZE)) (to_le_bytes 4 (ucast head :: u32) @ to_le_bytes 4 (d_len d1))
      in (store16 m' (used_idx_at q) (taken + 1), disk'))"

abbreviation blk_conforms :: "'v vbus \<Rightarrow> VirtQueue \<Rightarrow> ('v \<Rightarrow> u8 list) \<Rightarrow> ('v \<Rightarrow> u16) \<Rightarrow> bool" where
  "blk_conforms b q disk taken \<equiv> queue_conforms b q 0 BLK_SPINS blk_serve disk taken"

section \<open>The abstract disk\<close>

text \<open>A transfer of \<open>data\<close>: the result, the buffer afterwards and the disk afterwards.\<close>

definition disk_transfer :: "u64 \<Rightarrow> bool \<Rightarrow> u8 list \<Rightarrow> u8 list \<Rightarrow> unit result \<times> u8 list \<times> u8 list" where
  "disk_transfer sector write data disk =
     (let off = unat sector * SECTOR_SIZE in
      if off + length data > length disk then (Inl ''virtio-blk: transfer beyond device capacity'', data, disk)
      else if write then (Inr (), data, take off disk @ data @ drop (off + length data) disk)
      else (Inr (), take (length data) (drop off disk), disk))"

text \<open>Where the driver's memory lies: the two rings, the descriptors, the header, the status byte and a buffer.\<close>

definition blk_memory :: "BlkDev \<Rightarrow> usize \<Rightarrow> nat \<Rightarrow> bool" where
  "blk_memory dev buf n \<longleftrightarrow>
     (let q = blk_queue dev; D = vq_desc q; A = vq_avail q; U = vq_used q; H = blk_header dev; S = blk_status dev in
      apart D 128 A 22 \<and> apart D 128 U 70 \<and> apart D 128 H 16 \<and> apart D 128 S 1 \<and> apart D 128 buf n \<and>
      apart A 22 U 70 \<and> apart A 22 H 16 \<and> apart A 22 S 1 \<and> apart A 22 buf n \<and>
      apart U 70 H 16 \<and> apart U 70 S 1 \<and> apart U 70 buf n \<and>
      apart H 16 S 1 \<and> apart H 16 buf n \<and> apart S 1 buf n)"

definition blk_bytes :: "BlkDev \<Rightarrow> usize \<Rightarrow> nat \<Rightarrow> usize set" where
  "blk_bytes dev buf n =
     (let q = blk_queue dev in
      {x. unat (x - vq_desc q) < 128 \<or> unat (x - vq_avail q) < 22 \<or> unat (x - vq_used q) < 70 \<or>
          unat (x - blk_header dev) < 16 \<or> x = blk_status dev \<or> unat (x - buf) < n})"

text \<open>Between requests the indices of driver, rings and device agree, and the capacity is the disk's.\<close>

definition blk_idle :: "('v \<Rightarrow> u8 list) \<Rightarrow> ('v \<Rightarrow> u16) \<Rightarrow> 'v virtio \<Rightarrow> BlkDev \<Rightarrow> bool" where
  "blk_idle disk taken s dev \<longleftrightarrow>
     BLK s = Some dev \<and> taken (vdev s) = last_used (blk_queue dev) \<and>
     load16 (phys s) (used_idx_at (blk_queue dev)) = last_used (blk_queue dev) \<and>
     load16 (phys s) (avail_idx_at (blk_queue dev)) = last_used (blk_queue dev) \<and>
     length (disk (vdev s)) = unat (capacity_sectors dev) * SECTOR_SIZE"

section \<open>The request as the device sees it\<close>

lemma blk_memoryD:
  assumes "blk_memory dev buf n"
  shows "apart (vq_desc (blk_queue dev)) 128 (vq_avail (blk_queue dev)) 22" "apart (vq_desc (blk_queue dev)) 128 (vq_used (blk_queue dev)) 70"
    "apart (vq_desc (blk_queue dev)) 128 (blk_header dev) 16" "apart (vq_desc (blk_queue dev)) 128 (blk_status dev) 1"
    "apart (vq_desc (blk_queue dev)) 128 buf n" "apart (vq_avail (blk_queue dev)) 22 (vq_used (blk_queue dev)) 70"
    "apart (vq_avail (blk_queue dev)) 22 (blk_header dev) 16" "apart (vq_avail (blk_queue dev)) 22 (blk_status dev) 1"
    "apart (vq_avail (blk_queue dev)) 22 buf n" "apart (vq_used (blk_queue dev)) 70 (blk_header dev) 16"
    "apart (vq_used (blk_queue dev)) 70 (blk_status dev) 1" "apart (vq_used (blk_queue dev)) 70 buf n"
    "apart (blk_header dev) 16 (blk_status dev) 1" "apart (blk_header dev) 16 buf n" "apart (blk_status dev) 1 buf n"
  using assms by (simp_all add: blk_memory_def Let_def)

lemmas blk_far = blk_memoryD [THEN apart_sub] blk_memoryD [THEN apart_sym, THEN apart_sub]
lemmas blk_near = apart_inside [of _ "vq_desc (blk_queue dev)" for dev] apart_inside [of _ "vq_avail (blk_queue dev)" for dev]
  apart_inside [of _ "vq_used (blk_queue dev)" for dev]

lemma length_header_bytes [simp]: "length (header_bytes ty sector) = 16"
  by (simp add: header_bytes_def byte_simps)

lemma header_fields:
  "from_le_bytes (take 4 (header_bytes ty sector)) = ty" "from_le_bytes (drop 8 (header_bytes ty sector)) = sector"
  by (simp_all add: header_bytes_def byte_simps)

lemma blk_request_memory:
  fixes dev :: BlkDev and buf sector n wr m
  assumes sep: "blk_memory dev buf n" and n: "n \<le> 2 ^ 64"
  defines "q \<equiv> blk_queue dev" and "m' \<equiv> publish (blk_queue dev) 0 (blk_request dev sector buf n wr m)"
  shows "load16 m' (avail_ring_at q (unat (load16 m (avail_idx_at q)) mod 8)) = 0"
    and "load16 m' (avail_idx_at q) = load16 m (avail_idx_at q) + 1"
    and "load_desc m' q 0 = \<lparr>d_addr = blk_header dev, d_len = 16, d_flags = 1, d_next = 1\<rparr>"
    and "load_desc m' q 1 = \<lparr>d_addr = buf, d_len = word_of_nat n, d_flags = if wr then 1 else 3, d_next = 2\<rparr>"
    and "load_desc m' q 2 = \<lparr>d_addr = blk_status dev, d_len = 1, d_flags = 2, d_next = 0\<rparr>"
    and "load_bytes m' (blk_header dev) 16 = header_bytes (if wr then 1 else 0) sector"
    and "load_bytes m' buf n = load_bytes m buf n"
    and "load16 m' (used_idx_at q) = load16 m (used_idx_at q)"
proof -
  note far = blk_far [OF sep] and near = blk_near [where dev = dev]
  note rw = load_apart far near load_store_same byte_simps
  let ?m = "blk_request dev sector buf n wr m"
  have idx: "load16 ?m (avail_idx_at q) = load16 m (avail_idx_at q)"
    by (simp add: blk_request_def Let_def ring_defs rw q_def)
  show "load16 m' (avail_ring_at q (unat (load16 m (avail_idx_at q)) mod 8)) = 0"
    "load16 m' (avail_idx_at q) = load16 m (avail_idx_at q) + 1"
    using publish_ring [of q 0 ?m] idx by (simp_all add: m'_def q_def)
  have m': "load_bytes m' a k = load_bytes ?m a k" if "apart a k (vq_avail (blk_queue dev)) 22" "k \<le> 2 ^ 64" for a k
    using that by (simp add: m'_def publish_apart)
  note body = blk_request_def Let_def store_desc_def rw
  show "load_desc m' q 0 = \<lparr>d_addr = blk_header dev, d_len = 16, d_flags = 1, d_next = 1\<rparr>"
    "load_desc m' q 1 = \<lparr>d_addr = buf, d_len = word_of_nat n, d_flags = if wr then 1 else 3, d_next = 2\<rparr>"
    "load_desc m' q 2 = \<lparr>d_addr = blk_status dev, d_len = 1, d_flags = 2, d_next = 0\<rparr>"
    by (rule load_desc_bytes, subst m', simp add: q_def far, simp, simp add: body q_def)+
  show "load_bytes m' (blk_header dev) 16 = header_bytes (if wr then 1 else 0) sector"
    by (subst m') (simp_all add: far body)
  show "load_bytes m' buf n = load_bytes m buf n"
    using n by (subst m') (simp_all add: far body)
  show "load16 m' (used_idx_at q) = load16 m (used_idx_at q)"
    unfolding load16_def by (subst m') (simp_all add: far body q_def)
qed

lemma blk_request_outside:
  assumes "x \<notin> blk_bytes dev buf n"
  shows "publish (blk_queue dev) 0 (blk_request dev sector buf n wr m) x = m x"
proof -
  have "\<not> unat (x - desc_at (blk_queue dev) i) < 16" if "i < 8" for i
    using assms that ring_inside(1) [of x "blk_queue dev" i] by (auto simp: blk_bytes_def Let_def)
  then show ?thesis using assms
    by (simp add: publish_outside blk_request_def Let_def store_desc_def store_bytes_def blk_bytes_def unsigned_eq_0_iff)
qed

text \<open>What the device leaves behind when it has served the request.\<close>

lemma blk_serve_request:
  fixes dev :: BlkDev and buf sector n wr m disk
  assumes sep: "blk_memory dev buf n" and n: "n < 2 ^ 32" and t: "load16 m (avail_idx_at (blk_queue dev)) = t"
    and cap: "unat sector * 512 + n \<le> length disk"
  defines "m' \<equiv> publish (blk_queue dev) 0 (blk_request dev sector buf n wr m)"
  obtains m'' where
    "blk_serve (blk_queue dev) t (m', disk) = (m'', if wr then take (unat sector * 512) disk @ load_bytes m buf n @ drop (unat sector * 512 + n) disk else disk)"
    "load_bytes m'' buf n = (if wr then load_bytes m buf n else take n (drop (unat sector * 512) disk))"
    "m'' (blk_status dev) = 0" "load16 m'' (used_idx_at (blk_queue dev)) = t + 1" "load16 m'' (avail_idx_at (blk_queue dev)) = t + 1"
    "\<And>x. x \<notin> blk_bytes dev buf n \<Longrightarrow> m'' x = m x"
proof -
  have n64: "n \<le> 2 ^ 64" and un: "unat (word_of_nat n :: u32) = n" using n by (simp_all add: unat_of_nat)
  note R = blk_request_memory [OF sep n64, where m = m and sector = sector and wr = wr, folded m'_def, unfolded t]
  define data where "data = (if wr then load_bytes m buf n else take n (drop (unat sector * 512) disk))"
  define md where "md = (if wr then m' else store_bytes m' buf data)"
  define ms where "ms = store_bytes md (blk_status dev) [0]"
  define mu where "mu = store_bytes ms (used_elem_at (blk_queue dev) (unat t mod 8)) (to_le_bytes 4 (0 :: u32) @ to_le_bytes 4 (word_of_nat n :: u32))"
  let ?m = "store16 mu (used_idx_at (blk_queue dev)) (t + 1)"
  have len: "length data = n" using cap by (simp add: data_def)
  note rw = load_apart load_store_same blk_far [OF sep] blk_near [where dev = dev] byte_simps
  show thesis
  proof (rule that [of ?m])
    show "blk_serve (blk_queue dev) t (m', disk) = (?m, if wr then take (unat sector * 512) disk @ load_bytes m buf n @ drop (unat sector * 512 + n) disk else disk)"
      using R cap by (simp add: blk_serve_def Let_def header_fields un mu_def ms_def md_def data_def bit_numeral_rec)
    show "load_bytes ?m buf n = (if wr then load_bytes m buf n else take n (drop (unat sector * 512) disk))"
      using R(7) len n by (simp add: store16_def mu_def ms_def md_def rw) (simp add: data_def)
    have "load_bytes ?m (blk_status dev) 1 = [0]" by (simp add: store16_def mu_def ms_def rw)
    then show "?m (blk_status dev) = 0" by (simp add: load_bytes_def)
    show "load16 ?m (used_idx_at (blk_queue dev)) = t + 1" by simp
    show "load16 ?m (avail_idx_at (blk_queue dev)) = t + 1"
      using R(2) len n unfolding load16_def store16_def by (simp add: mu_def ms_def md_def rw)
    fix x assume "x \<notin> blk_bytes dev buf n"
    then have out: "\<not> unat (x - used_idx_at (blk_queue dev)) < 2" "\<not> unat (x - used_elem_at (blk_queue dev) (unat t mod 8)) < 8"
      "x \<noteq> blk_status dev" "\<not> unat (x - buf) < n"
      using ring_inside(4) [of x "blk_queue dev"] ring_inside(5) [of x "blk_queue dev" "unat t mod 8"] by (auto simp: blk_bytes_def Let_def)
    have "m' x = m x" unfolding m'_def using \<open>x \<notin> blk_bytes dev buf n\<close> by (rule blk_request_outside)
    then show "?m x = m x"
      using out len by (simp add: store16_def mu_def ms_def md_def store_bytes_def unsigned_eq_0_iff byte_simps)
  qed
qed

section \<open>Transfers are disk reads and writes\<close>

lemma blk_serve_last_used [simp]: "blk_serve (q\<lparr>last_used := x\<rparr>) = blk_serve q"
proof -
  have "load_desc m (q\<lparr>last_used := x\<rparr>) = load_desc m q" for m by (simp add: fun_eq_iff load_desc_def)
  then show ?thesis unfolding blk_serve_def fun_eq_iff ring_last_used by presburger
qed

lemma blk_transfer_done:
  assumes conf: "blk_conforms b (blk_queue dev) disk taken" and idle: "blk_idle disk taken s dev"
    and sep: "blk_memory dev buf n" and n: "n < 2 ^ 32" and cap: "unat sector * 512 + n \<le> length (disk (vdev s))"
    and pass: "\<not> sector + word_of_nat (n div 512) > capacity_sectors dev"
  obtains s' dev' where "transfer b sector buf n wr s = (Inr (), s')" "blk_idle disk taken s' dev'"
    "dev' = dev\<lparr>blk_queue := (blk_queue dev)\<lparr>last_used := last_used (blk_queue dev')\<rparr>\<rparr>"
    "disk_transfer sector wr (load_bytes (phys s) buf n) (disk (vdev s)) = (Inr (), load_bytes (phys s') buf n, disk (vdev s'))"
    "\<And>x. x \<notin> blk_bytes dev buf n \<Longrightarrow> phys s' x = phys s x"
proof -
  let ?q = "blk_queue dev" and ?t = "last_used (blk_queue dev)"
  define m' where "m' = publish ?q 0 (blk_request dev sector buf n wr (phys s))"
  note I = idle [unfolded blk_idle_def]
  have avail: "load16 (phys s) (avail_idx_at ?q) = ?t" and taken: "taken (vdev s) = ?t" using I by auto
  have R: "load16 m' (avail_idx_at ?q) = ?t + 1" "load16 m' (used_idx_at ?q) = ?t"
    using blk_request_memory(2,8) [OF sep, where m = "phys s" and sector = sector and wr = wr] n I by (simp_all add: m'_def)
  obtain m'' where m'': "blk_serve ?q ?t (m', disk (vdev s)) = (m'', if wr then take (unat sector * 512) (disk (vdev s)) @
        load_bytes (phys s) buf n @ drop (unat sector * 512 + n) (disk (vdev s)) else disk (vdev s))"
    "load_bytes m'' buf n = (if wr then load_bytes (phys s) buf n else take n (drop (unat sector * 512) (disk (vdev s))))"
    "m'' (blk_status dev) = 0" "load16 m'' (used_idx_at ?q) = ?t + 1" "load16 m'' (avail_idx_at ?q) = ?t + 1"
    "\<And>x. x \<notin> blk_bytes dev buf n \<Longrightarrow> m'' x = phys s x"
    by (rule blk_serve_request [OF sep n avail cap, of wr]) (auto simp: m'_def)
  obtain d' where wait: "wait_used b ?q BLK_SPINS (reg_write b (vq_base ?q) QUEUE_NOTIFY 0 (s\<lparr>phys := m'\<rparr>)) = (True, s\<lparr>phys := m'', vdev := d'\<rparr>)"
    and d': "disk d' = (if wr then take (unat sector * 512) (disk (vdev s)) @ load_bytes (phys s) buf n @ drop (unat sector * 512 + n) (disk (vdev s)) else disk (vdev s))"
      "taken d' = taken (vdev s) + 1"
    by (rule queue_round [OF conf, of m' s]) (use R m''(1,4) taken in auto)
  let ?dev = "dev\<lparr>blk_queue := ?q\<lparr>last_used := ?t + 1\<rparr>\<rparr>"
  let ?s' = "ack_irq b (vq_base ?q) (s\<lparr>phys := m'', vdev := d', BLK := Some ?dev\<rparr>)"
  note A = queue_conforms_ack [OF conf]
  have "transfer b sector buf n wr s = (Inr (), ?s')"
    using I pass wait [unfolded m'_def] m''(3) A by (simp add: transfer_def Let_def)
  moreover have "blk_idle disk taken ?s' ?dev"
    using A d' m''(4,5) I cap taken by (simp add: blk_idle_def)
  moreover have "disk_transfer sector wr (load_bytes (phys s) buf n) (disk (vdev s)) = (Inr (), load_bytes (phys ?s') buf n, disk (vdev ?s'))"
    using cap m''(2) d'(1) A by (simp add: disk_transfer_def Let_def)
  moreover have "phys ?s' x = phys s x" if "x \<notin> blk_bytes dev buf n" for x using m''(6) [OF that] A by simp
  ultimately show thesis by (intro that [of ?s' ?dev]) simp_all
qed

lemma capacity_test:
  assumes "n mod 512 = 0" "unat sector + n div 512 < 2 ^ 64"
  shows "sector + word_of_nat (n div 512) > cap \<longleftrightarrow> unat sector * 512 + n > unat (cap :: u64) * 512"
proof -
  obtain k where k: "n = 512 * k" using assms(1) by auto
  then have "unat (sector + word_of_nat k) = unat sector + k" using assms(2) by (intro unat_add_no_wrap) simp
  then show ?thesis by (auto simp: word_less_nat_alt k)
qed


text \<open>
  A device that does not answer: the driver gives up, but the chain stays published and \<open>last_used\<close> stays where
  it was, so that a completion that comes late is taken for that of the next request.
\<close>

lemma wait_used_BLK: "BLK (snd (wait_used b q spins s)) = BLK s"
proof (induction spins arbitrary: s)
  case 0
  then show ?case by (subst wait_used.simps) (auto simp: device_runs_def Let_def split: prod.split)
next
  case (Suc n)
  then show ?case by (subst wait_used.simps) (auto simp: device_runs_def Let_def split: prod.split)
qed

lemma blk_timeout:
  assumes "BLK s = Some dev" "\<not> sector + word_of_nat (n div 512) > capacity_sectors dev"
    and "w = vwrite b (vq_base (blk_queue dev) + QUEUE_NOTIFY) 0
      (publish (blk_queue dev) 0 (blk_request dev sector buf n wr (phys s)), vdev s)"
    and "\<And>j. j \<le> BLK_SPINS \<Longrightarrow> load16 (fst ((vdma b ^^ Suc j) w)) (used_idx_at (blk_queue dev)) = last_used (blk_queue dev)"
  shows "fst (transfer b sector buf n wr s) = Inl ''virtio-blk: request timed out''"
    and "BLK (snd (transfer b sector buf n wr s)) = Some dev"
proof -
  let ?q = "blk_queue dev"
  let ?s = "reg_write b (vq_base ?q) QUEUE_NOTIFY 0 (s\<lparr>phys := publish ?q 0 (blk_request dev sector buf n wr (phys s))\<rparr>)"
  have s: "(phys ?s, vdev ?s) = w" "BLK ?s = BLK s" by (simp_all add: reg_write_def assms(3) split: prod.split)
  have "fst (wait_used b ?q BLK_SPINS ?s) = False"
    by (rule wait_used_False) (unfold s, rule assms(4))
  then show "fst (transfer b sector buf n wr s) = Inl ''virtio-blk: request timed out''"
    and "BLK (snd (transfer b sector buf n wr s)) = Some dev"
    using assms(1,2) wait_used_BLK [of b ?q BLK_SPINS ?s] s(2) by (auto simp: transfer_def Let_def split: prod.splits)
qed

section \<open>A device that serves at once\<close>

definition prompt_bus :: "VirtQueue \<Rightarrow> (u8 list \<times> u16) vbus" where
  "prompt_bus q = \<lparr>vread = \<lambda>a d. (0, d), vread8 = \<lambda>a d. (0, d),
     vwrite = \<lambda>a v (m, (disk, taken)). if a = vq_base q + QUEUE_NOTIFY
       then (let (m', disk') = blk_serve q taken (m, disk) in (m', (disk', taken + 1))) else (m, (disk, taken)),
     vdma = id\<rparr>"

lemma prompt_conforms: "blk_conforms (prompt_bus q) q fst snd"
  unfolding queue_conforms_def
proof (intro conjI allI impI, goal_cases)
  case (1 m d)
  show ?case
    by (rule exI [of _ 0]) (auto simp: prompt_bus_def split: prod.splits)
qed (auto simp: prompt_bus_def split: prod.splits if_splits)

definition demo_dev :: BlkDev where
  "demo_dev = \<lparr>blk_queue = \<lparr>vq_base = 0x10001000, vq_desc = 0x80200000, vq_avail = 0x80200080, vq_used = 0x80201000, last_used = 0\<rparr>,
     blk_header = 0x80100000, blk_status = 0x80100010, capacity_sectors = 2\<rparr>"

definition demo_virtio :: "(u8 list \<times> u16) virtio" where
  "demo_virtio = \<lparr>phys = \<lambda>_. 0, frames = ALLOCATOR, vdev = (replicate 512 1 @ replicate 512 2, 0), BLK = Some demo_dev, NETDEV = None\<rparr>"

lemma demo_idle: "blk_idle fst snd demo_virtio demo_dev"
proof -
  have "load_bytes (\<lambda>_. 0) a 2 = [0, 0]" for a by (simp add: load_bytes_def numeral_2_eq_2)
  then show ?thesis by (simp add: blk_idle_def demo_virtio_def demo_dev_def load16_def)
qed

lemma demo_memory: "blk_memory demo_dev 0x80300000 512"
  by (simp add: blk_memory_def demo_dev_def Let_def apart_inside [of _ "0x80000000"])


end
