(* ===== verification/Virtio_Net.thy ===== *)
theory Virtio_Net
  imports Virtio "HOL-Library.Multiset"
begin

unbundle bit_operations_syntax

text \<open>
  \<open>kernel/drivers/virtio/net.rs\<close>: the network driver, one queue to receive and one to send. The closure that
  \<open>poll_rx\<close> calls on each frame is modelled by the list of the frames, in the order of the calls. The lemmas show
  that a sent frame goes out as it is, that polling hands over every received frame in order, and that no
  receive buffer is lost.
\<close>

section \<open>The driver\<close>

definition NET_HDR_LEN :: nat where [simp]: "NET_HDR_LEN = 10"
definition BUF_SIZE :: nat where [simp]: "BUF_SIZE = 2048"
definition F_MAC :: u32 where [simp]: "F_MAC = 0x20"
definition RXQ :: u32 where [simp]: "RXQ = 0"
definition TXQ :: u32 where [simp]: "TXQ = 1"
definition TX_SPINS :: nat where "TX_SPINS = 100000000"

fun net_probe_slots :: "'v vbus \<Rightarrow> nat list \<Rightarrow> 'v virtio \<Rightarrow> usize option \<times> 'v virtio" where
  "net_probe_slots b [] s = (None, s)"
| "net_probe_slots b (slot # rest) s =
     (let base = slot_base slot;
          (magic, s) = reg_read b base MAGIC_VALUE s
      in if magic \<noteq> VIRTIO_MAGIC then net_probe_slots b rest s
         else (let (version, s) = reg_read b base VERSION s
               in if version \<noteq> 1 then net_probe_slots b rest s
                  else (let (ident, s) = reg_read b base DEVICE_ID s
                        in if ident = DEVICE_ID_NET then (Some base, s) else net_probe_slots b rest s)))"

definition net_probe :: "'v vbus \<Rightarrow> 'v virtio \<Rightarrow> usize option \<times> 'v virtio" where
  "net_probe b s = net_probe_slots b [0..<8] s"

text \<open>The six byte-wide reads of the MAC address.\<close>

fun read_mac :: "'v vbus \<Rightarrow> usize \<Rightarrow> nat list \<Rightarrow> 'v virtio \<Rightarrow> u8 list \<times> 'v virtio" where
  "read_mac b base [] s = ([], s)"
| "read_mac b base (i # is) s =
     (let (x, d) = vread8 b (base + VCONFIG + word_of_nat i) (vdev s);
          (xs, s) = read_mac b base is (s\<lparr>vdev := d\<rparr>)
      in (x # xs, s))"

text \<open>Posting every receive buffer: descriptor and ring entry \<open>i\<close> for each \<open>i\<close>, then the index.\<close>

fun post_buffers :: "VirtQueue \<Rightarrow> usize list \<Rightarrow> nat list \<Rightarrow> pmem \<Rightarrow> pmem" where
  "post_buffers q bufs [] m = m"
| "post_buffers q bufs (i # is) m =
     (let m = store_desc m q i \<lparr>d_addr = bufs ! i, d_len = word_of_nat BUF_SIZE, d_flags = DESC_F_WRITE, d_next = 0\<rparr>
      in post_buffers q bufs is (store16 m (avail_ring_at q i) (word_of_nat i)))"

definition net_driver_init :: "'v vbus \<Rightarrow> 'v virtio \<Rightarrow> bool \<times> 'v virtio" where
  "net_driver_init b s =
     (case net_probe b s of
        (None, s) \<Rightarrow> (False, s)
      | (Some base, s) \<Rightarrow>
          (let s = reg_write b base VSTATUS 0 s;
               s = reg_write b base VSTATUS STATUS_ACKNOWLEDGE s;
               s = reg_write b base VSTATUS (STATUS_ACKNOWLEDGE OR STATUS_DRIVER) s;
               (offered, s) = reg_read b base HOST_FEATURES s;
               s = reg_write b base GUEST_FEATURES (offered AND F_MAC) s;
               s = reg_write b base GUEST_PAGE_SIZE (ucast PAGE_SIZE) s;
               (mac, s) = read_mac b base [0..<6] s
           in case VirtQueue_new b base RXQ s of
                (None, s) \<Rightarrow> (False, s)
              | (Some rx, s) \<Rightarrow>
                  (case VirtQueue_new b base TXQ s of
                     (None, s) \<Rightarrow> (False, s)
                   | (Some tx, s) \<Rightarrow>
                       (case page_alloc (QUEUE_SIZE * BUF_SIZE div unat PAGE_SIZE) s of
                          (None, s) \<Rightarrow> (False, s)
                        | (Some rx_mem, s) \<Rightarrow>
                            (case page_alloc 1 s of
                               (None, s) \<Rightarrow> (False, s)
                             | (Some txb, s) \<Rightarrow>
                                 (let bufs = map (\<lambda>i. rx_mem + word_of_nat (i * BUF_SIZE)) [0..<QUEUE_SIZE];
                                      m = store16 (post_buffers rx bufs [0..<QUEUE_SIZE] (phys s)) (avail_idx_at rx) (word_of_nat QUEUE_SIZE);
                                      s = s\<lparr>phys := m\<rparr>;
                                      s = reg_write b base VSTATUS (STATUS_ACKNOWLEDGE OR STATUS_DRIVER OR STATUS_DRIVER_OK) s;
                                      s = reg_write b base QUEUE_NOTIFY RXQ s
                                  in (True, s\<lparr>NETDEV := Some \<lparr>nd_base = base, nd_rx = rx, nd_tx = tx, nd_mac = mac,
                                        rx_bufs = bufs, tx_buf = txb\<rparr>\<rparr>)))))))"

definition net_is_present :: "'v virtio \<Rightarrow> bool" where
  "net_is_present s \<longleftrightarrow> NETDEV s \<noteq> None"

definition net_mac :: "'v virtio \<Rightarrow> u8 list option" where
  "net_mac s = map_option nd_mac (NETDEV s)"

text \<open>The frame in the transmit buffer, behind a zeroed header, and its descriptor.\<close>

definition tx_request :: "NetDev \<Rightarrow> u8 list \<Rightarrow> pmem \<Rightarrow> pmem" where
  "tx_request dev frame m =
     (let m = store_bytes m (tx_buf dev) (replicate NET_HDR_LEN 0);
          m = store_bytes m (tx_buf dev + word_of_nat NET_HDR_LEN) frame
      in store_desc m (nd_tx dev) 0 \<lparr>d_addr = tx_buf dev, d_len = word_of_nat (NET_HDR_LEN + length frame), d_flags = 0, d_next = 0\<rparr>)"

definition net_driver_send :: "'v vbus \<Rightarrow> u8 list \<Rightarrow> 'v virtio \<Rightarrow> unit result \<times> 'v virtio" where
  "net_driver_send b frame s =
     (if length frame > BUF_SIZE - NET_HDR_LEN then (Inl ''virtio-net: frame too large'', s)
      else (case NETDEV s of
        None \<Rightarrow> (Inl ''virtio-net: not initialized'', s)
      | Some dev \<Rightarrow>
          (let q = nd_tx dev;
               s = s\<lparr>phys := publish q 0 (tx_request dev frame (phys s))\<rparr>;
               s = reg_write b (nd_base dev) QUEUE_NOTIFY TXQ s;
               (completed, s) = wait_used b q TX_SPINS s
           in if \<not> completed then (Inl ''virtio-net: TX timed out'', s)
              else (let s = s\<lparr>NETDEV := Some (dev\<lparr>nd_tx := q\<lparr>last_used := last_used q + 1\<rparr>\<rparr>)\<rparr>
                    in (Inr (), ack_irq b (nd_base dev) s)))))"

text \<open>An element of the used ring: which buffer the device has filled and how many bytes it wrote.\<close>

definition used_elem :: "pmem \<Rightarrow> VirtQueue \<Rightarrow> nat \<Rightarrow> u32 \<times> u32" where
  "used_elem m q i =
     (let bs = load_bytes m (used_elem_at q i) 8 in (from_le_bytes (take 4 bs), from_le_bytes (drop 4 bs)))"

definition rx_frame :: "pmem \<Rightarrow> usize list \<Rightarrow> u32 \<times> u32 \<Rightarrow> u8 list list" where
  "rx_frame m bufs e =
     (if unat (snd e) > NET_HDR_LEN \<and> unat (fst e) < QUEUE_SIZE
      then [load_bytes m (bufs ! unat (fst e) + word_of_nat NET_HDR_LEN) (unat (snd e) - NET_HDR_LEN)] else [])"

text \<open>The loop of \<open>poll_rx\<close>, which runs as long as the device has filled buffers.\<close>

partial_function (option) rx_loop :: "'v vbus \<Rightarrow> NetDev \<Rightarrow> u8 list list \<Rightarrow> 'v virtio \<Rightarrow> (u8 list list \<times> NetDev \<times> 'v virtio) run" where
  "rx_loop b dev got s =
     (let s = device_runs b s; q = nd_rx dev in
      if load16 (phys s) (used_idx_at q) = last_used q then Some (got, dev, s)
      else (let e = used_elem (phys s) q (unat (last_used q) mod QUEUE_SIZE)
            in rx_loop b (dev\<lparr>nd_rx := q\<lparr>last_used := last_used q + 1\<rparr>\<rparr>) (got @ rx_frame (phys s) (rx_bufs dev) e)
                 (s\<lparr>phys := publish q (ucast (fst e)) (phys s)\<rparr>)))"

declare rx_loop.simps [code]

definition net_driver_poll_rx :: "'v vbus \<Rightarrow> 'v virtio \<Rightarrow> (u8 list list \<times> 'v virtio) run" where
  "net_driver_poll_rx b s =
     (case NETDEV s of
        None \<Rightarrow> Some ([], s)
      | Some dev \<Rightarrow>
          do { (got, dev, s) \<leftarrow> rx_loop b dev [] s;
               let s = s\<lparr>NETDEV := Some dev\<rparr>;
               Some (got, if got \<noteq> [] then ack_irq b (nd_base dev) (reg_write b (nd_base dev) QUEUE_NOTIFY RXQ s) else s) })"

section \<open>Sending\<close>

text \<open>What the device does with a chain of the transmit queue: the bytes behind the header go out.\<close>

definition tx_serve :: "VirtQueue \<Rightarrow> u16 \<Rightarrow> pmem \<times> u8 list list \<Rightarrow> pmem \<times> u8 list list" where
  "tx_serve q taken mw =
     (let (m, wire) = mw;
          head = load16 m (avail_ring_at q (unat taken mod QUEUE_SIZE));
          d0 = load_desc m q (unat head);
          bytes = load_bytes m (d_addr d0) (unat (d_len d0));
          m = store_bytes m (used_elem_at q (unat taken mod QUEUE_SIZE)) (to_le_bytes 4 (ucast head :: u32) @ to_le_bytes 4 (0 :: u32))
      in (store16 m (used_idx_at q) (taken + 1), wire @ [drop NET_HDR_LEN bytes]))"

definition tx_memory :: "NetDev \<Rightarrow> bool" where
  "tx_memory dev \<longleftrightarrow>
     (let q = nd_tx dev; D = vq_desc q; A = vq_avail q; U = vq_used q; B = tx_buf dev in
      apart D 128 A 22 \<and> apart D 128 U 70 \<and> apart D 128 B 2048 \<and> apart A 22 U 70 \<and> apart A 22 B 2048 \<and> apart U 70 B 2048)"

definition tx_idle :: "('v \<Rightarrow> u16) \<Rightarrow> 'v virtio \<Rightarrow> NetDev \<Rightarrow> bool" where
  "tx_idle taken s dev \<longleftrightarrow>
     NETDEV s = Some dev \<and> vq_base (nd_tx dev) = nd_base dev \<and> taken (vdev s) = last_used (nd_tx dev) \<and>
     load16 (phys s) (used_idx_at (nd_tx dev)) = last_used (nd_tx dev) \<and>
     load16 (phys s) (avail_idx_at (nd_tx dev)) = last_used (nd_tx dev)"

lemma tx_memoryD:
  assumes "tx_memory dev"
  shows "apart (vq_desc (nd_tx dev)) 128 (vq_avail (nd_tx dev)) 22" "apart (vq_desc (nd_tx dev)) 128 (vq_used (nd_tx dev)) 70"
    "apart (vq_desc (nd_tx dev)) 128 (tx_buf dev) 2048" "apart (vq_avail (nd_tx dev)) 22 (vq_used (nd_tx dev)) 70"
    "apart (vq_avail (nd_tx dev)) 22 (tx_buf dev) 2048" "apart (vq_used (nd_tx dev)) 70 (tx_buf dev) 2048"
  using assms by (simp_all add: tx_memory_def Let_def)

lemmas tx_far = tx_memoryD [THEN apart_sub] tx_memoryD [THEN apart_sym, THEN apart_sub]

lemma load_bytes_split: "load_bytes m a (j + k) = load_bytes m a j @ load_bytes m (a + word_of_nat j) k"
  by (rule nth_equalityI) (auto simp: nth_append add.assoc simp flip: of_nat_add)

lemma tx_request_memory:
  fixes dev :: NetDev and frame m
  assumes sep: "tx_memory dev" and len: "length frame \<le> 2038"
  defines "q \<equiv> nd_tx dev" and "m' \<equiv> publish (nd_tx dev) 0 (tx_request dev frame m)"
  shows "load16 m' (avail_ring_at q (unat (load16 m (avail_idx_at q)) mod 8)) = 0"
    and "load16 m' (avail_idx_at q) = load16 m (avail_idx_at q) + 1"
    and "load_desc m' q 0 = \<lparr>d_addr = tx_buf dev, d_len = word_of_nat (10 + length frame), d_flags = 0, d_next = 0\<rparr>"
    and "load_bytes m' (tx_buf dev) (10 + length frame) = replicate 10 0 @ frame"
    and "load16 m' (used_idx_at q) = load16 m (used_idx_at q)"
proof -
  note far = tx_far [OF sep] and near = apart_inside [of _ "vq_avail (nd_tx dev)"] apart_inside [of _ "tx_buf dev"]
  note rw = load_apart far near load_store_same byte_simps
  note body = tx_request_def Let_def store_desc_def rw
  let ?m = "tx_request dev frame m"
  have idx: "load16 ?m (avail_idx_at q) = load16 m (avail_idx_at q)"
    using len by (simp add: load16_def q_def body)
  show "load16 m' (avail_ring_at q (unat (load16 m (avail_idx_at q)) mod 8)) = 0"
    "load16 m' (avail_idx_at q) = load16 m (avail_idx_at q) + 1"
    using publish_ring [of q 0 ?m] idx by (simp_all add: m'_def q_def)
  have m': "load_bytes m' a k = load_bytes ?m a k" if "apart a k (vq_avail (nd_tx dev)) 22" "k \<le> 2 ^ 64" for a k
    using that by (simp add: m'_def publish_apart)
  show "load_desc m' q 0 = \<lparr>d_addr = tx_buf dev, d_len = word_of_nat (10 + length frame), d_flags = 0, d_next = 0\<rparr>"
    by (rule load_desc_bytes, subst m', simp add: q_def far, simp, simp add: body q_def)
  have "load_bytes ?m (tx_buf dev) 10 = replicate 10 0" "load_bytes ?m (tx_buf dev + 10) (length frame) = frame"
    using len by (simp_all add: body)
  then have "load_bytes ?m (tx_buf dev) (10 + length frame) = replicate 10 0 @ frame" by (simp add: load_bytes_split)
  then show "load_bytes m' (tx_buf dev) (10 + length frame) = replicate 10 0 @ frame"
    using len by (subst m') (simp_all add: far)
  show "load16 m' (used_idx_at q) = load16 m (used_idx_at q)"
    unfolding load16_def using len by (subst m') (simp_all add: far body q_def)
qed

text \<open>
  C28: with a device that serves its transmit queue, sending a frame that fits puts exactly that frame on the
  wire, after the ones sent before, and leaves the driver ready for the next one.
\<close>

theorem net_send_transmits:
  assumes conf: "queue_conforms b (nd_tx dev) TXQ TX_SPINS tx_serve wire taken" and idle: "tx_idle taken s dev"
    and sep: "tx_memory dev" and len: "length frame \<le> BUF_SIZE - NET_HDR_LEN"
  shows "\<exists>s' dev'. net_driver_send b frame s = (Inr (), s') \<and> wire (vdev s') = wire (vdev s) @ [frame] \<and>
    tx_idle taken s' dev' \<and> dev' = dev\<lparr>nd_tx := (nd_tx dev)\<lparr>last_used := last_used (nd_tx dev')\<rparr>\<rparr>"
proof -
  let ?q = "nd_tx dev" and ?t = "last_used (nd_tx dev)"
  note I = idle [unfolded tx_idle_def]
  define m where "m = publish ?q 0 (tx_request dev frame (phys s))"
  have fits: "length frame \<le> 2038" using len by simp
  then have un: "unat (word_of_nat (10 + length frame) :: u32) = 10 + length frame" by (simp add: unat_of_nat del: of_nat_add)
  note R = tx_request_memory [OF sep fits, of "phys s", folded m_def]
  let ?m' = "store16 (store_bytes m (used_elem_at ?q (unat ?t mod 8)) (to_le_bytes 4 (0 :: u32) @ to_le_bytes 4 (0 :: u32))) (used_idx_at ?q) (?t + 1)"
  have serve: "tx_serve ?q (taken (vdev s)) (m, wire (vdev s)) = (?m', wire (vdev s) @ [frame])"
    using R I un by (simp add: tx_serve_def Let_def del: of_nat_add)
  obtain d' where wait: "wait_used b ?q TX_SPINS (reg_write b (vq_base ?q) QUEUE_NOTIFY TXQ (s\<lparr>phys := m\<rparr>)) = (True, s\<lparr>phys := ?m', vdev := d'\<rparr>)"
    and d': "wire d' = wire (vdev s) @ [frame]" "taken d' = taken (vdev s) + 1"
    by (rule queue_round [OF conf _ _ serve]) (use R I in auto)
  let ?dev = "dev\<lparr>nd_tx := ?q\<lparr>last_used := ?t + 1\<rparr>\<rparr>"
  let ?s' = "ack_irq b (vq_base ?q) (s\<lparr>phys := ?m', vdev := d', NETDEV := Some ?dev\<rparr>)"
  note A = queue_conforms_ack [OF conf]
  have "net_driver_send b frame s = (Inr (), ?s')"
    using I fits wait [unfolded m_def] by (simp add: net_driver_send_def Let_def m_def)
  moreover have "load16 ?m' (avail_idx_at ?q) = ?t + 1"
    using R(2) I by (simp add: store16_def load16_apart tx_far [OF sep] byte_simps)
  then have "tx_idle taken ?s' ?dev" using A d'(2) I by (simp add: tx_idle_def)
  ultimately show ?thesis using A(4) d'(1) by (intro exI [of _ ?s'] exI [of _ ?dev]) simp
qed

section \<open>Receiving\<close>

text \<open>The buffers the device has filled and the driver has not seen, and the ones posted from index \<open>lo\<close> on.\<close>

definition pending :: "pmem \<Rightarrow> VirtQueue \<Rightarrow> (u32 \<times> u32) list" where
  "pending m q = map (\<lambda>j. used_elem m q ((unat (last_used q) + j) mod QUEUE_SIZE))
     [0..<unat (load16 m (used_idx_at q) - last_used q)]"

definition posted :: "pmem \<Rightarrow> VirtQueue \<Rightarrow> u16 \<Rightarrow> nat \<Rightarrow> u16 list" where
  "posted m q lo n = map (\<lambda>j. load16 m (avail_ring_at q ((unat lo + j) mod QUEUE_SIZE))) [0..<n]"

definition rx_memory :: "NetDev \<Rightarrow> bool" where
  "rx_memory dev \<longleftrightarrow> apart (vq_avail (nd_rx dev)) 22 (vq_used (nd_rx dev)) 70 \<and>
     (\<forall>i < QUEUE_SIZE. apart (vq_avail (nd_rx dev)) 22 (rx_bufs dev ! i) BUF_SIZE)"

lemma u16_ring_index: "unat (lo + word_of_nat n :: u16) mod 8 = (unat lo + n) mod 8"
proof -
  have "lo + word_of_nat n = (word_of_nat (unat lo + n) :: u16)" by simp
  moreover have "unat (word_of_nat k :: u16) = k mod 2 ^ 16" for k by (simp add: unat_of_nat)
  moreover have "(k :: nat) mod 2 ^ 16 mod 8 = k mod 8" for k by (rule mod_mod_cancel) simp
  ultimately show ?thesis by metis
qed

lemma posted_publish:
  assumes "load16 m (avail_idx_at q) = lo + word_of_nat n" "n < 8"
  shows "posted (publish q i m) q lo (Suc n) = posted m q lo n @ [i]"
proof -
  have at: "unat (load16 m (avail_idx_at q)) mod 8 = (unat lo + n) mod 8" unfolding assms(1) by (rule u16_ring_index)
  have "(unat lo + j) mod 8 \<noteq> (unat lo + n) mod 8" if "j < n" for j
    using that assms(2) mod_eq_dvd_iff_nat [of "unat lo + j" "unat lo + n" 8] nat_dvd_not_less [of "n - j" 8] by auto
  then have "load16 (publish q i m) (avail_ring_at q ((unat lo + j) mod 8)) = load16 m (avail_ring_at q ((unat lo + j) mod 8))" if "j < n" for j
    using that at by (simp add: publish_ring_other)
  then show ?thesis using publish_ring(1) [of q i m] at by (simp add: posted_def)
qed

lemma posted_fold:
  "load16 m (avail_idx_at q) = lo + word_of_nat n \<Longrightarrow> n + length ids \<le> 8 \<Longrightarrow>
   posted (fold (publish q) ids m) q lo (n + length ids) = posted m q lo n @ ids \<and>
   load16 (fold (publish q) ids m) (avail_idx_at q) = lo + word_of_nat (n + length ids)"
proof (induction ids arbitrary: m n)
  case (Cons i ids)
  have "load16 (publish q i m) (avail_idx_at q) = lo + word_of_nat (Suc n)"
    using Cons.prems(1) by (simp add: publish_ring add.assoc add.commute)
  from Cons.IH [OF this] show ?case using Cons.prems posted_publish [OF Cons.prems(1), of i] by simp
qed simp

lemma pending_Cons:
  assumes k: "unat (load16 m (used_idx_at q) - last_used q) = Suc k"
  shows "pending m q = used_elem m q (unat (last_used q) mod 8) # pending m (q\<lparr>last_used := last_used q + 1\<rparr>)"
    and "unat (load16 m (used_idx_at q) - (last_used q + 1)) = k"
proof -
  let ?d = "load16 m (used_idx_at q) - last_used q"
  have d: "load16 m (used_idx_at q) - (last_used q + 1) = ?d - 1" "?d \<noteq> 0" using k by auto
  show less: "unat (load16 m (used_idx_at q) - (last_used q + 1)) = k"
    unfolding d(1) unat_minus_one [OF d(2)] k by simp
  have next_index: "(unat (last_used q + 1) + j) mod 8 = (unat (last_used q) + Suc j) mod 8" for j
  proof -
    have "(unat (last_used q + 1) + j) mod 8 = (unat (last_used q + 1) mod 8 + j) mod 8" by (rule mod_add_left_eq [symmetric])
    also have "unat (last_used q + 1) mod 8 = (unat (last_used q) + 1) mod 8" using u16_ring_index [of "last_used q" 1] by simp
    also have "((unat (last_used q) + 1) mod 8 + j) mod 8 = (unat (last_used q) + 1 + j) mod 8" by (rule mod_add_left_eq)
    finally show ?thesis by simp
  qed
  have "[0..<Suc k] = 0 # map Suc [0..<k]" by (simp add: upt_conv_Cons map_Suc_upt del: upt_Suc)
  moreover have "used_elem m (q\<lparr>last_used := x\<rparr>) = used_elem m q" for x by (simp add: used_elem_def fun_eq_iff)
  ultimately show "pending m q = used_elem m q (unat (last_used q) mod 8) # pending m (q\<lparr>last_used := last_used q + 1\<rparr>)"
    unfolding pending_def k by (simp add: less comp_def next_index del: upt_Suc)
qed

text \<open>Posting a buffer touches neither the used ring nor the contents of a buffer.\<close>

lemma publish_rx:
  assumes "rx_memory dev"
  shows "load16 (publish (nd_rx dev) i m) (used_idx_at (nd_rx dev)) = load16 m (used_idx_at (nd_rx dev))"
    and "pending (publish (nd_rx dev) i m) (nd_rx dev) = pending m (nd_rx dev)"
    and "unat (snd e) \<le> 2048 \<Longrightarrow> rx_frame (publish (nd_rx dev) i m) (rx_bufs dev) e = rx_frame m (rx_bufs dev) e"
proof -
  have used: "apart (vq_used (nd_rx dev)) 70 (vq_avail (nd_rx dev)) 22"
    and bufs: "\<And>i. i < 8 \<Longrightarrow> apart (rx_bufs dev ! i) 2048 (vq_avail (nd_rx dev)) 22"
    using assms by (auto simp: rx_memory_def intro: apart_sym)
  have "apart (used_idx_at (nd_rx dev)) 2 (vq_avail (nd_rx dev)) 22" using used by (rule apart_sub) simp_all
  then show idx: "load16 (publish (nd_rx dev) i m) (used_idx_at (nd_rx dev)) = load16 m (used_idx_at (nd_rx dev))"
    by (simp add: load16_def publish_apart)
  have "used_elem (publish (nd_rx dev) i m) (nd_rx dev) (k mod 8) = used_elem m (nd_rx dev) (k mod 8)" for k
  proof -
    have "apart (used_elem_at (nd_rx dev) (k mod 8)) 8 (vq_avail (nd_rx dev)) 22" using used by (rule apart_sub) simp_all
    then show ?thesis by (simp add: used_elem_def publish_apart)
  qed
  then show "pending (publish (nd_rx dev) i m) (nd_rx dev) = pending m (nd_rx dev)" by (simp add: pending_def idx)
  show "rx_frame (publish (nd_rx dev) i m) (rx_bufs dev) e = rx_frame m (rx_bufs dev) e" if "unat (snd e) \<le> 2048"
  proof (cases "unat (fst e) < 8 \<and> 10 < unat (snd e)")
    case True
    then have "apart (rx_bufs dev ! unat (fst e) + 10) (unat (snd e) - 10) (vq_avail (nd_rx dev)) 22"
      using that by (intro apart_sub [OF bufs [of "unat (fst e)"]]) simp_all
    then show ?thesis using that by (simp add: rx_frame_def publish_apart)
  qed (auto simp: rx_frame_def)
qed

lemma rx_loop_drains:
  assumes "\<And>m. vdma b (m, vdev s) = (m, vdev s)" "rx_memory dev"
    and "\<forall>e \<in> set (pending (phys s) (nd_rx dev)). unat (snd e) \<le> 2048"
  shows "rx_loop b dev got s =
    Some (got @ concat (map (rx_frame (phys s) (rx_bufs dev)) (pending (phys s) (nd_rx dev))),
          dev\<lparr>nd_rx := (nd_rx dev)\<lparr>last_used := load16 (phys s) (used_idx_at (nd_rx dev))\<rparr>\<rparr>,
          s\<lparr>phys := fold (publish (nd_rx dev)) (map (ucast \<circ> fst) (pending (phys s) (nd_rx dev))) (phys s)\<rparr>)"
  using assms
proof (induction "unat (load16 (phys s) (used_idx_at (nd_rx dev)) - last_used (nd_rx dev))" arbitrary: dev got s)
  case 0
  then have "load16 (phys s) (used_idx_at (nd_rx dev)) = last_used (nd_rx dev)" by (simp add: unat_eq_0)
  then show ?case using 0(2) by (subst rx_loop.simps) (simp add: device_runs_def pending_def)
next
  case (Suc k)
  let ?q = "nd_rx dev" and ?m = "phys s"
  let ?q' = "?q\<lparr>last_used := last_used ?q + 1\<rparr>" and ?e = "used_elem ?m ?q (unat (last_used ?q) mod 8)"
  let ?m' = "publish ?q (ucast (fst ?e)) ?m" and ?dev' = "dev\<lparr>nd_rx := ?q'\<rparr>"
  note P = pending_Cons [OF Suc(2) [symmetric]]
  have mem: "rx_memory ?dev'" using Suc.prems(2) by (simp add: rx_memory_def)
  have pub: "publish (?q\<lparr>last_used := x\<rparr>) = publish ?q" for x by (simp add: publish_def fun_eq_iff)
  note K = publish_rx [OF mem, simplified, unfolded pub]
  have "load16 ?m (used_idx_at ?q) \<noteq> last_used ?q" using Suc(2) by auto
  then have "rx_loop b dev got s = rx_loop b ?dev' (got @ rx_frame ?m (rx_bufs dev) ?e) (s\<lparr>phys := ?m'\<rparr>)"
    using Suc.prems(1) by (subst rx_loop.simps) (simp add: device_runs_def Let_def)
  also have "\<dots> = Some ((got @ rx_frame ?m (rx_bufs dev) ?e) @ concat (map (rx_frame ?m' (rx_bufs dev)) (pending ?m' ?q')),
      ?dev'\<lparr>nd_rx := ?q'\<lparr>last_used := load16 ?m' (used_idx_at ?q)\<rparr>\<rparr>,
      s\<lparr>phys := fold (publish ?q) (map (ucast \<circ> fst) (pending ?m' ?q')) ?m'\<rparr>)"
    using Suc(1) [of "s\<lparr>phys := ?m'\<rparr>" ?dev' "got @ rx_frame ?m (rx_bufs dev) ?e"] Suc.prems(1,3) mem P
    by (simp add: K pub)
  also have "map (rx_frame ?m' (rx_bufs dev)) (pending ?m' ?q') = map (rx_frame ?m (rx_bufs dev)) (pending ?m ?q')"
    unfolding K(2) using Suc.prems(3) P(1) by (intro map_cong) (auto simp: K(3))
  finally show ?case by (simp add: K P(1) comp_def)
qed

text \<open>All the receive buffers, and the state in which the driver tells the device about the buffers it has posted.\<close>

definition all_buffers :: "u16 list" where
  "all_buffers = map word_of_nat [0..<QUEUE_SIZE]"

definition rx_notify :: "'v vbus \<Rightarrow> usize \<Rightarrow> u8 list list \<Rightarrow> 'v virtio \<Rightarrow> 'v virtio" where
  "rx_notify b base got s = (if got \<noteq> [] then ack_irq b base (reg_write b base QUEUE_NOTIFY RXQ s) else s)"

text \<open>
  C29: when the device holds still, polling ends and hands over every received frame, in order and without its
  header. If each receive buffer was either posted to the device or filled and pending, then after the poll
  every buffer is posted again and none is pending.
\<close>

theorem net_poll_rx_drains:
  assumes dev: "NETDEV s = Some dev" and mem: "rx_memory dev"
    and quiet: "\<forall>m. vdma b (m, vdev s) = (m, vdev s)"
    and fits: "\<forall>e \<in> set (pending (phys s) (nd_rx dev)). unat (snd e) \<le> BUF_SIZE"
    and avail: "load16 (phys s) (avail_idx_at (nd_rx dev)) = lo + word_of_nat n"
    and owned: "mset (posted (phys s) (nd_rx dev) lo n) + mset (map (ucast \<circ> fst) (pending (phys s) (nd_rx dev))) = mset all_buffers"
  shows "\<exists>got s' dev'. net_driver_poll_rx b s = Some (got, rx_notify b (nd_base dev) got s') \<and>
    got = concat (map (rx_frame (phys s) (rx_bufs dev)) (pending (phys s) (nd_rx dev))) \<and>
    NETDEV s' = Some dev' \<and> dev' = dev\<lparr>nd_rx := (nd_rx dev)\<lparr>last_used := last_used (nd_rx dev')\<rparr>\<rparr> \<and>
    pending (phys s') (nd_rx dev') = [] \<and> mset (posted (phys s') (nd_rx dev') lo QUEUE_SIZE) = mset all_buffers \<and>
    load16 (phys s') (avail_idx_at (nd_rx dev')) = lo + word_of_nat QUEUE_SIZE"
proof -
  let ?q = "nd_rx dev"
  define ids where "ids = map (ucast \<circ> fst :: u32 \<times> u32 \<Rightarrow> u16) (pending (phys s) ?q)"
  define m' where "m' = fold (publish ?q) ids (phys s)"
  have "size (mset (posted (phys s) ?q lo n) + mset ids) = 8"
    using owned by (simp add: ids_def all_buffers_def)
  then have len: "n + length ids = 8" by (simp add: posted_def)
  have P: "posted m' ?q lo 8 = posted (phys s) ?q lo n @ ids" "load16 m' (avail_idx_at ?q) = lo + word_of_nat 8"
    using posted_fold [OF avail, of ids] len by (simp_all add: m'_def)
  have "load16 (fold (publish ?q) xs m) (used_idx_at ?q) = load16 m (used_idx_at ?q)" for xs m
    by (induction xs arbitrary: m) (simp_all add: publish_rx(1) [OF mem])
  then have used: "load16 m' (used_idx_at ?q) = load16 (phys s) (used_idx_at ?q)" by (simp add: m'_def)
  let ?dev = "dev\<lparr>nd_rx := ?q\<lparr>last_used := load16 (phys s) (used_idx_at ?q)\<rparr>\<rparr>"
  let ?s = "s\<lparr>phys := m', NETDEV := Some ?dev\<rparr>"
  let ?got = "concat (map (rx_frame (phys s) (rx_bufs dev)) (pending (phys s) ?q))"
  have "rx_loop b dev [] s = Some (?got, ?dev, s\<lparr>phys := m'\<rparr>)"
    using rx_loop_drains [of b s dev "[]"] quiet mem fits by (simp add: m'_def ids_def)
  then have "net_driver_poll_rx b s = Some (?got, rx_notify b (nd_base dev) ?got ?s)"
    using dev by (simp add: net_driver_poll_rx_def rx_notify_def)
  moreover have "pending (phys ?s) (nd_rx ?dev) = []" using used by (simp add: pending_def)
  moreover have "posted m' (?q\<lparr>last_used := x\<rparr>) lo 8 = posted m' ?q lo 8" for x by (simp add: posted_def)
  then have "mset (posted (phys ?s) (nd_rx ?dev) lo 8) = mset all_buffers"
    using owned by (simp add: P(1) ids_def)
  ultimately show ?thesis using P(2) by (intro exI [of _ ?got] exI [of _ ?s] exI [of _ ?dev]) simp
qed

section \<open>A device in use\<close>

definition demo_netdev :: NetDev where
  "demo_netdev = \<lparr>nd_base = 0x10002000,
     nd_rx = \<lparr>vq_base = 0x10002000, vq_desc = 0x80200000, vq_avail = 0x80200080, vq_used = 0x80201000, last_used = 0\<rparr>,
     nd_tx = \<lparr>vq_base = 0x10002000, vq_desc = 0x80202000, vq_avail = 0x80202080, vq_used = 0x80203000, last_used = 0\<rparr>,
     nd_mac = replicate 6 2, rx_bufs = map (\<lambda>i. 0x80204000 + word_of_nat (i * BUF_SIZE)) [0..<QUEUE_SIZE], tx_buf = 0x80208000\<rparr>"

text \<open>All eight buffers were posted; the device has filled the first with a frame of four bytes.\<close>

definition demo_rx_mem :: pmem where
  "demo_rx_mem =
     store_bytes (store_bytes (store_bytes (\<lambda>_. 0) 0x80200080 [0, 0, 8, 0, 0, 0, 1, 0, 2, 0, 3, 0, 4, 0, 5, 0, 6, 0, 7, 0])
       0x80201000 [0, 0, 1, 0, 0, 0, 0, 0, 14, 0, 0, 0]) 0x8020400a [1, 2, 3, 4]"

definition demo_net :: "(u8 list list \<times> u16) virtio" where
  "demo_net = \<lparr>phys = demo_rx_mem, frames = ALLOCATOR, vdev = ([], 0), BLK = None, NETDEV = Some demo_netdev\<rparr>"

definition prompt_tx :: "VirtQueue \<Rightarrow> (u8 list list \<times> u16) vbus" where
  "prompt_tx q = \<lparr>vread = \<lambda>a d. (0, d), vread8 = \<lambda>a d. (0, d),
     vwrite = \<lambda>a v (m, (wire, taken)). if a = vq_base q + QUEUE_NOTIFY \<and> v = TXQ
       then (let (m', wire') = tx_serve q taken (m, wire) in (m', (wire', taken + 1))) else (m, (wire, taken)),
     vdma = id\<rparr>"

lemma prompt_tx_conforms: "queue_conforms (prompt_tx q) q TXQ TX_SPINS tx_serve fst snd"
  unfolding queue_conforms_def
proof (intro conjI allI impI, goal_cases)
  case (1 m d)
  show ?case by (rule exI [of _ 0]) (auto simp: prompt_tx_def split: prod.splits)
qed (auto simp: prompt_tx_def split: prod.splits if_splits)

lemma demo_net_memory: "tx_memory demo_netdev" "rx_memory demo_netdev"
proof -
  show "tx_memory demo_netdev" by (simp add: tx_memory_def demo_netdev_def Let_def apart_inside [of _ "0x80000000"])
  have "apart 0x80200080 22 (0x80204000 + word_of_nat (i * 2048)) 2048" if "i < 8" for i
  proof (rule apart_inside [of _ "0x80200000"])
    have "unat (0x80204000 + word_of_nat (i * 2048) - 0x80200000 :: usize) = 0x4000 + i * 2048"
      using that unat_add_no_wrap [of "0x4000" "i * 2048"] by simp
    then show "unat (0x80200080 - 0x80200000 :: usize) + 22 \<le> unat (0x80204000 + word_of_nat (i * 2048) - 0x80200000 :: usize) \<or>
        unat (0x80204000 + word_of_nat (i * 2048) - 0x80200000 :: usize) + 2048 \<le> unat (0x80200080 - 0x80200000 :: usize)"
      "unat (0x80204000 + word_of_nat (i * 2048) - 0x80200000 :: usize) + 2048 \<le> 2 ^ 64" using that by simp_all
  qed simp
  then show "rx_memory demo_netdev"
    by (simp add: rx_memory_def demo_netdev_def apart_inside [of _ "0x80000000"] del: of_nat_mult upt_rec_numeral)
qed

lemma load_store_part:
  assumes "unat (a - c) + n \<le> length bs" "length bs \<le> 2 ^ 64"
  shows "load_bytes (store_bytes m c bs) a n = take n (drop (unat (a - c)) bs)"
proof (rule nth_equalityI)
  fix i assume "i < length (load_bytes (store_bytes m c bs) a n)"
  then have i: "i < n" by simp
  have "a + word_of_nat i - c = (a - c) + word_of_nat i" by simp
  then have "unat (a + word_of_nat i - c) = unat (a - c) + i"
    using i assms by (simp only:) (rule unat_add_no_wrap, simp)
  then show "load_bytes (store_bytes m c bs) a n ! i = take n (drop (unat (a - c)) bs) ! i"
    using i assms(1) by (simp add: store_bytes_def)
qed (use assms in simp)

lemma demo_rx:
  "load16 demo_rx_mem (avail_idx_at (nd_rx demo_netdev)) = 8" "pending demo_rx_mem (nd_rx demo_netdev) = [(0, 14)]"
  "posted demo_rx_mem (nd_rx demo_netdev) 1 7 = [1, 2, 3, 4, 5, 6, 7]"
  "rx_frame demo_rx_mem (rx_bufs demo_netdev) (0, 14) = [[1, 2, 3, 4]]"
proof -
  have sep: "apart 0x80200080 20 0x8020400a 4" "apart 0x80200080 20 0x80201000 12" "apart 0x80201000 12 0x8020400a 4"
    by (simp_all add: apart_inside [of _ "0x80000000"])
  have avail: "load_bytes demo_rx_mem a n = take n (drop (unat (a - 0x80200080)) [0, 0, 8, 0, 0, 0, 1, 0, 2, 0, 3, 0, 4, 0, 5, 0, 6, 0, 7, 0])"
    if "unat (a - 0x80200080) + n \<le> 20" for a n
    using that sep(1,2) [THEN apart_sub, OF that] by (simp add: demo_rx_mem_def load_apart load_store_part)
  have used: "load_bytes demo_rx_mem a n = take n (drop (unat (a - 0x80201000)) [0, 0, 1, 0, 0, 0, 0, 0, 14, 0, 0, 0])"
    if "unat (a - 0x80201000) + n \<le> 12" for a n
    using that sep(3) [THEN apart_sub, OF that] by (simp add: demo_rx_mem_def load_apart load_store_part)
  show "load16 demo_rx_mem (avail_idx_at (nd_rx demo_netdev)) = 8"
    by (simp add: load16_def avail_idx_at_def demo_netdev_def avail)
  show "posted demo_rx_mem (nd_rx demo_netdev) 1 7 = [1, 2, 3, 4, 5, 6, 7]"
    by (simp add: posted_def load16_def avail_ring_at_def demo_netdev_def avail upt_rec [of _ 7])
  show "pending demo_rx_mem (nd_rx demo_netdev) = [(0, 14)]"
    by (simp add: pending_def load16_def used_idx_at_def used_elem_def used_elem_at_def demo_netdev_def used)
  show "rx_frame demo_rx_mem (rx_bufs demo_netdev) (0, 14) = [[1, 2, 3, 4]]"
    by (simp add: rx_frame_def demo_netdev_def demo_rx_mem_def load_store_part)
qed

theorem net_poll_rx_drains_witness:
  "\<exists>s'. net_driver_poll_rx (prompt_tx (nd_tx demo_netdev)) demo_net = Some ([[1, 2, 3, 4]], s')"
proof -
  have "mset (posted (phys demo_net) (nd_rx demo_netdev) 1 7) + mset (map (ucast \<circ> fst) (pending (phys demo_net) (nd_rx demo_netdev))) = mset all_buffers"
    using demo_rx by (simp add: demo_net_def all_buffers_def upt_rec [of _ 8] del: mset_map)
  moreover have "\<forall>m. vdma (prompt_tx (nd_tx demo_netdev)) (m, vdev demo_net) = (m, vdev demo_net)" by (simp add: prompt_tx_def)
  moreover have "NETDEV demo_net = Some demo_netdev" "phys demo_net = demo_rx_mem" by (simp_all add: demo_net_def)
  ultimately show ?thesis
    using net_poll_rx_drains [OF _ demo_net_memory(2), of demo_net "prompt_tx (nd_tx demo_netdev)" 1 7] demo_rx by auto
qed

theorem net_send_transmits_witness:
  "\<exists>s'. net_driver_send (prompt_tx (nd_tx demo_netdev)) [1, 2, 3, 4] demo_net = (Inr (), s') \<and> fst (vdev s') = [[1, 2, 3, 4]]"
proof -
  have "load_bytes (\<lambda>_. 0) a 2 = [0, 0]" for a by (simp add: load_bytes_def numeral_2_eq_2)
  then have "tx_idle snd demo_net demo_netdev"
    by (simp add: tx_idle_def demo_net_def demo_netdev_def load16_def avail_idx_at_def used_idx_at_def demo_rx_mem_def
        load_apart apart_inside [of _ "0x80000000"] del: upt_rec_numeral)
  then show ?thesis
    using net_send_transmits [OF prompt_tx_conforms _ demo_net_memory(1), of demo_net "[1, 2, 3, 4]"]
    by (auto simp: demo_net_def)
qed

end
