(* ===== verification/Libc.thy ===== *)
theory Libc
  imports Trap
begin

text \<open>
  \<open>userspace/libc_shim\<close>: the system-call wrappers of the user programs. The first part has the registers each
  wrapper loads before its \<open>ecall\<close> and the buffers it fills and reads. The second part is the interface the
  programs are written against, with slices passed by value: a record of the wrappers' effects on a state \<open>'k\<close>,
  everything outside the process. It is a parameter of the programs. A program ends a call by returning, by
  exiting, or by a successful \<open>exec\<close>; a panic prints a message (not modelled) and exits with code 101.
\<close>

section \<open>Registers\<close>

type_synonym i32 = "32 word"

text \<open>A system call: \<open>a7\<close>, and the registers \<open>a0\<close> to \<open>a3\<close> (\<open>syscall\<close>) or \<open>a0\<close> to \<open>a5\<close> (\<open>syscall5\<close>).\<close>

type_synonym ucall = "usize \<times> usize list"

definition libc_syscall :: "usize \<Rightarrow> usize \<Rightarrow> usize \<Rightarrow> usize \<Rightarrow> usize \<Rightarrow> ucall" where
  "libc_syscall n a0 a1 a2 a3 = (n, [a0, a1, a2, a3])"

definition libc_syscall5 :: "usize \<Rightarrow> usize \<Rightarrow> usize \<Rightarrow> usize \<Rightarrow> usize \<Rightarrow> usize \<Rightarrow> usize \<Rightarrow> ucall" where
  "libc_syscall5 n a0 a1 a2 a3 a4 a5 = (n, [a0, a1, a2, a3, a4, a5])"

definition libc_write :: "i32 \<Rightarrow> usize \<Rightarrow> usize \<Rightarrow> ucall" where
  "libc_write fd ptr len = libc_syscall 64 (scast fd) ptr len 0"

definition libc_read :: "i32 \<Rightarrow> usize \<Rightarrow> usize \<Rightarrow> ucall" where
  "libc_read fd ptr len = libc_syscall 63 (scast fd) ptr len 0"

definition libc_O_DIRECTORY :: usize where [simp]: "libc_O_DIRECTORY = 0x10000"

text \<open>The local buffer that \<open>open_flags\<close> and \<open>exec\<close> copy a path to.\<close>

definition path_buffer :: "u8 list \<Rightarrow> u8 list" where
  "path_buffer path = (let n = min (length path) 126 in take n path @ replicate (128 - n) 0)"

definition libc_open_flags :: "usize \<Rightarrow> usize \<Rightarrow> ucall" where
  "libc_open_flags tmp flags = libc_syscall 56 (-100) tmp flags 0"

definition libc_open :: "usize \<Rightarrow> ucall" where
  "libc_open tmp = libc_open_flags tmp 0"

definition libc_getdents64 :: "i32 \<Rightarrow> usize \<Rightarrow> usize \<Rightarrow> ucall" where
  "libc_getdents64 fd ptr len = libc_syscall 61 (scast fd) ptr len 0"

definition libc_close :: "i32 \<Rightarrow> ucall" where
  "libc_close fd = libc_syscall 57 (scast fd) 0 0 0"

definition libc_exit :: "i32 \<Rightarrow> ucall" where
  "libc_exit code = libc_syscall 93 (scast code) 0 0 0"

definition libc_getpid :: ucall where
  "libc_getpid = libc_syscall 172 0 0 0 0"

definition libc_fork :: ucall where
  "libc_fork = libc_syscall 220 0 0 0 0"

definition libc_exec :: "usize \<Rightarrow> ucall" where
  "libc_exec tmp = libc_syscall 221 tmp 0 0 0"

definition libc_wait :: "usize \<Rightarrow> ucall" where
  "libc_wait status = libc_syscall 260 (-1) status 0 0"

definition libc_AF_INET :: usize where [simp]: "libc_AF_INET = 2"
definition libc_SOCK_DGRAM :: usize where [simp]: "libc_SOCK_DGRAM = 2"

definition libc_sockaddr_in :: "u8 list \<Rightarrow> u16 \<Rightarrow> u8 list" where
  "libc_sockaddr_in ip port = [ucast libc_AF_INET, 0] @ to_be_bytes 2 port @ ip @ replicate 8 0"

definition libc_socket :: ucall where
  "libc_socket = libc_syscall 198 libc_AF_INET libc_SOCK_DGRAM 0 0"

definition libc_bind :: "i32 \<Rightarrow> usize \<Rightarrow> ucall" where
  "libc_bind fd sa = libc_syscall 200 (scast fd) sa 16 0"

definition libc_sendto :: "i32 \<Rightarrow> usize \<Rightarrow> usize \<Rightarrow> usize \<Rightarrow> ucall" where
  "libc_sendto fd ptr len sa = libc_syscall5 206 (scast fd) ptr len 0 sa 16"

definition libc_recvfrom :: "i32 \<Rightarrow> usize \<Rightarrow> usize \<Rightarrow> usize \<Rightarrow> ucall" where
  "libc_recvfrom fd ptr len sa = libc_syscall5 207 (scast fd) ptr len 0 sa 16"

text \<open>What \<open>recvfrom\<close> reads from the address the kernel stored: the IP address and the port.\<close>

definition recv_source :: "u8 list \<Rightarrow> u8 list \<times> u16" where
  "recv_source sa = (take 4 (drop 4 sa), from_be_bytes [sa ! 2, sa ! 3])"

record SysInfo =
  uptime_secs :: u64
  total_ram :: u64
  free_ram :: u64
  procs :: u64

definition libc_sysinfo :: "usize \<Rightarrow> ucall" where
  "libc_sysinfo buf = libc_syscall 179 buf 0 0 0"

definition sysinfo_of :: "u8 list \<Rightarrow> SysInfo" where
  "sysinfo_of buf =
     (let rd = (\<lambda>off. from_le_bytes (take 8 (drop off buf)))
      in \<lparr>uptime_secs = rd 0, total_ram = rd 8, free_ram = rd 16, procs = rd 24\<rparr>)"

definition libc_proclist :: "usize \<Rightarrow> usize \<Rightarrow> ucall" where
  "libc_proclist ptr len = libc_syscall 500 ptr len 0 0"

definition libc_reboot :: "bool \<Rightarrow> ucall" where
  "libc_reboot restart = libc_syscall 142 (if restart then 1 else 0) 0 0 0"

definition libc_sched_setaffinity :: "usize \<Rightarrow> ucall" where
  "libc_sched_setaffinity m = libc_syscall 122 0 8 m 0"

definition libc_sched_getaffinity :: "usize \<Rightarrow> ucall" where
  "libc_sched_getaffinity m = libc_syscall 123 0 8 m 0"

definition libc_mmap :: "usize \<Rightarrow> ucall" where
  "libc_mmap len = libc_syscall 222 0 len 0 0"

definition libc_munmap :: "usize \<Rightarrow> usize \<Rightarrow> ucall" where
  "libc_munmap ptr len = libc_syscall 215 ptr len 0 0"

text \<open>Every wrapper loads the number under which the kernel dispatches the call it means.\<close>

lemma libc_numbers:
  "syscall e (fst (libc_write fd p n)) s = sys_write e s" "syscall e (fst (libc_read fd p n)) s = sys_read e s"
  "syscall e (fst (libc_open_flags p f)) s = sys_openat e s" "syscall e (fst (libc_close fd)) s = sys_close s"
  "syscall e (fst (libc_getdents64 fd p n)) s = sys_getdents64 e s" "syscall e (fst (libc_exit c)) s = sys_exit s"
  "syscall e (fst libc_getpid) s = sys_getpid s" "syscall e (fst libc_fork) s = sys_fork e s"
  "syscall e (fst (libc_exec p)) s = sys_execve e s" "syscall e (fst (libc_wait p)) s = sys_wait4 s"
  "syscall e (fst libc_socket) s = sys_socket s" "syscall e (fst (libc_bind fd p)) s = sys_bind s"
  "syscall e (fst (libc_sendto fd p n a)) s = sys_sendto e s" "syscall e (fst (libc_recvfrom fd p n a)) s = sys_recvfrom e s"
  "syscall e (fst (libc_sysinfo p)) s = sys_sysinfo s" "syscall e (fst (libc_proclist p n)) s = sys_proclist s"
  "syscall e (fst (libc_reboot r)) s = sys_reboot e s" "syscall e (fst (libc_sched_setaffinity p)) s = sys_sched_setaffinity s"
  "syscall e (fst (libc_sched_getaffinity p)) s = sys_sched_getaffinity s" "syscall e (fst (libc_mmap n)) s = sys_mmap s"
  "syscall e (fst (libc_munmap p n)) s = sys_munmap s"
  by (simp_all add: syscall_def libc_syscall_def libc_syscall5_def libc_write_def libc_read_def libc_open_flags_def libc_close_def
      libc_getdents64_def libc_exit_def libc_getpid_def libc_fork_def libc_exec_def libc_wait_def libc_socket_def libc_bind_def
      libc_sendto_def libc_recvfrom_def libc_sysinfo_def libc_proclist_def libc_reboot_def libc_sched_setaffinity_def
      libc_sched_getaffinity_def libc_mmap_def libc_munmap_def)

text \<open>The kernel's encoding of a datagram's source and of the system information, read back.\<close>

lemma recv_source_sockaddr:
  assumes "length (dg_src_ip d) = 4"
  shows "recv_source (sockaddr_in d) = (dg_src_ip d, dg_src_port d)"
proof -
  obtain a b where "to_be_bytes 2 (dg_src_port d) = [a, b]" "from_be_bytes [a, b] = dg_src_port d" by (rule to_be_bytes_u16_parts)
  then show ?thesis using assms by (simp add: recv_source_def sockaddr_in_def)
qed

lemma sysinfo_of_bytes:
  "sysinfo_of (to_le_bytes 8 a @ to_le_bytes 8 b @ to_le_bytes 8 c @ to_le_bytes 8 d) =
   \<lparr>uptime_secs = a, total_ram = b, free_ram = c, procs = d\<rparr>"
  by (simp add: sysinfo_of_def byte_simps)

section \<open>The interface of the programs\<close>

record 'k os =
  os_write :: "i32 \<Rightarrow> u8 list \<Rightarrow> 'k \<Rightarrow> isize \<times> 'k"
  os_read :: "i32 \<Rightarrow> nat \<Rightarrow> 'k \<Rightarrow> isize \<times> u8 list \<times> 'k"
  os_open :: "u8 list \<Rightarrow> usize \<Rightarrow> 'k \<Rightarrow> i32 \<times> 'k"
  os_getdents64 :: "i32 \<Rightarrow> nat \<Rightarrow> 'k \<Rightarrow> isize \<times> u8 list \<times> 'k"
  os_close :: "i32 \<Rightarrow> 'k \<Rightarrow> 'k"
  os_getpid :: "'k \<Rightarrow> i32 \<times> 'k"
  os_fork :: "'k \<Rightarrow> i32 \<times> 'k"
  os_exec :: "u8 list \<Rightarrow> 'k \<Rightarrow> bool \<times> 'k"
  os_wait :: "'k \<Rightarrow> i32 \<times> i32 \<times> 'k"
  os_sysinfo :: "'k \<Rightarrow> SysInfo \<times> 'k"
  os_proclist :: "nat \<Rightarrow> 'k \<Rightarrow> isize \<times> u8 list \<times> 'k"
  os_reboot :: "bool \<Rightarrow> 'k \<Rightarrow> 'k"
  os_setaffinity :: "usize \<Rightarrow> 'k \<Rightarrow> isize \<times> 'k"
  os_socket :: "'k \<Rightarrow> i32 \<times> 'k"
  os_sendto :: "i32 \<Rightarrow> u8 list \<Rightarrow> u8 list \<Rightarrow> u16 \<Rightarrow> 'k \<Rightarrow> isize \<times> 'k"
  os_recvfrom :: "i32 \<Rightarrow> nat \<Rightarrow> 'k \<Rightarrow> isize \<times> u8 list \<times> u8 list \<times> u16 \<times> 'k"

datatype 'a fin = Ret 'a | Exited i32 | Replaced

text \<open>\<open>print!\<close>: each piece of the formatted text is a \<open>write\<close> to descriptor 1.\<close>

definition say :: "'k os \<Rightarrow> u8 list list \<Rightarrow> 'k \<Rightarrow> 'k" where
  "say os pieces k = fold (\<lambda>s k. snd (os_write os 1 s k)) pieces k"

definition newline :: "u8 list" where [simp]: "newline = [10]"

text \<open>The pieces of a decimal number: the sign, then the digits.\<close>

definition say_int :: "int \<Rightarrow> u8 list list" where
  "say_int i = (if i < 0 then [str_bytes ''-''] else []) @ [str_bytes (fmt_dec (nat (abs i)))]"

end
