(* ===== verification/Shell_Path.thy ===== *)
theory Shell_Path
  imports Minix3
begin

text \<open>
  Path resolution in the shell (\<open>Cwd\<close> of \<open>userspace/shell\<close>): relative paths, \<open>.\<close> and \<open>..\<close> are resolved in place in an
  array of fixed size. The lemmas show that this is the textbook resolution on lists of components.
\<close>

section \<open>Paths\<close>

definition MAX_PATH :: nat where [simp]: "MAX_PATH = 120"

record Cwd =
  cw_buf :: "u8 list"
  cw_len :: nat

definition Cwd_new :: Cwd where
  "Cwd_new = \<lparr>cw_buf = (replicate MAX_PATH 0)[0 := 47], cw_len = 1\<rparr>"

definition str_or :: "u8 list \<Rightarrow> u8 list \<Rightarrow> u8 list" where
  "str_or bs dflt = (if utf8_valid bs then bs else dflt)"

definition Cwd_as_str :: "Cwd \<Rightarrow> u8 list" where
  "Cwd_as_str c = str_or (take (cw_len c) (cw_buf c)) [47]"

text \<open>Overwriting a slice of an array.\<close>

definition overwrite :: "u8 list \<Rightarrow> nat \<Rightarrow> u8 list \<Rightarrow> u8 list" where
  "overwrite out at xs = take at out @ xs @ drop (at + length xs) out"

text \<open>The \<open>while\<close> of the arm for \<open>..\<close>.\<close>

fun back_to_slash :: "u8 list \<Rightarrow> nat \<Rightarrow> nat" where
  "back_to_slash out len = (if len > 1 \<and> out ! (len - 1) \<noteq> 47 then back_to_slash out (len - 1) else len)"

declare back_to_slash.simps [simp del]

text \<open>One component; \<open>MAX_PATH - len - 1\<close> wraps when the array is full. \<open>None\<close> is the panic of a slice out of range.\<close>

definition room :: "nat \<Rightarrow> nat" where
  "room len = (if len < MAX_PATH then MAX_PATH - len - 1 else 2 ^ 64 - 1)"

definition resolve_comp :: "u8 list \<Rightarrow> u8 list \<times> nat \<Rightarrow> (u8 list \<times> nat) run" where
  "resolve_comp w st =
     (case st of (out, len) \<Rightarrow>
        if w = [46] then Some (out, len)
        else if w = [46, 46] then
          (let len = back_to_slash out len in Some (out, if len > 1 then len - 1 else len))
        else
          (let (out, len) =
                 (if len > 1 \<or> out ! 0 \<noteq> 47 \<or> len = 0 then
                    (if len + 1 < MAX_PATH then (out[len := 47], len + 1) else (out, len))
                  else (out, len));
               n = min (length w) (room len)
           in if len + n > MAX_PATH then None else Some (overwrite out len (take n w), len + n)))"

fun resolve_comps :: "u8 list list \<Rightarrow> u8 list \<times> nat \<Rightarrow> (u8 list \<times> nat) run" where
  "resolve_comps [] st = Some st"
| "resolve_comps (c # cs) st = do { st \<leftarrow> resolve_comp c st; resolve_comps cs st }"

definition is_absolute :: "u8 list \<Rightarrow> bool" where
  "is_absolute path \<longleftrightarrow> path \<noteq> [] \<and> hd path = 47"

definition Cwd_resolve :: "Cwd \<Rightarrow> u8 list \<Rightarrow> u8 list \<Rightarrow> u8 list run" where
  "Cwd_resolve c path out =
     do { let start = (if \<not> is_absolute path then (overwrite out 0 (take (cw_len c) (cw_buf c)), cw_len c) else (out[0 := 47], 1));
          (out, len) \<leftarrow> resolve_comps (filter (\<lambda>w. w \<noteq> []) (split_on 47 path)) start;
          let (out, len) = (if len = 0 then (out[0 := 47], 1) else (out, len));
          Some (str_or (take len out) [47]) }"

section \<open>Path resolution on components\<close>

text \<open>The reference: a path is its list of components, \<open>.\<close> is nothing and \<open>..\<close> drops the last one.\<close>

fun norm_step :: "u8 list list \<Rightarrow> u8 list \<Rightarrow> u8 list list" where
  "norm_step cs w = (if w = [46] then cs else if w = [46, 46] then butlast cs else cs @ [w])"

definition abs_path :: "u8 list list \<Rightarrow> u8 list" where
  "abs_path cs = (if cs = [] then [47] else concat (map (\<lambda>w. 47 # w) cs))"

definition names :: "u8 list list \<Rightarrow> bool" where
  "names cs \<longleftrightarrow> (\<forall>w \<in> set cs. w \<noteq> [] \<and> 47 \<notin> set w \<and> utf8_valid w)"

text \<open>The array holds the path of the components \<open>cs\<close>.\<close>

definition holds :: "u8 list \<times> nat \<Rightarrow> u8 list list \<Rightarrow> bool" where
  "holds st cs \<longleftrightarrow> length (fst st) = MAX_PATH \<and> snd st < MAX_PATH \<and> take (snd st) (fst st) = abs_path cs"

lemma abs_path_snoc: "cs \<noteq> [] \<Longrightarrow> abs_path (cs @ [w]) = abs_path cs @ 47 # w" "abs_path [w] = 47 # w"
  by (simp_all add: abs_path_def)

lemma holdsD:
  assumes "holds (out, len) cs"
  shows "length out = 120" "len < 120" "len = length (abs_path cs)" "take len out = abs_path cs"
  using assms by (auto simp: holds_def dest: arg_cong [of _ _ length])

lemma abs_path_utf8: "names cs \<Longrightarrow> utf8_valid (abs_path cs)"
proof (induction cs rule: rev_induct)
  case (snoc w cs)
  then show ?case
    by (cases "cs = []") (auto simp: abs_path_snoc names_def utf8_ascii_split utf8_lead(1) lead_def simp del: utf8_valid.simps(2))
qed (simp add: abs_path_def)

lemma abs_path_length: "names cs \<Longrightarrow> cs \<noteq> [] \<Longrightarrow> length (abs_path cs) > 1"
  by (cases cs) (auto simp: abs_path_def names_def neq_Nil_conv)

lemma overwrite_path:
  assumes "take len out = p" "len + length w < 120" "length out = 120" "len < 120"
  shows "take (len + length w) (overwrite out len w) = p @ w" "length (overwrite out len w) = 120"
  using assms by (auto simp: overwrite_def)

lemma push_component:
  assumes h: "holds (out, len) cs" and cs: "names cs" and w: "w \<noteq> [46]" "w \<noteq> [46, 46]" and fit: "length (abs_path (cs @ [w])) < 120"
  obtains st where "resolve_comp w (out, len) = Some st" "holds st (cs @ [w])"
proof (cases "cs = []")
  case True
  note H = holdsD [OF h]
  have len: "len = 1" using H(3) True by (simp add: abs_path_def)
  have hd: "out ! 0 = 47" using H(1,4) len True by (cases out) (auto simp: abs_path_def)
  have n: "min (length w) (room 1) = length w" using fit True by (simp add: abs_path_def room_def)
  show thesis
  proof (rule that)
    show "resolve_comp w (out, len) = Some (overwrite out 1 w, 1 + length w)"
      using w hd n fit True len by (simp add: resolve_comp_def abs_path_def)
    show "holds (overwrite out 1 w, 1 + length w) (cs @ [w])"
      using H(1,4) len fit True overwrite_path [of 1 out "[47]" w] by (simp add: holds_def abs_path_def)
  qed
next
  case False
  note H = holdsD [OF h]
  have long: "len > 1" using abs_path_length [OF cs False] H(3) by simp
  have sum: "len + 1 + length w < 120" using fit H(3) False by (simp add: abs_path_snoc)
  have n: "min (length w) (room (len + 1)) = length w" using sum by (simp add: room_def)
  have slash: "take (len + 1) (out[len := 47]) = abs_path cs @ [47]"
    using H by (simp add: take_Suc_conv_app_nth)
  show thesis
  proof (rule that)
    show "resolve_comp w (out, len) = Some (overwrite (out[len := 47]) (len + 1) w, len + 1 + length w)"
      using w n long sum by (simp add: resolve_comp_def)
    show "holds (overwrite (out[len := 47]) (len + 1) w, len + 1 + length w) (cs @ [w])"
      using overwrite_path [OF slash, of w] sum H(1) False by (simp add: holds_def abs_path_snoc)
  qed
qed

lemma back_to_slash_stops:
  assumes "n < len" "n = 0 \<or> out ! n = 47" "\<And>i. n < i \<Longrightarrow> i < len \<Longrightarrow> out ! i \<noteq> 47"
  shows "back_to_slash out len = Suc n"
  using assms
proof (induction len)
  case (Suc m)
  show ?case
  proof (cases "m = n")
    case True
    then show ?thesis using Suc.prems(2) by (subst back_to_slash.simps) auto
  next
    case False
    then have "n < m" "out ! m \<noteq> 47" using Suc.prems(1,3) by auto
    then show ?thesis using Suc by (subst back_to_slash.simps) auto
  qed
qed simp

lemma pop_component:
  assumes h: "holds (out, len) cs" and cs: "names cs"
  obtains st where "resolve_comp [46, 46] (out, len) = Some st" "holds st (butlast cs)"
proof (cases cs rule: rev_cases)
  case Nil
  have "len = 1" using holdsD(3) [OF h] Nil by (simp add: abs_path_def)
  moreover have "back_to_slash out 1 = 1" by (subst back_to_slash.simps) simp
  ultimately show thesis using that [of "(out, len)"] h Nil by (simp add: resolve_comp_def)
next
  case (snoc ds w)
  note H = holdsD [OF h]
  let ?n = "length (concat (map (\<lambda>w. 47 # w) ds))"
  have p: "take len out = concat (map (\<lambda>w. 47 # w) ds) @ 47 # w" and len: "len = ?n + 1 + length w"
    using H(3,4) snoc by (simp_all add: abs_path_def)
  have at: "out ! i = (concat (map (\<lambda>w. 47 # w) ds) @ 47 # w) ! i" if "i < len" for i
    using that p by (metis nth_take)
  have w: "47 \<notin> set w" using cs snoc by (auto simp: names_def)
  have "out ! i \<noteq> 47" if "?n < i" "i < len" for i
  proof -
    have "i - Suc ?n < length w" "out ! i = w ! (i - Suc ?n)" using that len at [of i] by (auto simp: nth_append nth_Cons')
    then show ?thesis using w by (metis nth_mem)
  qed
  then have "back_to_slash out len = Suc ?n"
    by (intro back_to_slash_stops) (auto simp: at len nth_append)
  then have r: "resolve_comp [46, 46] (out, len) = Some (out, if ?n = 0 then 1 else ?n)"
    by (simp add: resolve_comp_def)
  have ds: "?n = 0 \<longleftrightarrow> ds = []" by auto
  have "take ?n out = concat (map (\<lambda>w. 47 # w) ds)" using arg_cong [OF p, of "take ?n"] len by simp
  moreover have "take 1 out = [47]" if "ds = []" using arg_cong [OF p, of "take 1"] that len by simp
  ultimately have "holds (out, if ?n = 0 then 1 else ?n) (butlast cs)"
    using H(1,2) len snoc by (auto simp: holds_def abs_path_def ds)
  then show thesis by (rule that [OF r])
qed

lemma names_step: "names cs \<Longrightarrow> names [w] \<Longrightarrow> names (norm_step cs w)"
  by (auto simp: names_def dest: in_set_butlastD)

lemma names_fold: "names cs \<Longrightarrow> names ws \<Longrightarrow> names (foldl norm_step cs ws)"
proof (induction ws arbitrary: cs)
  case (Cons w ws)
  have w: "names [w]" "names ws" using Cons.prems(2) by (simp_all add: names_def)
  show ?case unfolding foldl.simps by (rule Cons.IH [OF names_step [OF Cons.prems(1) w(1)] w(2)])
qed simp

lemma resolve_component:
  assumes h: "holds (out, len) cs" and cs: "names cs" and fit: "len + length w + 1 < 120"
  shows "\<exists>st. resolve_comp w (out, len) = Some st \<and> holds st (norm_step cs w) \<and> snd st \<le> len + length w + 1"
proof -
  have len: "length (abs_path cs) = len" using holdsD(3) [OF h] by simp
  have size: "snd st = length (abs_path ds)" if "holds st ds" for st ds
    using holdsD(3) [of "fst st" "snd st" ds] that by simp
  consider "w = [46]" | "w = [46, 46]" | "w \<noteq> [46]" "w \<noteq> [46, 46]" by blast
  then show ?thesis
  proof cases
    case 1
    then show ?thesis using h by (simp add: resolve_comp_def)
  next
    case 2
    obtain st where "resolve_comp [46, 46] (out, len) = Some st" "holds st (butlast cs)"
      by (rule pop_component [OF h cs])
    moreover have "length (abs_path (butlast cs)) \<le> len + 2"
      unfolding len [symmetric] by (cases cs rule: rev_cases) (auto simp: abs_path_def)
    ultimately show ?thesis using size [of st "butlast cs"] 2 by simp
  next
    case 3
    have "length (abs_path (cs @ [w])) \<le> len + length w + 1"
      unfolding len [symmetric] by (cases "cs = []") (simp_all add: abs_path_def)
    moreover from this fit have "length (abs_path (cs @ [w])) < 120" by linarith
    then obtain st where "resolve_comp w (out, len) = Some st" "holds st (cs @ [w])"
      by (rule push_component [OF h cs 3])
    ultimately show ?thesis using size [of st "cs @ [w]"] 3 by simp
  qed
qed

lemma resolve_components:
  "holds (out, len) cs \<Longrightarrow> names cs \<Longrightarrow> names ws \<Longrightarrow> len + length (concat (map (\<lambda>w. 47 # w) ws)) < 120 \<Longrightarrow>
   \<exists>st. resolve_comps ws (out, len) = Some st \<and> holds st (foldl norm_step cs ws)"
proof (induction ws arbitrary: out len cs)
  case (Cons w ws)
  have w: "names [w]" "names ws" using Cons.prems(3) by (simp_all add: names_def)
  have "len + length w + 1 < 120" using Cons.prems(4) by simp
  from resolve_component [OF Cons.prems(1,2) this] obtain out' len' where
    st: "resolve_comp w (out, len) = Some (out', len')" "holds (out', len') (norm_step cs w)" "len' \<le> len + length w + 1" by auto
  have "len' + length (concat (map (\<lambda>w. 47 # w) ws)) < 120" using st(3) Cons.prems(4) by simp
  from Cons.IH [OF st(2) names_step [OF Cons.prems(2) w(1)] w(2) this] show ?case using st(1) by simp
qed simp

lemma split_on_first:
  obtains "c \<notin> set p" "split_on c p = [p]" | w q where "p = w @ c # q" "c \<notin> set w" "split_on c p = w # split_on c q"
proof (cases "c \<in> set p")
  case True
  then obtain w q where p: "p = w @ c # q" "c \<notin> set w" by (metis split_list_first)
  moreover have "split_on c w = [w]" using p(2) by (induction w) auto
  ultimately show thesis using that(2) by (simp add: split_on_append)
next
  case False
  then have "split_on c p = [p]" by (induction p) auto
  with False show thesis by (rule that(1))
qed

lemma split_names:
  "utf8_valid p \<Longrightarrow> names (filter (\<lambda>w. w \<noteq> []) (split_on 47 p)) \<and>
   length (concat (map (\<lambda>w. 47 # w) (filter (\<lambda>w. w \<noteq> []) (split_on 47 p)))) \<le> length p + 1"
proof (induction "length p" arbitrary: p rule: less_induct)
  case less
  show ?case
  proof (rule split_on_first [of 47 p])
    assume "47 \<notin> set p" "split_on 47 p = [p]"
    then show ?thesis using less.prems by (simp add: names_def)
  next
    fix w q assume a: "p = w @ 47 # q" "47 \<notin> set w" "split_on 47 p = w # split_on 47 q"
    have "utf8_valid w" "utf8_valid q" using less.prems a(1) by (simp_all add: utf8_ascii_split)
    then show ?thesis using less.hyps [of q] a by (auto simp: names_def)
  qed
qed

text \<open>
  C38: resolving a path in the shell is resolving its components: for a working directory with components \<open>cs\<close>
  and a path that fits the array, the result is the absolute path of the components one gets by going through
  those of the path, starting from the root if it is absolute.
\<close>

theorem shell_resolve_equiv:
  assumes "length (cw_buf c) = MAX_PATH" "take (cw_len c) (cw_buf c) = abs_path cs" "names cs"
    and "utf8_valid path" "length out = MAX_PATH" "cw_len c + length path + 1 < MAX_PATH"
  shows "Cwd_resolve c path out =
    Some (abs_path (foldl norm_step (if is_absolute path then [] else cs) (filter (\<lambda>w. w \<noteq> []) (split_on 47 path))))"
proof -
  let ?ws = "filter (\<lambda>w. w \<noteq> []) (split_on 47 path)" and ?cs = "if is_absolute path then [] else cs"
  define start where "start = (if \<not> is_absolute path then (overwrite out 0 (take (cw_len c) (cw_buf c)), cw_len c) else (out[0 := 47], 1))"
  have len: "cw_len c = length (abs_path cs)" using arg_cong [OF assms(2), of length] assms(1,6) by simp
  have pos: "length (abs_path cs) > 0" by (cases cs) (simp_all add: abs_path_def)
  have "take 1 (out[0 := 47]) = [47]" using assms(5) by (cases out) simp_all
  then have "holds start ?cs"
    using assms(1,2,5,6) len by (auto simp: start_def holds_def overwrite_def abs_path_def)
  moreover have ws: "names ?ws" "length (concat (map (\<lambda>w. 47 # w) ?ws)) \<le> length path + 1"
    using split_names [OF assms(4)] by simp_all
  moreover have "snd start + length (concat (map (\<lambda>w. 47 # w) ?ws)) < 120"
    using ws(2) assms(6) len pos by (cases "is_absolute path") (simp_all add: start_def del: length_greater_0_conv)
  moreover have "names ?cs" using assms(3) by (simp add: names_def)
  ultimately obtain out' len' where r: "resolve_comps ?ws start = Some (out', len')" "holds (out', len') (foldl norm_step ?cs ?ws)"
    using resolve_components [of "fst start" "snd start" ?cs ?ws] by fastforce
  note H = holdsD [OF r(2)]
  have "names (foldl norm_step ?cs ?ws)" using \<open>names ?cs\<close> ws(1) by (rule names_fold)
  moreover have "len' \<noteq> 0" using H(3) by (simp add: abs_path_def)
  ultimately show ?thesis
    using r(1) H(4) abs_path_utf8 [of "foldl norm_step ?cs ?ws"] by (simp add: Cwd_resolve_def str_or_def flip: start_def)
qed

theorem shell_resolve_equiv_witness:
  "Cwd_resolve \<lparr>cw_buf = str_bytes ''/usr/bin'' @ replicate 112 0, cw_len = 8\<rparr> (str_bytes ''../lib//./x'') (replicate 120 0) =
     Some (str_bytes ''/usr/lib/x'')"
proof -
  let ?c = "\<lparr>cw_buf = str_bytes ''/usr/bin'' @ replicate 112 0, cw_len = 8\<rparr>" and ?cs = "[str_bytes ''usr'', str_bytes ''bin'']"
  have "names ?cs" "utf8_valid (str_bytes ''../lib//./x'')" by code_simp+
  moreover have "length (cw_buf ?c) = MAX_PATH" "take (cw_len ?c) (cw_buf ?c) = abs_path ?cs"
    by (simp_all add: str_bytes_def abs_path_def)
  moreover have "filter (\<lambda>w. w \<noteq> []) (split_on 47 (str_bytes ''../lib//./x'')) = [str_bytes ''..'', str_bytes ''lib'', str_bytes ''.'', str_bytes ''x'']"
    "is_absolute (str_bytes ''../lib//./x'') = False"
    by (simp_all add: str_bytes_def is_absolute_def)
  ultimately show ?thesis
    using shell_resolve_equiv [of ?c ?cs "str_bytes ''../lib//./x''" "replicate 120 0"]
    by (simp add: str_bytes_def abs_path_def)
qed

end
