(* ===== verification/Shell.thy ===== *)
theory Shell
  imports Libc Shell_Path Kernel_Run
begin

text \<open>
  \<open>userspace/shell\<close>: the shell, over the interface of \<open>Libc\<close>. Lines and buffers are arrays of fixed size; an index out of
  range is a panic, which ends the process. \<open>None\<close> is a loop that does not end. The lemmas show that \<open>ls\<close> shows what
  the kernel's directory reader packed.
\<close>

section \<open>Reading a line\<close>

definition MAX_LINE :: nat where [simp]: "MAX_LINE = 256"

partial_function (option) read_line :: "'k os \<Rightarrow> u8 list \<Rightarrow> nat \<Rightarrow> 'k \<Rightarrow> (u8 list \<times> nat \<times> 'k) option" where
  "read_line os buf len k =
     (case os_read os 0 1 k of (n, bs, k) \<Rightarrow>
        if sint n \<le> 0 then Some (buf, len, k)
        else (let b = hd (bs @ [0]) in
              if b = 10 then Some (buf, len, k)
              else if b = 0x7f \<or> b = 8 then read_line os buf (len - 1) k
              else if len < MAX_LINE - 1 then read_line os (buf[len := b]) (len + 1) k
              else read_line os buf len k))"

section \<open>Listing and showing files\<close>

text \<open>
  The name in a directory record: up to the first NUL of the record, else to its end. \<open>None\<close> is a panic: the
  search or the slice leaves the buffer, or the record is shorter than its fixed part.
\<close>

definition ls_name :: "u8 list \<Rightarrow> nat \<Rightarrow> nat \<Rightarrow> u8 list option" where
  "ls_name buf off rl =
     (case position (\<lambda>b. b = 0) (take (rl - 19) (drop (off + 19) buf)) of
        Some j \<Rightarrow> Some (take j (drop (off + 19) buf))
      | None \<Rightarrow> if rl < 19 \<or> off + rl > length buf then None else Some (take (rl - 19) (drop (off + 19) buf)))"

partial_function (option) ls_records :: "'k os \<Rightarrow> u8 list \<Rightarrow> nat \<Rightarrow> nat \<Rightarrow> 'k \<Rightarrow> (unit fin \<times> 'k) option" where
  "ls_records os buf n off k =
     (if off + 19 < n then
        (if off + 18 \<ge> length buf then Some (Exited 101, k)
         else (let rl = unat (from_le_bytes [buf ! (off + 16), buf ! (off + 17)] :: u16);
                   dtype = buf ! (off + 18)
               in case ls_name buf off rl of
                    None \<Rightarrow> Some (Exited 101, k)
                  | Some name \<Rightarrow>
                      (let k = (if utf8_valid name then say os [name, str_bytes (if dtype = 4 then ''/  '' else ''  '')] k else k)
                       in ls_records os buf n (off + rl) k)))
      else Some (Ret (), k))"

partial_function (option) ls_loop :: "'k os \<Rightarrow> i32 \<Rightarrow> u8 list \<Rightarrow> 'k \<Rightarrow> (unit fin \<times> 'k) option" where
  "ls_loop os fd buf k =
     (case os_getdents64 os fd 512 k of (n, bs, k) \<Rightarrow>
        if sint n \<le> 0 then Some (Ret (), k)
        else (let buf = overwrite buf 0 bs in
              Option.bind (ls_records os buf (unat n) 0 k) (\<lambda>(r, k).
                case r of Ret _ \<Rightarrow> ls_loop os fd buf k | _ \<Rightarrow> Some (r, k))))"

definition cmd_ls :: "'k os \<Rightarrow> u8 list \<Rightarrow> 'k \<Rightarrow> (unit fin \<times> 'k) option" where
  "cmd_ls os path k =
     (let (fd, k) = os_open os path libc_O_DIRECTORY k in
      if sint fd < 0 then
        Some (Ret (), say os ([str_bytes ''ls: cannot open '', path, str_bytes '': error ''] @ say_int (sint fd) @ [newline]) k)
      else do { (r, k) \<leftarrow> ls_loop os fd (replicate 512 0) k;
                Some (case r of Ret _ \<Rightarrow> (Ret (), os_close os fd (say os [newline] k)) | _ \<Rightarrow> (r, k)) })"

partial_function (option) cat_loop :: "'k os \<Rightarrow> i32 \<Rightarrow> u8 list \<Rightarrow> 'k \<Rightarrow> (unit fin \<times> 'k) option" where
  "cat_loop os fd buf k =
     (case os_read os fd 256 k of (n, bs, k) \<Rightarrow>
        if sint n \<le> 0 then Some (Ret (), k)
        else (let buf = overwrite buf 0 bs in
              if unat n > length buf then Some (Exited 101, k)
              else cat_loop os fd buf (snd (os_write os 1 (take (unat n) buf) k))))"

definition cmd_cat :: "'k os \<Rightarrow> u8 list \<Rightarrow> 'k \<Rightarrow> (unit fin \<times> 'k) option" where
  "cmd_cat os path k =
     (let (fd, k) = os_open os path 0 k in
      if sint fd < 0 then
        Some (Ret (), say os ([str_bytes ''cat: cannot open '', path, str_bytes '': error ''] @ say_int (sint fd) @ [newline]) k)
      else do { (r, k) \<leftarrow> cat_loop os fd (replicate 256 0) k;
                Some (case r of Ret _ \<Rightarrow> (Ret (), os_close os fd k) | _ \<Rightarrow> (r, k)) })"

section \<open>Commands\<close>

definition bin_path :: "u8 list \<Rightarrow> u8 list" where
  "bin_path cmd = str_or (str_bytes ''/bin/'' @ take (min (length cmd) (MAX_PATH - 6)) cmd) cmd"

definition run_external :: "'k os \<Rightarrow> Cwd \<Rightarrow> u8 list \<Rightarrow> 'k \<Rightarrow> unit fin \<times> 'k" where
  "run_external os cwd cmd k =
     (case (if 47 \<in> set cmd then Cwd_resolve cwd cmd (replicate MAX_PATH 0) else Some (bin_path cmd)) of
        None \<Rightarrow> (Exited 101, k)
      | Some path \<Rightarrow>
          (let (pid, k) = os_fork os k in
           if pid = 0 then
             (let (replaced, k) = os_exec os path k in
              if replaced then (Replaced, k)
              else (Exited 127, say os [str_bytes ''sh: '', cmd, str_bytes '': command not found'' @ newline] k))
           else if sint pid > 0 then
             (let (_, status, k) = os_wait os k; code = sint status div 2 ^ 8 in
              (Ret (), if code \<noteq> 0 then say os ([str_bytes ''sh: '', cmd, str_bytes '' exited with code ''] @ say_int code @ [newline]) k
                       else k))
           else (Ret (), say os [str_bytes ''sh: fork failed'' @ newline] k)))"

definition prompt :: "Cwd \<Rightarrow> u8 list list" where
  "prompt cwd = [str_bytes ''lightos:'', Cwd_as_str cwd, str_bytes ''$ '']"

text \<open>A right-aligned number: the padding is written character by character.\<close>

definition say_right :: "nat \<Rightarrow> nat \<Rightarrow> u8 list list" where
  "say_right w n = (let ds = str_bytes (fmt_dec n) in replicate (w - length ds) [32] @ [ds])"

definition say_free :: "SysInfo \<Rightarrow> u8 list list" where
  "say_free si =
     (let used = unat (total_ram si) - unat (free_ram si) in
      [str_bytes ''         total       used       free'' @ newline] @
      [str_bytes ''RAM  ''] @ say_right 8 (unat (total_ram si) div 1024) @ [str_bytes '' KiB ''] @
      say_right 6 (used div 1024) @ [str_bytes '' KiB ''] @ say_right 6 (unat (free_ram si) div 1024) @ [str_bytes '' KiB'' @ newline])"

text \<open>The arms of the command \<open>match\<close> that change the working directory or show files.\<close>

definition cmd_cd :: "'k os \<Rightarrow> Cwd \<Rightarrow> u8 list \<Rightarrow> 'k \<Rightarrow> Cwd fin \<times> 'k" where
  "cmd_cd os cwd arg k =
     (case Cwd_resolve cwd (if arg = [] then [47] else arg) (replicate MAX_PATH 0) of
        None \<Rightarrow> (Exited 101, k)
      | Some path \<Rightarrow>
          (let (fd, k) = os_open os path libc_O_DIRECTORY k in
           if sint fd < 0 then (Ret cwd, say os [str_bytes ''cd: '', path, str_bytes '': not a directory'' @ newline] k)
           else (Ret (cwd\<lparr>cw_buf := overwrite (cw_buf cwd) 0 path, cw_len := length path\<rparr>), os_close os fd k)))"

definition then_cwd :: "Cwd \<Rightarrow> unit fin \<times> 'k \<Rightarrow> Cwd fin \<times> 'k" where
  "then_cwd cwd rk = (case rk of (Ret _, k) \<Rightarrow> (Ret cwd, k) | (Exited c, k) \<Rightarrow> (Exited c, k) | (Replaced, k) \<Rightarrow> (Replaced, k))"

definition ls_arm :: "'k os \<Rightarrow> Cwd \<Rightarrow> u8 list \<Rightarrow> 'k \<Rightarrow> (Cwd fin \<times> 'k) option" where
  "ls_arm os cwd arg k =
     (let target = (if arg = [] then Cwd_as_str cwd else arg) in
      case (if is_absolute target \<and> arg = [] then Some target else Cwd_resolve cwd target (replicate MAX_PATH 0)) of
        None \<Rightarrow> Some (Exited 101, k)
      | Some path \<Rightarrow> map_option (then_cwd cwd) (cmd_ls os path k))"

definition cat_arm :: "'k os \<Rightarrow> Cwd \<Rightarrow> u8 list \<Rightarrow> 'k \<Rightarrow> (Cwd fin \<times> 'k) option" where
  "cat_arm os cwd arg k =
     (if arg = [] then Some (Ret cwd, say os [str_bytes ''cat: missing operand'' @ newline] k)
      else (case Cwd_resolve cwd arg (replicate MAX_PATH 0) of
        None \<Rightarrow> Some (Exited 101, k)
      | Some path \<Rightarrow> map_option (then_cwd cwd) (cmd_cat os path k)))"

definition ps_arm :: "'k os \<Rightarrow> Cwd \<Rightarrow> 'k \<Rightarrow> Cwd fin \<times> 'k" where
  "ps_arm os cwd k =
     (let (n, bs, k) = os_proclist os 1024 k; buf = overwrite (replicate 1024 0) 0 bs in
      if sint n > 0 then (if unat n > 1024 then (Exited 101, k) else (Ret cwd, snd (os_write os 1 (take (unat n) buf) k)))
      else (Ret cwd, k))"

text \<open>One command line; \<open>text\<close> is trimmed, and the argument is what follows the first space.\<close>

definition shell_command :: "'k os \<Rightarrow> Cwd \<Rightarrow> u8 list \<Rightarrow> 'k \<Rightarrow> (Cwd fin \<times> 'k) option" where
  "shell_command os cwd line k =
     (let txt = trim line;
          cmd = takeWhile (\<lambda>b. b \<noteq> 32) txt;
          arg = trim (drop (length cmd + 1) txt)
      in if cmd = [] then Some (Ret cwd, k)
         else if cmd = str_bytes ''help'' then
           Some (Ret cwd, say os [str_bytes ''builtins: cd pwd ls cat echo clear uname uptime free ps'' @ newline,
             str_bytes ''          help exit reboot poweroff; else runs /bin/<cmd>'' @ newline] k)
         else if cmd = str_bytes ''exit'' then Some (Exited 0, k)
         else if cmd = str_bytes ''pwd'' then Some (Ret cwd, say os [Cwd_as_str cwd, newline] k)
         else if cmd = str_bytes ''echo'' then Some (Ret cwd, say os [arg, newline] k)
         else if cmd = str_bytes ''clear'' then Some (Ret cwd, say os [[0x1b] @ str_bytes ''[2J'' @ [0x1b] @ str_bytes ''[H''] k)
         else if cmd = str_bytes ''uname'' then Some (Ret cwd, say os [str_bytes ''LightOS 0.1.0 riscv64 QEMU-virt'' @ newline] k)
         else if cmd = str_bytes ''uptime'' then
           (let (si, k) = os_sysinfo os k in
            Some (Ret cwd, say os [str_bytes ''up '', str_bytes (fmt_dec (unat (uptime_secs si))), str_bytes '' seconds, '',
              str_bytes (fmt_dec (unat (procs si))), str_bytes '' processes running'' @ newline] k))
         else if cmd = str_bytes ''free'' then (let (si, k) = os_sysinfo os k in Some (Ret cwd, say os (say_free si) k))
         else if cmd = str_bytes ''ps'' then Some (ps_arm os cwd k)
         else if cmd = str_bytes ''poweroff'' \<or> cmd = str_bytes ''halt'' then
           Some (Ret cwd, say os [str_bytes ''poweroff: not permitted'' @ newline] (os_reboot os False k))
         else if cmd = str_bytes ''reboot'' then
           Some (Ret cwd, say os [str_bytes ''reboot: not permitted'' @ newline] (os_reboot os True k))
         else if cmd = str_bytes ''cd'' then Some (cmd_cd os cwd arg k)
         else if cmd = str_bytes ''ls'' then ls_arm os cwd arg k
         else if cmd = str_bytes ''cat'' then cat_arm os cwd arg k
         else Some (then_cwd cwd (run_external os cwd txt k)))"

partial_function (option) shell_loop :: "'k os \<Rightarrow> Cwd \<Rightarrow> u8 list \<Rightarrow> 'k \<Rightarrow> (i32 option \<times> 'k) option" where
  "shell_loop os cwd line k =
     Option.bind (read_line os line 0 (say os (prompt cwd) k)) (\<lambda>(line, len, k).
       if \<not> utf8_valid (take len line) then shell_loop os cwd line k
       else Option.bind (shell_command os cwd (take len line) k) (\<lambda>(r, k).
         case r of Ret cwd \<Rightarrow> shell_loop os cwd line k | Exited c \<Rightarrow> Some (Some c, k) | Replaced \<Rightarrow> Some (None, k)))"

definition shell_main :: "'k os \<Rightarrow> 'k \<Rightarrow> (i32 option \<times> 'k) option" where
  "shell_main os k =
     (let (pid, k) = os_getpid os k;
          k = say os ([str_bytes ''LightOS sh v0.1 (pid ''] @ say_int (sint pid) @
                [str_bytes '') '' @ [0xe2, 0x80, 0x94] @ str_bytes '' type '' @ [39] @ str_bytes ''help'' @ [39] @ newline]) k
      in shell_loop os Cwd_new (replicate MAX_LINE 0) k)"

section \<open>What \<open>ls\<close> shows of the kernel's directory records\<close>

text \<open>A directory entry: inode, sequence number, whether it is a directory, and its name.\<close>

type_synonym dirent = "u32 \<times> nat \<times> bool \<times> u8 list"

definition record_bytes :: "dirent \<Rightarrow> u8 list" where
  "record_bytes d = (case d of (ino, sq, dir, name) \<Rightarrow> dirent64 ino sq dir name)"

definition shown :: "u8 list \<times> bool \<Rightarrow> u8 list list" where
  "shown e = (case e of (name, dir) \<Rightarrow> [name, str_bytes (if dir then ''/  '' else ''  '')])"

definition dir_entry :: "dirent \<Rightarrow> u8 list \<times> bool" where
  "dir_entry d = (case d of (ino, sq, dir, name) \<Rightarrow> (name, dir))"

lemma record_simps [simp]:
  "record_bytes (ino, sq, dir, name) = dirent64 ino sq dir name" "dir_entry (ino, sq, dir, name) = (name, dir)"
  by (simp_all add: record_bytes_def dir_entry_def)

text \<open>An entry of the directory as the file system has it, with its kind.\<close>

definition entry_kind :: "'d env \<Rightarrow> 'd kernel \<Rightarrow> u8 list \<times> u32 \<Rightarrow> u8 list \<times> bool" where
  "entry_kind e s en = (case en of (name, ino) \<Rightarrow> (name, case fs_inode (blk e) (ROOT s) ino of Inr i \<Rightarrow> is_dir i | Inl _ \<Rightarrow> False))"

definition good_name :: "u8 list \<Rightarrow> bool" where
  "good_name name \<longleftrightarrow> 0 \<notin> set name \<and> utf8_valid name \<and> length name \<le> 60"

lemma dirent64_parts:
  assumes "length name \<le> 60"
  obtains pre pad where "dirent64 ino sq dir name = pre @ to_le_bytes 2 (word_of_nat (reclen name) :: u16) @ [if dir then 4 else 8] @ name @ 0 # pad"
    "length pre = 16" "length (dirent64 ino sq dir name) = reclen name" "19 + length name < reclen name" "unat (word_of_nat (reclen name) :: u16) = reclen name"
proof -
  have r: "20 + length name \<le> reclen name" "reclen name < 100" using assms by (auto simp: reclen_def)
  show thesis
    by (rule that [of "to_le_bytes 8 (ucast ino :: u64) @ to_le_bytes 8 (word_of_nat sq :: u64)"])
       (use r in \<open>simp_all add: dirent64_def Let_def byte_simps unat_of_nat\<close>)
qed

lemma length_dirent64: "length (dirent64 ino sq dir name) = reclen name"
proof -
  have "20 + length name \<le> reclen name" by (simp add: reclen_def)
  then show ?thesis by (simp add: dirent64_def Let_def byte_simps)
qed

lemma position_at: "x \<notin> set xs \<Longrightarrow> position (\<lambda>b. b = x) (xs @ x # ys) = Some (length xs)"
  by (induction xs) auto

text \<open>One record at the front of what is left of the buffer.\<close>

lemma ls_records_step:
  assumes d: "d = (ino, sq, dir, name)" "good_name name" and n: "n \<le> length buf"
    and at: "drop off (take n buf) = record_bytes d @ rest"
  shows "ls_records os buf n off k = ls_records os buf n (off + reclen name) (say os (shown (name, dir)) k)" "drop (off + reclen name) (take n buf) = rest"
proof -
  obtain pre pad where p: "dirent64 ino sq dir name = pre @ to_le_bytes 2 (word_of_nat (reclen name) :: u16) @ [if dir then 4 else 8] @ name @ 0 # pad"
    "length pre = 16" "length (dirent64 ino sq dir name) = reclen name" "19 + length name < reclen name" "unat (word_of_nat (reclen name) :: u16) = reclen name"
    using dirent64_parts d(2) unfolding good_name_def by metis
  have rl: "length (record_bytes d) = reclen name" by (simp add: record_bytes_def d(1) p(3))
  show rest: "drop (off + reclen name) (take n buf) = rest"
    using arg_cong [OF at, of "drop (reclen name)"] rl by (simp add: add.commute)
  have len: "n - off = reclen name + length rest" "off \<le> n" using arg_cong [OF at, of length] n rl p(4) by auto
  obtain a b where ab: "to_le_bytes 2 (word_of_nat (reclen name) :: u16) = [a, b]"
    using length2_conv [of "to_le_bytes 2 (word_of_nat (reclen name) :: u16)"] by (auto simp: byte_simps)
  then have u: "from_le_bytes [a, b] = (word_of_nat (reclen name) :: u16)" by (metis from_to_le_u16)
  have tail: "drop off (take n buf) = pre @ a # b # (if dir then 4 else 8) # name @ 0 # pad @ rest"
    using at p(1) ab by (simp add: record_bytes_def d(1))
  have nth: "buf ! (off + i) = (pre @ a # b # (if dir then 4 else 8) # name @ 0 # pad @ rest) ! i" if "i < 19" for i
    using that len n p(4) unfolding tail [symmetric] by simp
  have f: "buf ! (off + 16) = a" "buf ! (off + 17) = b" "buf ! (off + 18) = (if dir then 4 else 8)"
    by (simp_all add: nth nth_append p(2))
  have "drop 19 (drop off (take n buf)) = name @ 0 # pad @ rest" unfolding tail by (simp add: p(2) drop_Cons')
  then have "drop (off + 19) (take n buf) = name @ 0 # pad @ rest" by (simp add: add.commute)
  then have whole: "take (n - (off + 19)) (drop (off + 19) buf) = name @ 0 # pad @ rest" by (simp only: drop_take)
  have part: "take j (drop (off + 19) buf) = take j (name @ 0 # pad @ rest)" if "j \<le> n - (off + 19)" for j
    unfolding whole [symmetric] take_take using that by (simp only: min.absorb1)
  have m: "reclen name - 19 = length name + Suc (reclen name - 20 - length name)" using p(4) by simp
  have r19: "reclen name - 19 \<le> n - (off + 19)" using len by linarith
  have first: "take (reclen name - 19) (drop (off + 19) buf) = name @ 0 # take (reclen name - 20 - length name) (pad @ rest)"
    unfolding part [OF r19] by (simp only: m take_append) simp
  have "length name \<le> n - (off + 19)" using len p(4) by linarith
  from part [OF this] have "take (length name) (drop (off + 19) buf) = name" by simp
  moreover have "position (\<lambda>b. b = 0) (name @ 0 # take (reclen name - 20 - length name) (pad @ rest)) = Some (length name)"
    using d(2) by (intro position_at) (simp add: good_name_def)
  ultimately have name: "ls_name buf off (reclen name) = Some name" unfolding ls_name_def first by (simp only: option.case)
  have "off + 19 < n" "\<not> off + 18 \<ge> length buf" using len n p(4) by auto
  then show "ls_records os buf n off k = ls_records os buf n (off + reclen name) (say os (shown (name, dir)) k)"
    using d(2) by (subst ls_records.simps) (simp add: f u p(5) name shown_def good_name_def Let_def del: from_le_bytes.simps)
qed

lemma ls_records_shows:
  "\<forall>(ino, sq, dir, name) \<in> set ds. good_name name \<Longrightarrow> n \<le> length buf \<Longrightarrow> drop off (take n buf) = concat (map record_bytes ds) \<Longrightarrow>
   off \<le> n \<Longrightarrow> ls_records os buf n off k = Some (Ret (), fold (say os \<circ> shown) (map dir_entry ds) k)"
proof (induction ds arbitrary: off k)
  case Nil
  then show ?case by (subst ls_records.simps) simp
next
  case (Cons d ds)
  obtain ino sq dir name where d: "d = (ino, sq, dir, name)" by (cases d) auto
  have g: "good_name name" using Cons.prems(1) d by simp
  have at: "drop off (take n buf) = record_bytes d @ concat (map record_bytes ds)" using Cons.prems(3) by simp
  note S = ls_records_step [OF d g Cons.prems(2) at]
  have "length (record_bytes d) = reclen name"
    using g unfolding record_bytes_def d good_name_def by (auto intro: dirent64_parts [of name])
  then have "off + reclen name \<le> n" using arg_cong [OF at, of length] Cons.prems(2,4) by simp
  then show ?case unfolding S(1) using Cons.IH [OF _ Cons.prems(2) S(2)] Cons.prems(1) by (simp add: d dir_entry_def)
qed

text \<open>What the kernel's record loop packs.\<close>

lemma pack_dirents_records:
  assumes "pack_dirents e s cap start consumed out es = (out', consumed')"
  shows "\<exists>ds. out' = out @ concat (map record_bytes ds) \<and> map dir_entry ds = map (entry_kind e s) (take (consumed' - consumed) es) \<and>
    consumed \<le> consumed'"
  using assms
proof (induction e s cap start consumed out es rule: pack_dirents.induct)
  case (2 e s cap start consumed out name ino es)
  show ?case
  proof (cases "length out + reclen name > cap")
    case True
    then show ?thesis using 2(2) by (intro exI [of _ "[]"]) simp
  next
    case False
    define dir where "dir = (case fs_inode (blk e) (ROOT s) ino of Inr i \<Rightarrow> is_dir i | Inl _ \<Rightarrow> False)"
    obtain ds where ds: "out' = (out @ dirent64 ino (start + consumed + 1) dir name) @ concat (map record_bytes ds)"
      "map dir_entry ds = map (entry_kind e s) (take (consumed' - (consumed + 1)) es)" "consumed + 1 \<le> consumed'"
      using 2(1) [OF False dir_def] 2(2) False by (auto simp: dir_def Let_def)
    have "consumed' - consumed = Suc (consumed' - (consumed + 1))" using ds(3) by simp
    then show ?thesis
      using ds by (intro exI [of _ "(ino, start + consumed + 1, dir, name) # ds"])
        (simp add: entry_kind_def [of e s "(name, ino)"] dir_def)
  qed
qed (auto intro!: exI [of _ "[]"])

text \<open>
  C39: \<open>ls\<close> shows what the kernel packed. When the record loop of \<open>getdents64\<close> has put the first \<open>c\<close> entries of a directory
  into the buffer, \<open>ls\<close> goes through the buffer without a panic and writes, for each of these entries in order, its
  name and a separator, with a slash behind the names of directories.
\<close>

theorem ls_shows_directory:
  assumes "pack_dirents e s cap start 0 [] es = (out, c)" "\<forall>en \<in> set es. good_name (fst en)"
  shows "ls_records os (overwrite buf 0 out) (length out) 0 k =
    Some (Ret (), fold (say os \<circ> shown) (map (entry_kind e s) (take c es)) k)"
proof -
  obtain ds where ds: "out = concat (map record_bytes ds)" "map dir_entry ds = map (entry_kind e s) (take c es)"
    using pack_dirents_records [OF assms(1)] by auto
  have "\<forall>(ino, sq, dir, name) \<in> set ds. good_name name"
  proof clarify
    fix ino sq dir name assume "(ino, sq, dir, name) \<in> set ds"
    then have "(name, dir) \<in> set (map (entry_kind e s) (take c es))" unfolding ds(2) [symmetric] by (force simp: dir_entry_def)
    then obtain ino where "(name, ino) \<in> set (take c es)" by (auto simp: entry_kind_def)
    then show "good_name name" using assms(2) in_set_takeD by fastforce
  qed
  moreover have "drop 0 (take (length out) (overwrite buf 0 out)) = concat (map record_bytes ds)"
    by (simp add: overwrite_def ds(1))
  moreover have "length out \<le> length (overwrite buf 0 out)" by (simp add: overwrite_def)
  ultimately show ?thesis using ls_records_shows [of ds "length out" "overwrite buf 0 out" 0 os k] ds(2) by simp
qed

text \<open>A directory with two entries, written to a console that keeps the text.\<close>

definition console_os :: "u8 list os" where
  "console_os = \<lparr>os_write = \<lambda>fd bs k. (word_of_nat (length bs), k @ bs), os_read = \<lambda>fd n k. (0, [], k), os_open = \<lambda>p f k. (3, k),
     os_getdents64 = \<lambda>fd n k. (0, [], k), os_close = \<lambda>fd k. k, os_getpid = \<lambda>k. (2, k), os_fork = \<lambda>k. (3, k), os_exec = \<lambda>p k. (True, k),
     os_wait = \<lambda>k. (3, 0, k), os_sysinfo = \<lambda>k. (\<lparr>uptime_secs = 0, total_ram = 0, free_ram = 0, procs = 1\<rparr>, k),
     os_proclist = \<lambda>n k. (0, [], k), os_reboot = \<lambda>r k. k, os_setaffinity = \<lambda>m k. (0, k), os_socket = \<lambda>k. (3, k),
     os_sendto = \<lambda>fd bs ip p k. (0, k), os_recvfrom = \<lambda>fd n k. (0, [], [], 0, k)\<rparr>"

lemma console_say: "say console_os ps k = k @ concat ps"
  unfolding say_def by (induction ps arbitrary: k) (simp_all add: console_os_def)

theorem ls_shows_directory_witness:
  "ls_records console_os
     (overwrite (replicate 512 0) 0 (fst (pack_dirents silent_env init_kernel 512 0 0 [] [(str_bytes ''bin'', 2), (str_bytes ''etc'', 3)])))
     (length (fst (pack_dirents silent_env init_kernel 512 0 0 [] [(str_bytes ''bin'', 2), (str_bytes ''etc'', 3)]))) 0 [] =
   Some (Ret (), str_bytes ''bin  etc  '')"
proof -
  let ?es = "[(str_bytes ''bin'', 2), (str_bytes ''etc'', 3)] :: (u8 list \<times> u32) list"
  obtain out where out: "pack_dirents silent_env init_kernel 512 0 0 [] ?es = (out, 2)"
    by (simp add: reclen_def length_dirent64 str_bytes_def Let_def)
  have kinds: "map (entry_kind silent_env init_kernel) ?es = [(str_bytes ''bin'', False), (str_bytes ''etc'', False)]"
    by (simp add: entry_kind_def fs_inode_def with_root_def silent_env_def init_kernel_def)
  have "\<forall>en \<in> set ?es. good_name (fst en)" by (simp add: good_name_def str_bytes_def)
  from ls_shows_directory [OF out this, of console_os "replicate 512 0" "[]"] show ?thesis
    unfolding out fst_conv using kinds by (simp add: console_say shown_def str_bytes_def)
qed

end
