(* ===== verification/User_Progs.thy ===== *)
theory User_Progs
  imports Libc
begin

unbundle bit_operations_syntax

text \<open>
  The other user programs, over the interface of \<open>Libc\<close>: \<open>init\<close>, \<open>netprobe\<close>, \<open>ncectl\<close> and \<open>hello\<close>. \<open>None\<close> is a program
  that runs forever; in \<open>netprobe\<close> an index out of range is a panic. The lemmas show that \<open>init\<close> never ends, and that
  the DNS parser of \<open>netprobe\<close> never panics and finds the address in a reply.
\<close>

section \<open>init\<close>

partial_function (option) motd_loop :: "'k os \<Rightarrow> i32 \<Rightarrow> u8 list \<Rightarrow> 'k \<Rightarrow> (unit fin \<times> 'k) option" where
  "motd_loop os fd buf k =
     (case os_read os fd 256 k of (n, bs, k) \<Rightarrow>
        if sint n \<le> 0 then Some (Ret (), k)
        else (let buf = bs @ drop (length bs) buf in
              if unat n > length buf then Some (Exited 101, k)
              else motd_loop os fd buf (snd (os_write os 1 (take (unat n) buf) k))))"

definition print_motd :: "'k os \<Rightarrow> 'k \<Rightarrow> (unit fin \<times> 'k) option" where
  "print_motd os k =
     (let (fd, k) = os_open os (str_bytes ''/etc/motd'') 0 k in
      if sint fd < 0 then Some (Ret (), k)
      else do { (r, k) \<leftarrow> motd_loop os fd (replicate 256 0) k;
                Some (case r of Ret _ \<Rightarrow> (Ret (), os_close os fd k) | _ \<Rightarrow> (r, k)) })"

text \<open>Reaping until the shell itself, or an error, comes back.\<close>

partial_function (option) reap_until :: "'k os \<Rightarrow> i32 \<Rightarrow> 'k \<Rightarrow> 'k option" where
  "reap_until os shell k =
     (case os_wait os k of (reaped, status, k) \<Rightarrow>
        if reaped = shell \<or> sint reaped < 0 then Some k else reap_until os shell k)"

text \<open>The respawn loop. After a failed \<open>fork\<close> it spins forever.\<close>

partial_function (option) init_loop :: "'k os \<Rightarrow> 'k \<Rightarrow> (unit fin \<times> 'k) option" where
  "init_loop os k =
     (case os_fork os k of (child, k) \<Rightarrow>
        if child = 0 then
          (case os_exec os (str_bytes ''/bin/sh'') k of (replaced, k) \<Rightarrow>
             Some (if replaced then (Replaced, k) else (Exited 1, say os [str_bytes ''init: exec /bin/sh failed'' @ newline] k)))
        else if sint child < 0 then None
        else Option.bind (reap_until os child k) (\<lambda>k.
          init_loop os (say os [str_bytes ''init: shell exited, respawning'' @ newline] k)))"

definition init_main :: "'k os \<Rightarrow> 'k \<Rightarrow> (unit fin \<times> 'k) option" where
  "init_main os k = do { (r, k) \<leftarrow> print_motd os k; (case r of Ret _ \<Rightarrow> init_loop os k | _ \<Rightarrow> Some (r, k)) }"

text \<open>Process 1 does not leave its loop: only a child that \<open>fork\<close> gave 0 goes on to run or fail.\<close>

lemma init_loop_forever:
  assumes parent: "\<And>k. fst (os_fork os k) \<noteq> 0"
  shows "init_loop os k = None"
proof (rule ccontr)
  assume "init_loop os k \<noteq> None"
  then obtain y where "init_loop os k = Some y" by blast
  then have "\<exists>k. fst (os_fork os k) = 0"
  proof (induction rule: init_loop.raw_induct [rotated, where P = "\<lambda>os k y. \<exists>k. fst (os_fork os k) = 0", consumes 1])
    case (1 rec os k y)
    obtain child k' where f: "os_fork os k = (child, k')" by fastforce
    show ?case
    proof (cases "child = 0")
      case True
      then show ?thesis using f by (intro exI [of _ k]) simp
    next
      case False
      then obtain k'' where "rec os k'' = Some y"
        using 1(2) f by (cases "sint child < 0"; cases "reap_until os child k'") auto
      then show ?thesis by (rule 1(1))
    qed
  qed
  with parent show False by blast
qed

section \<open>netprobe\<close>

definition DNS_SERVER :: "u8 list" where [simp]: "DNS_SERVER = [10, 0, 2, 3]"
definition DNS_PORT :: u16 where [simp]: "DNS_PORT = 53"

text \<open>Writing a slice of an array; \<open>None\<close> is the panic of a range that leaves it.\<close>

definition put :: "nat \<Rightarrow> u8 list \<Rightarrow> u8 list \<Rightarrow> u8 list run" where
  "put n xs out = (if n + length xs \<le> length out then Some (take n out @ xs @ drop (n + length xs) out) else None)"

fun put_labels :: "u8 list list \<Rightarrow> nat \<Rightarrow> u8 list \<Rightarrow> (nat \<times> u8 list) run" where
  "put_labels [] n out = Some (n, out)"
| "put_labels (label # ls) n out =
     do { out \<leftarrow> put n [word_of_nat (length label)] out;
          out \<leftarrow> put (n + 1) label out;
          put_labels ls (n + 1 + length label) out }"

definition build_query :: "u8 list \<Rightarrow> u8 list \<Rightarrow> (nat \<times> u8 list) run" where
  "build_query host out =
     do { out \<leftarrow> put 0 (to_be_bytes 2 (0x4c4f :: u16)) out;
          out \<leftarrow> put 2 (to_be_bytes 2 (0x0100 :: u16)) out;
          out \<leftarrow> put 4 (to_be_bytes 2 (1 :: u16)) out;
          (n, out) \<leftarrow> put_labels (split_on 46 host) 12 out;
          out \<leftarrow> put n [0] out;
          out \<leftarrow> put (n + 1) (to_be_bytes 2 (1 :: u16)) out;
          out \<leftarrow> put (n + 3) (to_be_bytes 2 (1 :: u16)) out;
          Some (n + 5, out) }"

function skip_name :: "u8 list \<Rightarrow> nat \<Rightarrow> nat option" where
  "skip_name msg i =
     (if i < length msg then
        (let len = msg ! i in
         if len AND 0xc0 = 0xc0 then Some (i + 2)
         else if len = 0 then Some (i + 1)
         else skip_name msg (i + 1 + unat len))
      else None)"
  by pat_completeness auto
termination by (relation "measure (\<lambda>(msg, i). length msg - i)") auto

declare skip_name.simps [simp del]

text \<open>Reading a byte and a big-endian pair; an index out of range is a panic.\<close>

definition byte_at :: "u8 list \<Rightarrow> nat \<Rightarrow> u8 run" where
  "byte_at msg i = (if i < length msg then Some (msg ! i) else None)"

definition be16_at :: "u8 list \<Rightarrow> nat \<Rightarrow> u16 run" where
  "be16_at msg i = do { a \<leftarrow> byte_at msg i; b \<leftarrow> byte_at msg (i + 1); Some (from_be_bytes [a, b]) }"

fun skip_questions :: "u8 list \<Rightarrow> nat \<Rightarrow> nat \<Rightarrow> nat option" where
  "skip_questions msg 0 i = Some i"
| "skip_questions msg (Suc n) i = do { i \<leftarrow> skip_name msg i; skip_questions msg n (i + 4) }"

fun scan_answers :: "u8 list \<Rightarrow> nat \<Rightarrow> nat \<Rightarrow> u8 list option run" where
  "scan_answers msg 0 i = Some None"
| "scan_answers msg (Suc n) i =
     (case skip_name msg i of
        None \<Rightarrow> Some None
      | Some i \<Rightarrow>
          if i + 10 > length msg then Some None
          else do { rtype \<leftarrow> be16_at msg i;
                    rdlen \<leftarrow> be16_at msg (i + 8);
                    (if rtype = 1 \<and> unat rdlen = 4 \<and> i + 10 + 4 \<le> length msg then
                       do { a \<leftarrow> byte_at msg (i + 10); b \<leftarrow> byte_at msg (i + 11); c \<leftarrow> byte_at msg (i + 12);
                            d \<leftarrow> byte_at msg (i + 13); Some (Some [a, b, c, d]) }
                     else scan_answers msg n (i + 10 + unat rdlen)) })"

definition first_a_record :: "u8 list \<Rightarrow> u8 list option run" where
  "first_a_record msg =
     (if length msg < 12 then Some None
      else do { qd \<leftarrow> be16_at msg 4;
                (case skip_questions msg (unat qd) 12 of
                   None \<Rightarrow> Some None
                 | Some i \<Rightarrow> do { an \<leftarrow> be16_at msg 6; scan_answers msg (unat an) i }) })"

definition say_ip :: "u8 list \<Rightarrow> u8 list list" where
  "say_ip ip =
     [str_bytes (fmt_dec (unat (ip ! 0))), str_bytes ''.'', str_bytes (fmt_dec (unat (ip ! 1))), str_bytes ''.'',
      str_bytes (fmt_dec (unat (ip ! 2))), str_bytes ''.'', str_bytes (fmt_dec (unat (ip ! 3)))]"

definition netprobe_report :: "'k os \<Rightarrow> u8 list \<Rightarrow> u8 list \<Rightarrow> nat \<Rightarrow> u8 list \<Rightarrow> u16 \<Rightarrow> 'k \<Rightarrow> i32 fin \<times> 'k" where
  "netprobe_report os host buf n src_ip src_port k =
     (if n > length buf then (Exited 101, k)
      else
        (let is_response = (n \<ge> 12 \<and> buf ! 2 AND 0x80 \<noteq> 0);
             ancount = (if n \<ge> 12 then from_be_bytes [buf ! 6, buf ! 7] :: u16 else 0);
             k = say os ([str_bytes ''netprobe: reply '', str_bytes (fmt_dec n), str_bytes '' bytes from ''] @ say_ip src_ip @
                   [str_bytes '':'', str_bytes (fmt_dec (unat src_port)), str_bytes '' (response='',
                    str_bytes (if is_response then ''true'' else ''false''), str_bytes '', answers='', str_bytes (fmt_dec (unat ancount)), str_bytes '')'' @ newline]) k
         in case first_a_record (take n buf) of
              None \<Rightarrow> (Exited 101, k)
            | Some r \<Rightarrow>
                (let k = (case r of
                            None \<Rightarrow> k
                          | Some ip \<Rightarrow> say os ([str_bytes ''netprobe: '', host, str_bytes '' resolved to ''] @ say_ip ip @ [newline]) k)
                 in if is_response then (Ret 0, say os [str_bytes ''[net] udp round-trip OK'' @ newline] k)
                    else (Ret 1, say os [str_bytes ''netprobe: reply was not a DNS response'' @ newline] k))))"

definition netprobe_main :: "'k os \<Rightarrow> 'k \<Rightarrow> i32 fin \<times> 'k" where
  "netprobe_main os k =
     (let (fd, k) = os_socket os k in
      if sint fd < 0 then (Ret 1, say os ([str_bytes ''netprobe: socket() failed: ''] @ say_int (sint fd) @ [newline]) k)
      else
        (let host = str_bytes ''example.com'' in
         case build_query host (replicate 64 0) of
           None \<Rightarrow> (Exited 101, k)
         | Some (qlen, query) \<Rightarrow>
             (let k = say os ([str_bytes ''netprobe: DNS query for '', host, str_bytes '' -> ''] @ say_ip DNS_SERVER @
                        [str_bytes '':'', str_bytes (fmt_dec (unat DNS_PORT)), newline]) k;
                  (sent, k) = os_sendto os fd (take qlen query) DNS_SERVER DNS_PORT k
              in if sint sent < 0 then (Ret 1, say os ([str_bytes ''netprobe: sendto failed: ''] @ say_int (sint sent) @ [newline]) k)
                 else
                   (let (n, bs, src_ip, src_port, k) = os_recvfrom os fd 512 k in
                    if sint n < 0 then
                      (Ret 1, say os ([str_bytes ''netprobe: recvfrom failed: ''] @ say_int (sint n) @ [str_bytes '' (no reply)'' @ newline]) k)
                    else netprobe_report os host (bs @ drop (length bs) (replicate 512 0)) (unat n) src_ip src_port k))))"

section \<open>ncectl and hello\<close>

definition ncectl_show :: "'k os \<Rightarrow> i32 \<Rightarrow> 'k \<Rightarrow> unit fin \<times> 'k" where
  "ncectl_show os fd k =
     (let (n, bs, k) = os_read os fd 128 k; buf = bs @ drop (length bs) (replicate 128 0) in
      if sint n > 0 then
        (if unat n > length buf then (Exited 101, k)
         else (Ret (), if utf8_valid (take (unat n) buf) then say os [take (unat n) buf] k else k))
      else (Ret (), k))"

definition ncectl_set_state :: "'k os \<Rightarrow> u8 list \<Rightarrow> u8 list \<Rightarrow> 'k \<Rightarrow> isize \<times> 'k" where
  "ncectl_set_state os path st k =
     (let (fd, k) = os_open os path 0 k in
      if sint fd < 0 then (scast fd, k)
      else (let (ret, k) = os_write os fd st k in (ret, os_close os fd k)))"

definition ncectl_ramp :: "'k os \<Rightarrow> u8 list \<Rightarrow> 'k \<Rightarrow> i32 fin \<times> 'k" where
  "ncectl_ramp os path k =
     (let (bad, k) = ncectl_set_state os path (str_bytes ''turbo'') k in
      if sint bad \<ge> 0 then (Ret 1, say os [str_bytes ''ncectl: BUG: idle->turbo was accepted!'' @ newline] k)
      else
        (let k = say os ([str_bytes ''ncectl: idle->turbo correctly rejected (error ''] @ say_int (sint bad) @ [str_bytes '')'' @ newline]) k;
             (active, k) = ncectl_set_state os path (str_bytes ''active'') k;
             (turbo, k) = (if sint active < 0 then (0, k) else ncectl_set_state os path (str_bytes ''turbo'') k)
         in if sint active < 0 \<or> sint turbo < 0 then (Ret 1, say os [str_bytes ''ncectl: legal transition failed'' @ newline] k)
            else
              (let (fd, k) = os_open os path 0 k in
               case ncectl_show os fd k of
                 (Ret _, k) \<Rightarrow>
                   (let k = os_close os fd k;
                        (ret, k) = os_setaffinity os 1 k;
                        k = say os ([str_bytes ''ncectl: sched_setaffinity(nce0) -> ''] @ say_int (sint ret) @ [newline]) k
                    in (Ret 0, say os [str_bytes ''[phase 7] milestone: NCE HAL '' @ [0xe2, 0x80, 0x94] @
                          str_bytes '' descriptor, power ramp, affinity OK'' @ newline] k))
               | (Exited c, k) \<Rightarrow> (Exited c, k)
               | (Replaced, k) \<Rightarrow> (Replaced, k))))"

definition ncectl_main :: "'k os \<Rightarrow> 'k \<Rightarrow> i32 fin \<times> 'k" where
  "ncectl_main os k =
     (let path = str_bytes ''/dev/nce0'';
          (fd, k) = os_open os path 0 k
      in if sint fd < 0 then
           (Ret 1, say os ([str_bytes ''ncectl: cannot open '', path, str_bytes '' (error ''] @ say_int (sint fd) @ [str_bytes '')'' @ newline]) k)
         else (case ncectl_show os fd k of
                 (Ret _, k) \<Rightarrow> ncectl_ramp os path (os_close os fd k)
               | (Exited c, k) \<Rightarrow> (Exited c, k)
               | (Replaced, k) \<Rightarrow> (Replaced, k)))"

definition hello_main :: "'k os \<Rightarrow> 'k \<Rightarrow> i32 \<times> 'k" where
  "hello_main os k =
     (let (me, k) = os_getpid os k in (42, say os ([str_bytes ''hello: exec works, running as pid ''] @ say_int (sint me) @ [newline]) k))"

section \<open>The DNS parser\<close>

lemma be16_at_Some: "i + 1 < length msg \<Longrightarrow> be16_at msg i = Some (from_be_bytes [msg ! i, msg ! (i + 1)])"
  by (simp add: be16_at_def byte_at_def)

lemma scan_answers_total: "\<exists>r. scan_answers msg n i = Some r"
proof (induction n arbitrary: i)
  case (Suc n)
  show ?case
  proof (cases "skip_name msg i")
    case (Some j)
    then show ?thesis using Suc by (simp add: be16_at_Some byte_at_def)
  qed simp
qed simp

lemma first_a_record_total: "\<exists>r. first_a_record msg = Some r"
proof (cases "length msg < 12")
  case False
  then show ?thesis using scan_answers_total by (simp add: first_a_record_def be16_at_Some split: option.split)
qed (simp add: first_a_record_def)

text \<open>The labels of a name on the wire.\<close>

definition wire_labels :: "u8 list list \<Rightarrow> u8 list" where
  "wire_labels ls = concat (map (\<lambda>l. word_of_nat (length l) # l) ls)"

definition dns_label :: "u8 list \<Rightarrow> bool" where
  "dns_label l \<longleftrightarrow> 0 < length l \<and> length l < 64"

lemma skip_labels:
  "\<forall>l \<in> set ls. dns_label l \<Longrightarrow> skip_name (pre @ wire_labels ls @ 0 # rest) (length pre) = Some (length pre + length (wire_labels ls) + 1)"
proof (induction ls arbitrary: pre)
  case Nil
  show ?case by (subst skip_name.simps) (simp add: wire_labels_def)
next
  case (Cons l ls)
  have l: "0 < length l" "length l < 64" using Cons.prems by (auto simp: dns_label_def)
  have u: "unat (word_of_nat (length l) :: u8) = length l" using l(2) by (simp add: unat_of_nat)
  have "(word_of_nat (length l) :: u8) AND 0xc0 \<noteq> 0xc0"
  proof
    assume "(word_of_nat (length l) :: u8) AND 0xc0 = 0xc0"
    then have "(0xc0 :: u8) \<le> word_of_nat (length l)" by (metis word_and_le2)
    then show False using l(2) u by (simp add: word_le_nat_alt)
  qed
  moreover have "(word_of_nat (length l) :: u8) \<noteq> 0" using l(1) u by (metis less_irrefl unat_0)
  moreover have "pre @ wire_labels (l # ls) @ 0 # rest = (pre @ word_of_nat (length l) # l) @ wire_labels ls @ 0 # rest"
    by (simp add: wire_labels_def)
  ultimately show ?case
    using Cons.IH [of "pre @ word_of_nat (length l) # l"] Cons.prems u
    by (subst skip_name.simps) (simp add: nth_append wire_labels_def Let_def)
qed

lemma put_Some: "put n xs out = Some out' \<Longrightarrow> take (n + length xs) out' = take n out @ xs \<and> length out' = length out \<and> n + length xs \<le> length out"
  by (auto simp: put_def split: if_splits)

lemma put_labels_Some:
  "put_labels ls n out = Some (n', out') \<Longrightarrow> n \<le> length out \<Longrightarrow>
   n' = n + length (wire_labels ls) \<and> take n' out' = take n out @ wire_labels ls \<and> length out' = length out \<and> n' \<le> length out"
proof (induction ls n out arbitrary: n' out' rule: put_labels.induct)
  case (2 label ls n out)
  obtain out1 out2 where p: "put n [word_of_nat (length label)] out = Some out1" "put (n + 1) label out1 = Some out2"
    "put_labels ls (n + 1 + length label) out2 = Some (n', out')"
    using 2(2) by (auto split: bind_splits)
  have a: "take (n + 1) out1 = take n out @ [word_of_nat (length label)]" "length out1 = length out" using put_Some [OF p(1)] by simp_all
  have b: "take (n + 1 + length label) out2 = take (n + 1) out1 @ label" "length out2 = length out1" "n + 1 + length label \<le> length out1"
    using put_Some [OF p(2)] by simp_all
  show ?case using 2(1) [OF p] a b by (auto simp: wire_labels_def)
qed (simp add: wire_labels_def)

lemma build_query_question:
  assumes "build_query host out = Some (n, q)" "length out = 64"
  shows "drop 12 (take n q) = wire_labels (split_on 46 host) @ [0, 0, 1, 0, 1]"
proof -
  obtain o1 o2 o3 n4 o4 o5 o6 where h: "put 0 (to_be_bytes 2 (0x4c4f :: u16)) out = Some o1" "put 2 (to_be_bytes 2 (0x0100 :: u16)) o1 = Some o2"
    and p: "put 4 (to_be_bytes 2 (1 :: u16)) o2 = Some o3" "put_labels (split_on 46 host) 12 o3 = Some (n4, o4)"
      "put n4 [0] o4 = Some o5" "put (n4 + 1) (to_be_bytes 2 (1 :: u16)) o5 = Some o6" "put (n4 + 3) (to_be_bytes 2 (1 :: u16)) o6 = Some q" "n = n4 + 5"
    using assms(1) by (auto simp: build_query_def split: bind_splits)
  have be: "to_be_bytes 2 (1 :: u16) = [0, 1]" by (simp add: to_be_bytes_def to_le_bytes_def numeral_2_eq_2)
  have o3: "length o3 = 64" using put_Some [OF h(1)] put_Some [OF h(2)] put_Some [OF p(1)] assms(2) by simp
  have l: "n4 = 12 + length (wire_labels (split_on 46 host))" "take n4 o4 = take 12 o3 @ wire_labels (split_on 46 host)"
    using put_labels_Some [OF p(2)] o3 by auto
  have "take (n4 + 1) o5 = take n4 o4 @ [0]" "take (n4 + 1 + 2) o6 = take (n4 + 1) o5 @ [0, 1]" "take (n4 + 3 + 2) q = take (n4 + 3) o6 @ [0, 1]"
    using put_Some [OF p(3)] put_Some [OF p(4)] put_Some [OF p(5)] unfolding be by simp_all
  moreover have "n4 + 1 + 2 = n4 + 3" "n4 + 3 + 2 = n4 + 5" by simp_all
  ultimately have "take (n4 + 5) q = take n4 o4 @ [0, 0, 1, 0, 1]" by (metis append.assoc append_Cons append_Nil)
  then show ?thesis using l o3 p(6) by simp
qed

text \<open>
  C40: the DNS parser of \<open>netprobe\<close> finds the address it asked for. A reply that repeats the question of the query the program
  built and answers it with an A record (its name a pointer to the question) yields the address in the record,
  whatever follows it.
\<close>

theorem netprobe_finds_address:
  assumes "build_query host (replicate 64 0) = Some (n, q)" "\<forall>l \<in> set (split_on 46 host). dns_label l"
    and "length hdr = 12" "drop 4 (take 8 hdr) = [0, 1, 0, 1]" "length ttl = 4" "length ip = 4"
    and "reply = hdr @ drop 12 (take n q) @ [0xc0, 0x0c, 0, 1, 0, 1] @ ttl @ [0, 4] @ ip @ rest"
  shows "first_a_record reply = Some (Some ip)"
proof -
  let ?ls = "split_on 46 host"
  let ?pre = "hdr @ wire_labels ?ls @ [0, 0, 1, 0, 1]"
  obtain t0 t1 t2 t3 where t: "ttl = [t0, t1, t2, t3]" using assms(5) by (auto simp: length4)
  obtain a b c d where ip: "ip = [a, b, c, d]" using assms(6) by (auto simp: length4)
  define ans where "ans = [0xc0, 0x0c, 0, 1, 0, 1, t0, t1, t2, t3, 0, 4, a, b, c, d] @ rest"
  have r: "reply = ?pre @ ans" using assms(7) build_query_question [OF assms(1)] t ip by (simp add: ans_def)
  have q: "reply = hdr @ wire_labels ?ls @ 0 # [0, 1, 0, 1] @ ans" using r by simp
  have h: "hdr ! 4 = 0" "hdr ! 5 = 1" "hdr ! 6 = 0" "hdr ! 7 = 1"
  proof -
    have "hdr ! (4 + i) = [0, 1, 0, 1] ! i" if "i < 4" for i using assms(3,4) that by (metis (no_types) nth_drop nth_take add_less_cancel_left numeral_Bit0 less_imp_le_nat length_take min.absorb2 numeral_le_iff le_num_simps)
    from this [of 0] this [of 1] this [of 2] this [of 3] show "hdr ! 4 = 0" "hdr ! 5 = 1" "hdr ! 6 = 0" "hdr ! 7 = 1" by simp_all
  qed
  have counts: "be16_at reply 4 = Some 1" "be16_at reply 6 = Some 1"
    using assms(3) h by (simp_all add: be16_at_Some r nth_append from_be_bytes_def)
  have skip: "skip_name reply 12 = Some (12 + length (wire_labels ?ls) + 1)"
    using skip_labels [OF assms(2), of hdr "[0, 1, 0, 1] @ ans"] assms(3) unfolding q by simp
  have P: "12 + length (wire_labels ?ls) + 1 + 4 = length ?pre" using assms(3) by simp
  have at: "reply ! (length ?pre + i) = ans ! i" for i unfolding r by (rule nth_append_length_plus)
  have len: "length reply = length ?pre + 16 + length rest" by (simp add: r ans_def)
  have skip2: "skip_name reply (length ?pre) = Some (length ?pre + 2)"
    using at [of 0] len by (subst skip_name.simps) (simp add: ans_def)
  define L where "L = length ?pre"
  note at = at [folded L_def] and len = len [folded L_def] and skip2 = skip2 [folded L_def]
  obtain M where M: "M = L + 2" by simp
  have byte: "byte_at reply (M + i) = Some (ans ! (2 + i))" if "i < 14" for i
    using that at [of "2 + i"] len by (simp add: byte_at_def M)
  have pair: "be16_at reply (M + i) = Some (from_be_bytes [ans ! (2 + i), ans ! (2 + (i + 1))])" if "i < 13" for i
    using that byte [of i] byte [of "i + 1"] by (simp add: be16_at_def)
  have "scan_answers reply (Suc 0) L = Some (Some ip)"
    using pair [of 0] pair [of 8] byte [of 10] byte [of 11] byte [of 12] byte [of 13] skip2 [folded M] len M
    by (simp add: ans_def ip from_be_bytes_def)
  then show ?thesis
    using counts skip P len by (simp add: first_a_record_def L_def)
qed

theorem netprobe_finds_address_witness:
  "\<exists>n q. build_query (str_bytes ''example.com'') (replicate 64 0) = Some (n, q) \<and>
     first_a_record ([0x4c, 0x4f, 0x81, 0x80, 0, 1, 0, 1, 0, 0, 0, 0] @ drop 12 (take n q) @
       [0xc0, 0x0c, 0, 1, 0, 1] @ [0, 0, 1, 0] @ [0, 4] @ [93, 184, 216, 34] @ []) = Some (Some [93, 184, 216, 34])"
proof -
  have ls: "split_on 46 (str_bytes ''example.com'') = [str_bytes ''example'', str_bytes ''com'']" by (simp add: str_bytes_def)
  have d: "\<forall>l \<in> set (split_on 46 (str_bytes ''example.com'')). dns_label l" unfolding ls by (simp add: dns_label_def str_bytes_def)
  obtain n q where q: "build_query (str_bytes ''example.com'') (replicate 64 0) = Some (n, q)"
    unfolding build_query_def ls by (simp add: put_def byte_simps str_bytes_def)
  show ?thesis
    using netprobe_finds_address [OF q d, of "[0x4c, 0x4f, 0x81, 0x80, 0, 1, 0, 1, 0, 0, 0, 0]" "[0, 0, 1, 0]" "[93, 184, 216, 34]" _ "[]"] q by simp
qed

end
