(* ===== verification/Selftest.thy ===== *)
theory Selftest
  imports Libc
begin

text \<open>
  \<open>userspace/selftest\<close>, over the interface of \<open>Libc\<close>. Its third part uses memory of its own: \<open>mmap\<close>, \<open>munmap\<close> and the
  volatile accesses to the mapped pages are a second parameter. An access that faults kills the process with code
  \<open>-1\<close>, a failed assertion is a panic. Every loop is bounded, so the program is a total function; on memory that keeps what is
  written to it the test of \<open>mmap\<close> succeeds.
\<close>

section \<open>The program\<close>

record 'k umem =
  um_mmap :: "nat \<Rightarrow> 'k \<Rightarrow> usize \<times> 'k"
  um_munmap :: "usize \<Rightarrow> nat \<Rightarrow> 'k \<Rightarrow> isize \<times> 'k"
  um_write_volatile :: "usize \<Rightarrow> u8 \<Rightarrow> 'k \<Rightarrow> bool \<times> 'k"
  um_read_volatile :: "usize \<Rightarrow> 'k \<Rightarrow> u8 option \<times> 'k"

definition ROUNDS :: nat where [simp]: "ROUNDS = 5"

text \<open>The loops of the two processes; \<open>spin_delay\<close> only passes time.\<close>

fun selftest_rounds :: "'k os \<Rightarrow> u8 list \<Rightarrow> nat list \<Rightarrow> 'k \<Rightarrow> 'k" where
  "selftest_rounds os who [] k = k"
| "selftest_rounds os who (r # rounds) k =
     (let (me, k) = os_getpid os k
      in selftest_rounds os who rounds
           (say os ([who] @ say_int (sint me) @ [str_bytes ''): round '', str_bytes (fmt_dec r), newline]) k))"

fun write_pattern :: "'k umem \<Rightarrow> usize \<Rightarrow> nat list \<Rightarrow> 'k \<Rightarrow> unit fin \<times> 'k" where
  "write_pattern um mem [] k = (Ret (), k)"
| "write_pattern um mem (i # is) k =
     (case um_write_volatile um (mem + word_of_nat i) (word_of_nat (i mod 251)) k of
        (ok, k) \<Rightarrow> if ok then write_pattern um mem is k else (Exited (-1), k))"

fun check_pattern :: "'k umem \<Rightarrow> usize \<Rightarrow> nat list \<Rightarrow> 'k \<Rightarrow> unit fin \<times> 'k" where
  "check_pattern um mem [] k = (Ret (), k)"
| "check_pattern um mem (i # is) k =
     (case um_read_volatile um (mem + word_of_nat i) k of
        (None, k) \<Rightarrow> (Exited (-1), k)
      | (Some v, k) \<Rightarrow> if v = word_of_nat (i mod 251) then check_pattern um mem is k else (Exited 101, k))"

text \<open>The indices of \<open>(0..len).step_by(509)\<close>.\<close>

definition step_by :: "nat \<Rightarrow> nat \<Rightarrow> nat list" where
  "step_by len n = map (\<lambda>j. j * n) [0..<(len + n - 1) div n]"

definition selftest_memory :: "'k os \<Rightarrow> 'k umem \<Rightarrow> 'k \<Rightarrow> unit fin \<times> 'k" where
  "selftest_memory os um k =
     (let len = 3 * 4096; (mem, k) = um_mmap um len k in
      if mem = 0 \<or> sint mem \<le> 0 then (Exited 101, k)
      else
        (case write_pattern um mem [0..<len] k of
           (Ret _, k) \<Rightarrow>
             (case check_pattern um mem (step_by len 509) k of
                (Ret _, k) \<Rightarrow>
                  (let k = say os [str_bytes ''selftest: mmap/munmap of '', str_bytes (fmt_dec len), str_bytes '' bytes verified'' @ newline] k;
                       (r, k) = um_munmap um mem len k
                   in if r = 0 then (Ret (), k) else (Exited 101, k))
              | (q, k) \<Rightarrow> (q, k))
         | (q, k) \<Rightarrow> (q, k)))"

definition reap_report :: "'k os \<Rightarrow> u8 list \<Rightarrow> u8 list \<Rightarrow> 'k \<Rightarrow> 'k" where
  "reap_report os what verb k =
     (case os_wait os k of (reaped, status, k) \<Rightarrow>
        say os ([what] @ say_int (sint reaped) @ [verb] @ say_int (sint status div 256) @ [newline]) k)"

definition selftest_exec :: "'k os \<Rightarrow> 'k \<Rightarrow> i32 fin \<times> 'k" where
  "selftest_exec os k =
     (let (child, k) = os_fork os k in
      if child = 0 then
        (case os_exec os (str_bytes ''hello'') k of (replaced, k) \<Rightarrow>
           if replaced then (Replaced, k) else (Exited 1, say os [str_bytes ''selftest: exec failed!'' @ newline] k))
      else
        (let k = reap_report os (str_bytes ''selftest: exec'' @ [39] @ str_bytes ''d child pid '') (str_bytes '' exited with code '') k
         in (Ret 0, say os [str_bytes ''[phase 4] milestone: syscall surface (write/read/fork/exec/wait/mmap) OK'' @ newline] k)))"

definition selftest_main :: "'k os \<Rightarrow> 'k umem \<Rightarrow> 'k \<Rightarrow> i32 fin \<times> 'k" where
  "selftest_main os um k =
     (let (me, k) = os_getpid os k;
          k = say os ([str_bytes ''selftest: pid ''] @ say_int (sint me) @ [str_bytes '' starting'' @ newline]) k;
          (child, k) = os_fork os k
      in if sint child < 0 then (Ret 1, say os ([str_bytes ''selftest: fork failed: ''] @ say_int (sint child) @ [newline]) k)
         else if child = 0 then (Exited 7, selftest_rounds os (str_bytes ''proc B (pid '') [0..<ROUNDS] k)
         else
           (let k = selftest_rounds os (str_bytes ''proc A (pid '') [0..<ROUNDS] k;
                k = reap_report os (str_bytes ''selftest: reaped child pid '') (str_bytes '' with exit code '') k;
                k = say os [str_bytes ''[phase 3] milestone: two processes ran concurrently with preemption'' @ newline] k
            in case selftest_memory os um k of
                 (Ret _, k) \<Rightarrow> selftest_exec os k
               | (Exited c, k) \<Rightarrow> (Exited c, k)
               | (Replaced, k) \<Rightarrow> (Replaced, k)))"

section \<open>The memory test\<close>

text \<open>Memory: \<open>view\<close> gives the bytes of the mapped pages, a write changes one of them and a read returns it.\<close>

definition keeps_bytes :: "'k umem \<Rightarrow> ('k \<Rightarrow> usize \<rightharpoonup> u8) \<Rightarrow> bool" where
  "keeps_bytes um view \<longleftrightarrow>
     (\<forall>a v k. view k a \<noteq> None \<longrightarrow> (\<exists>k'. um_write_volatile um a v k = (True, k') \<and> view k' = (view k)(a \<mapsto> v))) \<and>
     (\<forall>a v k. view k a = Some v \<longrightarrow> (\<exists>k'. um_read_volatile um a k = (Some v, k') \<and> view k' = view k))"

lemma write_pattern_fills:
  assumes hw: "keeps_bytes um view" and dom: "\<forall>i \<in> set is. view k (mem + word_of_nat i) \<noteq> None" and sm: "\<forall>i \<in> set is. i < 2 ^ 64"
  shows "\<exists>k'. write_pattern um mem is k = (Ret (), k') \<and>
    (\<forall>i \<in> set is. view k' (mem + word_of_nat i) = Some (word_of_nat (i mod 251))) \<and>
    (\<forall>a. a \<notin> (\<lambda>i. mem + word_of_nat i) ` set is \<longrightarrow> view k' a = view k a)"
  using dom sm
proof (induction "is" arbitrary: k)
  case (Cons i "is")
  let ?a = "mem + word_of_nat i"
  obtain k1 where w: "um_write_volatile um ?a (word_of_nat (i mod 251)) k = (True, k1)"
    and v: "view k1 = (view k)(?a \<mapsto> word_of_nat (i mod 251))"
    using hw Cons.prems(1) unfolding keeps_bytes_def by (meson list.set_intros(1))
  have "\<forall>i \<in> set is. view k1 (mem + word_of_nat i) \<noteq> None" using Cons.prems(1) v by simp
  then obtain k' where r: "write_pattern um mem is k1 = (Ret (), k')"
    "\<And>i. i \<in> set is \<Longrightarrow> view k' (mem + word_of_nat i) = Some (word_of_nat (i mod 251))"
    "\<And>a. a \<notin> (\<lambda>i. mem + word_of_nat i) ` set is \<Longrightarrow> view k' a = view k1 a"
    using Cons.IH [of k1] Cons.prems(2) by auto
  have "view k' ?a = Some (word_of_nat (i mod 251))"
  proof (cases "i \<in> set is")
    case False
    have "j = i" if "j \<in> set is" "?a = mem + word_of_nat j" for j
      using that Cons.prems(2) by (simp add: word_of_nat_eq_iff take_bit_nat_eq_self)
    with False have "?a \<notin> (\<lambda>i. mem + word_of_nat i) ` set is" by blast
    then show ?thesis using r(3) v by simp
  qed (use r(2) in blast)
  then show ?case using w r v by auto
qed simp

lemma check_pattern_passes:
  assumes "keeps_bytes um view" "\<forall>i \<in> set is. view k (mem + word_of_nat i) = Some (word_of_nat (i mod 251))"
  shows "\<exists>k'. check_pattern um mem is k = (Ret (), k') \<and> view k' = view k"
  using assms(2)
proof (induction "is" arbitrary: k)
  case (Cons i "is")
  obtain k1 where r: "um_read_volatile um (mem + word_of_nat i) k = (Some (word_of_nat (i mod 251)), k1)" "view k1 = view k"
    using assms(1) Cons.prems unfolding keeps_bytes_def by (meson list.set_intros(1))
  then obtain k2 where "check_pattern um mem is k1 = (Ret (), k2)" "view k2 = view k1"
    using Cons.IH [of k1] Cons.prems by auto
  then show ?case using r by simp
qed simp

lemma step_by_bound: "0 < n \<Longrightarrow> i \<in> set (step_by len n) \<Longrightarrow> i < len"
proof -
  assume n: "0 < n" and "i \<in> set (step_by len n)"
  then obtain j where j: "i = j * n" "j + 1 \<le> (len + n - 1) div n" by (auto simp: step_by_def)
  then have "(j + 1) * n \<le> len + n - 1" using n by (metis less_eq_div_iff_mult_less_eq)
  then show "i < len" using j n by simp
qed

lemma selftest_memory_passes:
  assumes hw: "keeps_bytes um view" and map: "um_mmap um 12288 k = (mem, k1)" "0 < sint mem"
    and dom: "\<And>i. i < 12288 \<Longrightarrow> view k1 (mem + word_of_nat i) \<noteq> None" and un: "\<And>k. fst (um_munmap um mem 12288 k) = 0"
  shows "\<exists>k'. selftest_memory os um k = (Ret (), k')"
proof -
  obtain k2 where w: "write_pattern um mem [0..<12288] k1 = (Ret (), k2)"
    and v: "\<And>i. i < 12288 \<Longrightarrow> view k2 (mem + word_of_nat i) = Some (word_of_nat (i mod 251))"
    using write_pattern_fills [OF hw, of "[0..<12288]" k1 mem] dom by auto
  have "\<forall>i \<in> set (step_by 12288 509). view k2 (mem + word_of_nat i) = Some (word_of_nat (i mod 251))"
    using v step_by_bound [of 509 _ 12288] by simp
  then obtain k3 where "check_pattern um mem (step_by 12288 509) k2 = (Ret (), k3)"
    using check_pattern_passes [OF hw] by blast
  moreover have "mem \<noteq> 0" using map(2) by auto
  moreover have "\<exists>k'. um_munmap um mem 12288 k = (0, k')" for k using un [of k] by (metis prod.collapse)
  from this [of "say os [str_bytes ''selftest: mmap/munmap of '', str_bytes (fmt_dec 12288), str_bytes '' bytes verified'' @ newline] k3"]
  obtain k4 where "um_munmap um mem 12288
      (say os [str_bytes ''selftest: mmap/munmap of '', str_bytes (fmt_dec 12288), str_bytes '' bytes verified'' @ newline] k3) = (0, k4)" by blast
  ultimately show ?thesis using w map by (simp add: selftest_memory_def Let_def)
qed

end
