(* ===== verification/Spec2Isabelle.thy ===== *)
theory Spec2Isabelle
  imports Spin_Lock Kernel_Typed Boot Mmap Virtio_Blk Virtio_Net Shell User_Progs Selftest
begin

text \<open>
  \<^bold>\<open>LightOS Orion: a verification library of the kernel and its user programs.\<close>

  LightOS is a single-hart RISC-V (RV64GC) kernel in Rust with a handful of user programs. It boots on QEMU's
  \<open>virt\<close> machine, sets up a frame allocator, a heap and Sv39 paging, mounts a read-only Minix3 file system from a
  VirtIO disk, brings up a VirtIO network card, and runs preemptively scheduled user processes behind a Linux-numbered
  system-call interface. This library models the program part by part, in the order in which the parts rest on each
  other, and proves what makes each part correct and what the parts achieve together. This theory holds no
  definitions of its own; it joins the others.

  \<^bold>\<open>Conventions.\<close>

  \<^item> A machine integer is a word of its width; \<open>usize\<close> is a 64-bit word and arithmetic wraps, as in the release
    build. Counters that index tables are natural numbers. \<open>u8 list\<close> is a byte slice, and an array of fixed
    size is a list whose length an invariant records.
  \<^item> \<open>'a run\<close> is \<open>'a option\<close>: \<open>None\<close> is a panic, or a loop that does not end. A loop that is not
    structurally recursive is a \<open>function\<close> with a measure, or a \<open>partial_function\<close> in the option monad where
    it may run for ever (polling a device, walking a linked list in memory, mapping a range of addresses); for
    these the theorems show that a result is returned, not only that a result is right.
  \<^item> \<open>'a result\<close> is \<open>string + 'a\<close>, Rust's \<open>Result\<close> with its message. A system call returns a \<open>sysret\<close>: a value, or the
    fact that it has parked its process and scheduled another, or that the machine halts.
  \<^item> State is passed explicitly. \<open>machine\<close> is memory and frame allocator; \<open>kheap\<close>, \<open>boot\<close> and \<open>kernel\<close> extend it by
    the statics of the other modules. Operations on memory are polymorphic in the extension, so that one definition
    serves at boot and in the running kernel; \<open>Mem_Frame\<close> shows that they leave the extension alone.
  \<^item> What is below or outside the kernel is a parameter: the linker's symbols (\<open>linker\<close>), devices (\<open>bus\<close>, and the
    functions of \<open>env\<close>), the disk (\<open>blkdev\<close>), embedded images. Hypotheses on a device (\<open>ns16550\<close>, the device side of a
    virtqueue) state documented behaviour, and every theorem with hypotheses has a witness on concrete values.

  \<^bold>\<open>The theories.\<close>

  \<^item> \<open>Prelude\<close>, \<open>Strings\<close>: types, byte codecs, list and word lemmas; the strings and formatting the kernel uses.
  \<^item> \<open>Layout\<close>, \<open>Phys_Mem\<close>: \<open>mem/layout.rs\<close>; memory as a byte store with the raw-pointer operations on it.
  \<^item> \<open>Page_Alloc\<close>: \<open>mem/page.rs\<close>. The bitmap allocator refines a set of free frames: an allocation is the first run
    that is long enough, and fails only if there is none; freeing it restores the set. The locale \<open>page_source\<close> is what
    its clients rely on; it is interpreted on \<open>page_alloc\<close>.
  \<^item> \<open>Kalloc\<close>: \<open>mem/kalloc.rs\<close>. The in-band free list is a well-formed segment list in memory; allocation and
    deallocation are exact on the set of available bytes, in any order, and the heap grows from the frame allocator.
  \<^item> \<open>Mmu\<close>, \<open>Uaccess\<close>: \<open>mem/mmu.rs\<close> and \<open>mem/uaccess.rs\<close>. Tables are trees in memory (\<open>tree_wf\<close>); mapping, unmapping and
    freeing change exactly the translations they should, and one address space does not affect another whose tables
    are apart. Copies to and from user space succeed exactly on mapped ranges of the user window and touch nothing
    else.
  \<^item> \<open>User_Space\<close>, \<open>Fork\<close>, \<open>Kernel_Map\<close>, \<open>Exec_Space\<close>, \<open>Mmap\<close>: whole address spaces. A page view gives permissions and bytes of
    a page. The kernel's own space identity-maps its sections with no page writable and executable; starting a program
    builds exactly the pages of its image and stack; forking gives the child a copy in frames of its own;
    \<open>mmap\<close> adds exactly its zeroed pages, in fresh frames, to the caller's space.
  \<^item> \<open>Net_Codec\<close>, \<open>Socket\<close>, \<open>Net_Iface\<close>, \<open>Net_Boot\<close>: \<open>net/\<close>. Builders and parsers are inverse (the locale \<open>codec\<close>, with an
    interpretation for each protocol) and the checksums verify; the socket table keeps ports unique and backlogs
    bounded; a datagram sent by one machine reaches the bound socket of another; the boot-time self test passes on a
    link whose gateway answers within its two budgets of 2000 polls.
  \<^item> \<open>Uart\<close>, \<open>Fifo\<close>, \<open>Nce\<close>, \<open>Spin_Lock\<close>: \<open>uart.rs\<close>, \<open>nce/\<close>, \<open>lock.rs\<close>. The console ring and a socket's backlog are instances
    of one locale, \<open>bounded_fifo\<close>. The power registers of the accelerators stay in step with the recorded states.
    The lock is a step relation over any number of harts, with the spurious failures of the weak exchange.
  \<^item> \<open>Minix3\<close>, \<open>Vfs\<close>, \<open>Elf\<close>: \<open>fs/\<close> and \<open>elf.rs\<close>. Reading returns the bytes of the file's zones, whatever the chunking;
    lookup is compositional; the size limit is that of the zone map. The loader's offset arithmetic wraps as
    written.
  \<^item> \<open>Virtio\<close>, \<open>Virtio_Blk\<close>, \<open>Virtio_Net\<close>: \<open>drivers/virtio/\<close>. Descriptors and rings lie in the memory that driver and
    device share. The device is a step on that memory; against a device that follows the specification a transfer
    moves the sectors of the disk, so the block interface of the file system (\<open>blkdev\<close>) is implemented, a frame given to
    the card is transmitted, and polling delivers every received frame in order and returns the buffers.
  \<^item> \<open>Kernel_State\<close>, \<open>Process\<close>, \<open>Posix\<close>, \<open>Trap\<close>: the kernel's state and all that runs on it: \<open>sched/\<close>, \<open>syscall/\<close>, \<open>trap/\<close>,
    \<open>power.rs\<close>, \<open>nce/affinity.rs\<close>. One definition per operation, system call and handler.
  \<^item> \<open>Mem_Frame\<close>, \<open>Proc_Spec\<close>, \<open>Proc_Refine\<close>, \<open>Kernel_Run\<close>, \<open>Kernel_Typed\<close>, \<open>Sched_Fair\<close>: whole runs. \<open>kstep\<close> is one step of
    the machine: user code runs, user code traps, or an interrupt ends an idle wait. \<open>Proc_Spec\<close> is the contract of
    the process table, an abstract machine with its invariant; every trap makes steps of that machine only. Every
    run keeps the state well typed, and a process that stays ready is scheduled within 64 ticks.
  \<^item> \<open>Boot\<close>: \<open>main.rs\<close>, \<open>mem/mod.rs\<close>, the set-up parts of \<open>trap/\<close>. From the loaded image to the first process in
    user mode: it composes the results on the allocators, the page tables, the loader and the scheduler.
  \<^item> \<open>Libc\<close>, \<open>Shell_Path\<close>, \<open>Shell\<close>, \<open>User_Progs\<close>, \<open>Selftest\<close>: \<open>userspace/\<close>. The programs are written against a record of the
    wrappers of \<open>libc_shim\<close>; the wrappers load the numbers the kernel dispatches on. The shell's in-place path resolution
    is the textbook one, its directory listing shows what the kernel packed, and the DNS client of \<open>netprobe\<close> finds the
    address in a reply.

  \<^bold>\<open>Bounds.\<close> The polls of the receive ring at boot (2000) and in \<open>recvfrom\<close> (4000), and the spins that wait for
  a used element, are the source's own loop bounds. Nothing else is cut short: where the source loops
  without bound, so does the model.

  \<^bold>\<open>Not modelled.\<close>

  \<^item> Assembly: the reset entry (\<open>boot/entry.S\<close>), the trap vectors and the return to user mode (\<open>vector.S\<close>, \<open>switch.S\<close>).
    The model has the trap frames they fill and restore; \<open>scause\<close> is an argument.
  \<^item> Time and memory order: interrupts between two instructions of the kernel (after boot the kernel runs with
    interrupts off; during \<open>kinit\<close> they are on, which a finding of the manifest describes), the TLB and its fences,
    the fences of the VirtIO rings. The model is sequentially consistent and the spin locks, on one hart, are free.
  \<^item> The allocations that Rust's collections make in system calls: a \<open>Vec\<close> is a list. The heap is modelled on its
    own and at boot.
  \<^item> \<open>heap_smoke_test\<close> of \<open>main.rs\<close>, which \<open>kinit\<close> calls once: it allocates a box and a vector, asserts what it wrote to
    them and releases them.
  \<^item> Diagnostics on the console, the text of panics, and the banner.
  \<^item> Build scripts, the linker script (its promises are \<open>linker_ok\<close>), shell scripts and CI files: no program logic.
\<close>

end
